(* ===== verification/Prelude.thy ===== *)
theory Prelude
  imports Main "HOL-Library.Word"
begin

unbundle bit_operations_syntax

text \<open>
  The prelude of the development: the types shared by all components (thread
  identifiers, the widths of the machine integers the code uses), the rule collections
  the component theories add to, and the generic facts on words and function updates
  that more than one component needs.
\<close>

section \<open>Shared types\<close>

type_synonym tid = nat
type_synonym u8 = "8 word"
type_synonym u32 = "32 word"
type_synonym u64 = "64 word"

section \<open>Rule collections\<close>

named_theorems atomic_ops "definitions of the operations of the class template Atomic"
named_theorems step_defs "definitions of the thread steps of the concurrent components"
named_theorems asm_defs "definitions of the instructions and the inline assembler blocks"

section \<open>Counters of machine width\<close>

text \<open>
  Two version numbers that agree as machine words are equal when they are less than one
  whole turn of the counter apart. This is the arithmetic behind every ABA counter.
\<close>

lemma of_nat_word_eq_within_turn:
  assumes "m \<le> n" and "n - m < 2 ^ LENGTH('w::len)"
    and "(of_nat n :: 'w word) = of_nat m"
  shows "n = m"
proof -
  have "n mod 2 ^ LENGTH('w) = m mod 2 ^ LENGTH('w)"
    using assms(3) by (metis unat_of_nat)
  then have "(n - m) mod 2 ^ LENGTH('w) = 0"
    using assms(1) by (metis mod_eq_dvd_iff_nat dvd_imp_mod_0)
  then have "n - m = 0"
    using assms(2) by simp
  with assms(1) show ?thesis by simp
qed

lemma of_nat_word_eq_turns:
  assumes "m \<le> n"
  shows "(of_nat n :: 'w::len word) = of_nat m \<longleftrightarrow> 2 ^ LENGTH('w) dvd n - m"
proof -
  have "(of_nat n :: 'w word) = of_nat m \<longleftrightarrow> n mod 2 ^ LENGTH('w) = m mod 2 ^ LENGTH('w)"
    by (metis unat_of_nat word_unat_eq_iff)
  then show ?thesis using assms by (simp add: mod_eq_dvd_iff_nat)
qed

section \<open>Splitting a double word\<close>

lemma ucast_word_cat_low [simp]:
  "(ucast (word_cat (hi :: 32 word) (lo :: 32 word) :: 64 word) :: 32 word) = lo"
  by (rule bit_word_eqI) (simp add: bit_simps)

lemma ucast_word_cat_high [simp]:
  "(ucast (drop_bit 32 (word_cat (hi :: 32 word) (lo :: 32 word) :: 64 word)) :: 32 word) = hi"
  by (rule bit_word_eqI) (simp add: bit_simps)

end
