(* ===== verification/Platform.thy ===== *)
theory Platform
  imports Prelude
begin

text \<open>
  Platform selection: \<open>helper.hpp\<close> (the word width of the target) and
  \<open>atomic_asm_dwcas_llsc.hpp\<close> (which of the two ABA protections the target gets).
  The preprocessor conditionals become functions of the target; an \<open>#error\<close> is
  \<open>None\<close>.
\<close>

section \<open>Targets\<close>

text \<open>The architecture macros the headers test; \<open>Other\<close> stands for none of them.\<close>

datatype target = X86_64 | I686 | AARCH64 | ARM32 | Other

datatype PlatformWidth = WIDTH_32 | WIDTH_64

definition PLATFORM_WIDTH :: "target \<Rightarrow> PlatformWidth option" where
  "PLATFORM_WIDTH t =
     (if t = X86_64 \<or> t = AARCH64 then Some WIDTH_64
      else if t = I686 \<or> t = ARM32 then Some WIDTH_32
      else None)"

text \<open>\<open>atomic_asm_x86.hpp\<close> defines \<open>ATOMIC_DWCAS_NEEDED\<close> and \<open>atomic_asm_arm.hpp\<close>
  defines \<open>ATOMIC_LLSC_NEEDED\<close>; the constant is chosen from these macros.\<close>

datatype PlatformABASolution = DWCAS | LLSC

definition PLATFORM_ABA_SOLUTION :: "target \<Rightarrow> PlatformABASolution option" where
  "PLATFORM_ABA_SOLUTION t =
     (if t = X86_64 \<or> t = I686 then Some DWCAS
      else if t = AARCH64 \<or> t = ARM32 then Some LLSC
      else None)"

lemma platform_supported_iff:
  "PLATFORM_WIDTH t = None \<longleftrightarrow> PLATFORM_ABA_SOLUTION t = None"
  by (simp add: PLATFORM_WIDTH_def PLATFORM_ABA_SOLUTION_def)

end
