(* ===== verification/Aba_Wrapper.thy ===== *)
theory Aba_Wrapper
  imports Platform
begin

text \<open>
  The class template \<open>ABA_Wrapper\<close> of \<open>aba_wrapper.hpp\<close>: its size and alignment
  constants with the static assertions, the constructor, \<open>get\<close>, \<open>get_counter\<close>, and
  \<open>modify\<close> as a machine whose steps are the accesses to shared memory, so that the
  threads of a concurrent client interleave between them. Both branches of
  \<open>if constexpr (ABA_IS_PLATFORM_DWCAS)\<close> are modelled.
\<close>

section \<open>Sizes and alignment\<close>

text \<open>Sizes are in bytes. The kind of the type \<open>T\<close> is what the first assertion tests.\<close>

datatype data_kind = Pointer | Integral | Other_kind

definition ABA_IS_PLATFORM_64 :: "target \<Rightarrow> bool" where
  "ABA_IS_PLATFORM_64 p \<longleftrightarrow> PLATFORM_WIDTH p = Some WIDTH_64"

definition ABA_IS_PLATFORM_DWCAS :: "target \<Rightarrow> bool" where
  "ABA_IS_PLATFORM_DWCAS p \<longleftrightarrow> PLATFORM_ABA_SOLUTION p = Some DWCAS"

definition ABA_MAX_DATA_SIZE :: "target \<Rightarrow> nat" where
  "ABA_MAX_DATA_SIZE p = (if ABA_IS_PLATFORM_64 p then 8 else 4)"

definition ABA_ARRAY_SIZE :: "target \<Rightarrow> nat" where
  "ABA_ARRAY_SIZE p = (if ABA_IS_PLATFORM_DWCAS p then 2 else 1)"

definition ABA_ATOMIC_ALIGNMENT :: "target \<Rightarrow> nat \<Rightarrow> nat" where
  "ABA_ATOMIC_ALIGNMENT p sizeof_T =
     ABA_ARRAY_SIZE p * (if ABA_IS_PLATFORM_64 p \<and> sizeof_T > 4 then 8 else 4)"

definition sizeof_base_type :: "target \<Rightarrow> nat \<Rightarrow> nat" where
  "sizeof_base_type p sizeof_T = (if ABA_IS_PLATFORM_64 p \<and> sizeof_T > 4 then 8 else 4)"

definition sizeof_content :: "target \<Rightarrow> nat \<Rightarrow> nat" where
  "sizeof_content p sizeof_T = max (ABA_ARRAY_SIZE p * sizeof_base_type p sizeof_T) sizeof_T"

definition aba_assertions :: "target \<Rightarrow> data_kind \<Rightarrow> nat \<Rightarrow> bool" where
  "aba_assertions p k sizeof_T \<longleftrightarrow>
     (k = Pointer \<or> k = Integral)
     \<and> sizeof_T \<le> ABA_MAX_DATA_SIZE p
     \<and> sizeof_T \<ge> 4
     \<and> (sizeof_T = 4 \<or> sizeof_T = ABA_MAX_DATA_SIZE p)
     \<and> sizeof_base_type p sizeof_T = sizeof_T"

lemmas aba_size_defs =
  ABA_IS_PLATFORM_64_def ABA_IS_PLATFORM_DWCAS_def ABA_MAX_DATA_SIZE_def ABA_ARRAY_SIZE_def
  ABA_ATOMIC_ALIGNMENT_def sizeof_base_type_def sizeof_content_def aba_assertions_def

section \<open>Shared state\<close>

text \<open>
  \<open>word0\<close> is \<open>content.atomic[0]\<close>, which \<open>content.data\<close> overlays; \<open>word1\<close> is the
  counter \<open>content.atomic[1]\<close>, present on the DWCAS platforms only. \<open>excl t\<close> is thread
  \<open>t\<close>'s exclusive monitor on the LL/SC platforms, \<open>heap\<close> the memory the client's modifier
  functions access. Two ghost fields, never read by the code's steps: \<open>version\<close> counts the
  successful modifications, \<open>snap t\<close> is the version at which thread \<open>t\<close> last read the
  counter (DWCAS) or armed its monitor (LL/SC).
\<close>

record ('v, 'h) aba =
  word0 :: 'v
  word1 :: 'v
  excl :: "tid \<Rightarrow> bool"
  heap :: 'h
  version :: nat
  snap :: "tid \<Rightarrow> nat"

text \<open>The constructor stores the initial value and, with DWCAS, the counter 1.\<close>

definition aba_init ::
    "PlatformABASolution \<Rightarrow> 'w::len word \<Rightarrow> 'h \<Rightarrow> ('w word, 'h) aba" where
  "aba_init sol init h =
     \<lparr>word0 = init, word1 = (if sol = DWCAS then 1 else 0), excl = (\<lambda>_. False), heap = h,
      version = 0, snap = (\<lambda>_. 0)\<rparr>"

definition aba_get :: "('v, 'h, 'z) aba_scheme \<Rightarrow> 'v" where
  "aba_get s = word0 s"

definition aba_get_counter ::
    "PlatformABASolution \<Rightarrow> ('w::len word, 'h, 'z) aba_scheme \<Rightarrow> 'w word" where
  "aba_get_counter sol s = (if sol = DWCAS then word1 s else 0)"

section \<open>The modify loop\<close>

text \<open>
  A modifier function gets the heap and the cached data; it returns the desired data
  (\<open>None\<close> when it returns false), the heap, and what it assigned to captured variables.
\<close>

type_synonym ('v, 'h, 'r) modifier = "'h \<Rightarrow> 'v \<Rightarrow> 'v option \<times> 'h \<times> 'r"

text \<open>
  Where a thread is inside \<open>modify\<close>: before the load; with one half of the double word
  read (see below); before the call of the modifier, with the cached double word; before
  the compare-and-swap or store-exclusive, with the cached double word, the desired data
  and the captured variables; finished with the value of \<open>success\<close>.
\<close>

datatype ('v, 'r) mpc =
    M_load
  | M_half0 'v
  | M_half1 'v
  | M_call 'v 'v
  | M_cas 'v 'v 'v 'r
  | M_done bool 'r

text \<open>
  What the environment decides about a step. \<open>CMakeLists.txt\<close> notes that the SSE load of
  the double word may not be atomic without AVX; \<open>Low_first\<close> and \<open>High_first\<close> tear the
  load into its two halves, in either order. \<open>Spurious\<close> makes a store-exclusive fail.
\<close>

datatype env = Whole | Low_first | High_first | Spurious

fun modify_dwcas ::
    "('w::len word, 'h, 'r) modifier \<Rightarrow> tid \<Rightarrow> env \<Rightarrow> ('w word, 'r) mpc \<Rightarrow>
     ('w word, 'h, 'z) aba_scheme \<Rightarrow> ('w word, 'r) mpc \<times> ('w word, 'h, 'z) aba_scheme" where
  "modify_dwcas f t e M_load s =
     (case e of
        Low_first \<Rightarrow> (M_half0 (word0 s), s)
      | High_first \<Rightarrow> (M_half1 (word1 s), s\<lparr>snap := (snap s)(t := version s)\<rparr>)
      | _ \<Rightarrow> (M_call (word0 s) (word1 s), s\<lparr>snap := (snap s)(t := version s)\<rparr>))"
| "modify_dwcas f t e (M_half0 d) s =
     (M_call d (word1 s), s\<lparr>snap := (snap s)(t := version s)\<rparr>)"
| "modify_dwcas f t e (M_half1 k) s = (M_call (word0 s) k, s)"
| "modify_dwcas f t e (M_call d k) s =
     (case f (heap s) d of
        (None, h, r) \<Rightarrow> (M_done False r, s\<lparr>heap := h\<rparr>)
      | (Some v, h, r) \<Rightarrow> (M_cas d k v r, s\<lparr>heap := h\<rparr>))"
| "modify_dwcas f t e (M_cas d k v r) s =
     (if word0 s = d \<and> word1 s = k
      then (M_done True r, s\<lparr>word0 := v, word1 := k + 1, version := Suc (version s)\<rparr>)
      else (M_call (word0 s) (word1 s), s\<lparr>snap := (snap s)(t := version s)\<rparr>))"
| "modify_dwcas f t e (M_done b r) s = (M_done b r, s)"

fun modify_llsc ::
    "('w::len word, 'h, 'r) modifier \<Rightarrow> tid \<Rightarrow> env \<Rightarrow> ('w word, 'r) mpc \<Rightarrow>
     ('w word, 'h, 'z) aba_scheme \<Rightarrow> ('w word, 'r) mpc \<times> ('w word, 'h, 'z) aba_scheme" where
  "modify_llsc f t e (M_call d k) s =
     (case f (heap s) d of
        (None, h, r) \<Rightarrow> (M_done False r, s\<lparr>heap := h, excl := (excl s)(t := False)\<rparr>)
      | (Some v, h, r) \<Rightarrow> (M_cas d k v r, s\<lparr>heap := h\<rparr>))"
| "modify_llsc f t e (M_cas d k v r) s =
     (if excl s t \<and> e \<noteq> Spurious
      then (M_done True r, s\<lparr>word0 := v, excl := (\<lambda>_. False), version := Suc (version s)\<rparr>)
      else (M_load, s\<lparr>excl := (excl s)(t := False)\<rparr>))"
| "modify_llsc f t e (M_done b r) s = (M_done b r, s)"
| "modify_llsc f t e _ s =
     (M_call (word0 s) 0,
      s\<lparr>excl := (excl s)(t := True), snap := (snap s)(t := version s)\<rparr>)"

definition modify_step ::
    "PlatformABASolution \<Rightarrow> ('w::len word, 'h, 'r) modifier \<Rightarrow> tid \<Rightarrow> env \<Rightarrow>
     ('w word, 'r) mpc \<Rightarrow> ('w word, 'h, 'z) aba_scheme \<Rightarrow>
     ('w word, 'r) mpc \<times> ('w word, 'h, 'z) aba_scheme" where
  "modify_step sol f t e pc s =
     (if sol = DWCAS then modify_dwcas f t e pc s else modify_llsc f t e pc s)"

text \<open>A thread that runs \<open>modify\<close> with no interruption, at most \<open>n\<close> steps: no step of another thread
  in between, no torn load, and no spurious failure of the store-exclusive, which with
  LL/SC can make the loop repeat any number of times.\<close>

fun modify_run ::
    "nat \<Rightarrow> PlatformABASolution \<Rightarrow> ('w::len word, 'h, 'r) modifier \<Rightarrow> tid \<Rightarrow>
     ('w word, 'r) mpc \<Rightarrow> ('w word, 'h, 'z) aba_scheme \<Rightarrow>
     (bool \<times> 'r \<times> ('w word, 'h, 'z) aba_scheme) option" where
  "modify_run n sol f t (M_done b r) s = Some (b, r, s)"
| "modify_run 0 sol f t pc s = None"
| "modify_run (Suc n) sol f t pc s =
     (case modify_step sol f t Whole pc s of (pc', s') \<Rightarrow> modify_run n sol f t pc' s')"

section \<open>Lemmas on single steps\<close>

fun cached_counter :: "('v, 'r) mpc \<Rightarrow> 'v option" where
  "cached_counter (M_half1 k) = Some k"
| "cached_counter (M_call d k) = Some k"
| "cached_counter (M_cas d k v r) = Some k"
| "cached_counter _ = None"

fun cached_data :: "('v, 'r) mpc \<Rightarrow> 'v option" where
  "cached_data (M_call d k) = Some d"
| "cached_data (M_cas d k v r) = Some d"
| "cached_data _ = None"

text \<open>The data half a step reads from the shared double word, if it reads it.\<close>

fun observed :: "('v, 'r) mpc \<Rightarrow> ('v, 'r) mpc \<Rightarrow> 'v option" where
  "observed (M_half0 d) _ = None"
| "observed pc (M_half0 d) = Some d"
| "observed pc (M_call d k) = Some d"
| "observed pc _ = None"

text \<open>The counter follows the version; a cached counter is that of the snapshot; an armed
  monitor means that nothing was written since the snapshot, and an LL/SC load is never torn.\<close>

definition counter_ok ::
    "PlatformABASolution \<Rightarrow> ('w::len word, 'h, 'z) aba_scheme \<Rightarrow> bool" where
  "counter_ok sol s \<longleftrightarrow> (sol = DWCAS \<longrightarrow> word1 s = of_nat (Suc (version s)))"

definition thread_ok ::
    "PlatformABASolution \<Rightarrow> tid \<Rightarrow> ('w::len word, 'r) mpc \<Rightarrow> ('w word, 'h, 'z) aba_scheme \<Rightarrow>
     bool" where
  "thread_ok sol t pc s \<longleftrightarrow>
     snap s t \<le> version s
     \<and> (sol = DWCAS \<longrightarrow>
          (\<forall>k. cached_counter pc = Some k \<longrightarrow> k = of_nat (Suc (snap s t))))
     \<and> (sol = LLSC \<longrightarrow>
          (\<forall>d. pc \<noteq> M_half0 d \<and> pc \<noteq> M_half1 d)
          \<and> (excl s t \<longrightarrow>
               (\<forall>d. cached_data pc = Some d \<longrightarrow> snap s t = version s \<and> d = word0 s)))"

text \<open>Every step is one of five kinds.\<close>

lemma modify_step_elim:
  assumes "modify_step sol f t e pc s = (pc', s')"
  obtains
    (read) "word0 s' = word0 s" "heap s' = heap s" "version s' = version s"
      "pc' = M_load \<or> (\<exists>d. pc' = M_half0 d \<and> d = word0 s) \<or> (\<exists>k. pc' = M_half1 k)
        \<or> (\<exists>d k. pc' = M_call d k \<and> (d = word0 s \<or> pc = M_half0 d))"
      "\<And>d k. pc \<noteq> M_call d k" "\<And>b r. pc \<noteq> M_done b r"
  | (call_fails) d k h r where "pc = M_call d k" "f (heap s) d = (None, h, r)"
      "pc' = M_done False r" "word0 s' = word0 s" "heap s' = h" "version s' = version s"
  | (call_succeeds) d k v h r where "pc = M_call d k" "f (heap s) d = (Some v, h, r)"
      "pc' = M_cas d k v r" "word0 s' = word0 s" "heap s' = h" "version s' = version s"
  | (commit) d k v r where "pc = M_cas d k v r" "pc' = M_done True r" "word0 s' = v"
      "heap s' = heap s" "version s' = Suc (version s)"
  | (finished) b r where "pc = M_done b r" "pc' = pc" "s' = s"
proof (cases pc)
  case (M_call d k)
  show ?thesis
  proof (cases "f (heap s) d")
    case (fields vo h r)
    then show ?thesis
      using assms M_call call_fails [of d k h r] call_succeeds [of d k _ h r]
      by (cases vo) (auto simp: modify_step_def split: if_splits)
  qed
next
  case (M_cas d k v r)
  then show ?thesis
    using assms commit [of d k v r] read
    by (fastforce simp: modify_step_def split: if_splits)
next
  case (M_done b r)
  then show ?thesis
    using assms finished [of b r] by (auto simp: modify_step_def split: if_splits)
qed (use assms read in \<open>(fastforce simp: modify_step_def split: if_splits env.splits)+\<close>)

text \<open>The half of the snapshot a step reads is the current one.\<close>

lemma observed_is_current:
  "modify_step sol f t e pc s = (pc', s') \<Longrightarrow> observed pc pc' = Some d \<Longrightarrow>
   d = word0 s \<and> word0 s' = word0 s"
  by (erule modify_step_elim; cases pc; auto)

text \<open>A step keeps the facts about its own thread, and about every other one.\<close>

lemma modify_step_own:
  assumes "modify_step sol f t e pc s = (pc', s')"
    and "counter_ok sol s" and "thread_ok sol t pc s"
  shows "counter_ok sol s' \<and> thread_ok sol t pc' s'"
proof (cases sol)
  case DWCAS
  with assms show ?thesis
    by (cases pc)
      (auto simp: modify_step_def counter_ok_def thread_ok_def add.commute
        split: if_splits env.splits option.splits prod.splits)
next
  case LLSC
  with assms show ?thesis
    by (cases pc)
      (auto simp: modify_step_def counter_ok_def thread_ok_def
        split: if_splits env.splits option.splits prod.splits)
qed

lemma modify_step_other:
  assumes "modify_step sol f t e pc s = (pc', s')" and "u \<noteq> t" and "thread_ok sol u upc s"
  shows "thread_ok sol u upc s'"
proof (cases sol)
  case DWCAS
  with assms show ?thesis
    by (cases pc)
      (auto simp: modify_step_def thread_ok_def
        split: if_splits env.splits option.splits prod.splits)
next
  case LLSC
  with assms show ?thesis
    by (cases pc)
      (auto simp: modify_step_def thread_ok_def
        split: if_splits env.splits option.splits prod.splits)
qed

lemma modify_step_snap:
  assumes "modify_step sol f t e pc s = (pc', s')"
  shows "version s \<le> version s'" and "u \<noteq> t \<Longrightarrow> snap s' u = snap s u"
    and "snap s' t = snap s t \<or> snap s' t = version s"
  using assms
  by (cases sol; cases pc;
      auto simp: modify_step_def split: if_splits env.splits option.splits prod.splits)+

text \<open>
  A successful attempt replaces the data it was computed from; and unless the counter has
  made a whole turn since the snapshot, nothing at all was written in between.
\<close>

lemma commit_data:
  assumes "modify_step sol f t e (M_cas d k v r) s = (M_done True r', s')"
    and "thread_ok sol t (M_cas d k v r) s"
  shows "word0 s = d"
  using assms by (cases sol) (auto simp: modify_step_def thread_ok_def split: if_splits)

lemma commit_fresh:
  assumes "modify_step sol f t e (M_cas d k v r) s = (M_done True r', s')"
    and "counter_ok sol s" and "thread_ok sol t (M_cas d k v r) s"
    and "version s - snap s t < 2 ^ LENGTH('w::len)"
  shows "snap s t = version (s :: ('w word, 'h, 'z) aba_scheme)"
proof (cases sol)
  case LLSC
  with assms show ?thesis by (auto simp: modify_step_def thread_ok_def split: if_splits)
next
  case DWCAS
  with assms(1-3) have "(of_nat (Suc (version s)) :: 'w word) = of_nat (Suc (snap s t))"
    and le: "snap s t \<le> version s"
    by (auto simp: modify_step_def thread_ok_def counter_ok_def split: if_splits)
  then have "(of_nat (version s) :: 'w word) = of_nat (snap s t)" by simp
  from of_nat_word_eq_within_turn [OF le assms(4) this] show ?thesis by simp
qed

section \<open>Uninterrupted execution\<close>

text \<open>The result of one call of \<open>modify\<close> with no other thread in between.\<close>

definition modified ::
    "PlatformABASolution \<Rightarrow> ('w::len word, 'h, 'r) modifier \<Rightarrow>
     ('w word, 'h, 'z) aba_scheme \<Rightarrow> bool \<times> 'r \<times> ('w word, 'h, 'z) aba_scheme \<Rightarrow> bool" where
  "modified sol f s res \<longleftrightarrow>
     (case (f (heap s) (word0 s), res) of ((vo, h, r), (ok, r', s')) \<Rightarrow>
        ok = (vo \<noteq> None) \<and> r' = r \<and> heap s' = h
        \<and> word0 s' = (case vo of None \<Rightarrow> word0 s | Some v \<Rightarrow> v)
        \<and> word1 s' = (if ok \<and> sol = DWCAS then word1 s + 1 else word1 s)
        \<and> version s' = (if ok then Suc (version s) else version s))"

lemma modify_run_alone:
  "\<exists>res. modify_run (n + 3) sol f t M_load s = Some res \<and> modified sol f s res"
proof (cases "f (heap s) (word0 s)")
  case (fields vo h r)
  then show ?thesis
    by (cases vo; cases sol)
      (simp_all add: modify_step_def modified_def numeral_3_eq_3 add.commute)
qed

text \<open>From any point inside \<open>modify\<close>, a thread that runs alone finishes.\<close>

definition halts ::
    "nat \<Rightarrow> PlatformABASolution \<Rightarrow> ('w::len word, 'h, 'r) modifier \<Rightarrow> tid \<Rightarrow>
     ('w word, 'r) mpc \<Rightarrow> ('w word, 'h, 'z) aba_scheme \<Rightarrow> bool" where
  "halts n sol f t pc s \<longleftrightarrow> modify_run n sol f t pc s \<noteq> None"

lemma halts_done [simp]: "halts n sol f t (M_done b r) s"
  by (simp add: halts_def)

lemma halts_step:
  "modify_step sol f t Whole pc s = (pc', s') \<Longrightarrow> halts n sol f t pc' s' \<Longrightarrow>
   halts (Suc n) sol f t pc s"
  by (cases pc) (simp_all add: halts_def)

lemma modify_run_mono:
  "modify_run n sol f t pc s = Some res \<Longrightarrow> n \<le> m \<Longrightarrow> modify_run m sol f t pc s = Some res"
proof (induction n arbitrary: m pc s)
  case 0
  then show ?case by (cases pc) simp_all
next
  case (Suc n)
  then obtain m' where m: "m = Suc m'" "n \<le> m'" by (cases m) auto
  with Suc show ?case by (cases pc) (simp_all split: prod.splits)
qed

lemma halts_mono: "halts n sol f t pc s \<Longrightarrow> n \<le> m \<Longrightarrow> halts m sol f t pc s"
  by (auto simp: halts_def dest: modify_run_mono)

lemma halts_load: "halts 3 sol f t M_load s"
  using modify_run_alone [of 0 sol f t s] by (auto simp: halts_def)

lemma halts_cas: "halts 4 sol f t (M_cas d k v r) s"
proof (cases sol)
  case LLSC
  have "modify_step LLSC f t Whole (M_cas d k v r) s = (M_load, s\<lparr>excl := (excl s)(t := False)\<rparr>)
     \<or> (\<exists>s'. modify_step LLSC f t Whole (M_cas d k v r) s = (M_done True r, s'))"
    by (simp add: modify_step_def)
  moreover have "halts 3 LLSC f t (M_done True r) s'" for s'
    by (simp add: halts_def)
  ultimately have "halts (Suc 3) LLSC f t (M_cas d k v r) s"
    using halts_step halts_load by metis
  with LLSC show ?thesis by (simp add: numeral_eq_Suc)
next
  case DWCAS
  then show ?thesis
    by (cases "f (heap s) (word0 s)"; cases "fst (f (heap s) (word0 s))")
      (auto simp: halts_def modify_step_def eval_nat_numeral)
qed

lemma halts_call: "halts 5 sol f t (M_call d k) s"
proof -
  obtain pc' s' where step: "modify_step sol f t Whole (M_call d k) s = (pc', s')"
    by fastforce
  then have "(\<exists>b r. pc' = M_done b r) \<or> (\<exists>v r. pc' = M_cas d k v r)"
    by (auto elim!: modify_step_elim)
  then have "halts 4 sol f t pc' s'"
    using halts_cas [of sol f t d k _ _ s'] by (auto simp: halts_def)
  from halts_step [OF step this] show ?thesis by simp
qed

lemma halts_always: "halts (n + 6) sol f t pc s"
proof -
  have half: "halts 6 sol f t (M_half0 d) s" "halts 6 sol f t (M_half1 d) s" for d
    using halts_step [OF _ halts_call, of sol f t "M_half0 d" s]
      halts_step [OF _ halts_call, of sol f t "M_half1 d" s]
    by (cases sol; simp add: modify_step_def)+
  have "halts 6 sol f t pc s"
    by (cases pc)
      (auto intro: half halts_mono [OF halts_load] halts_mono [OF halts_cas]
        halts_mono [OF halts_call])
  then show ?thesis by (rule halts_mono) simp
qed

section \<open>Properties\<close>

text \<open>The static assertions accept, on every supported platform, exactly the pointer and
  integral types of 4 bytes and, with 64-bit words, of 8 bytes; for these the content has no
  padding and its alignment is its size, as the double-word instructions need.\<close>

lemma aba_sizes:
  assumes "PLATFORM_WIDTH p \<noteq> None"
  shows "(aba_assertions p k n \<longleftrightarrow>
      (k = Pointer \<or> k = Integral) \<and> (n = 4 \<or> n = 8 \<and> PLATFORM_WIDTH p = Some WIDTH_64))
    \<and> (aba_assertions p k n \<longrightarrow>
      sizeof_content p n = ABA_ARRAY_SIZE p * n \<and> ABA_ATOMIC_ALIGNMENT p n = sizeof_content p n)"
  using assms
  by (auto simp: aba_size_defs PLATFORM_WIDTH_def PLATFORM_ABA_SOLUTION_def split: if_splits)

text \<open>A call of \<open>modify\<close> with no other thread in between returns after at most three
  steps. It applies the modifier function once to the current data; if that returns true the
  desired data is stored and the DWCAS counter incremented, otherwise nothing is stored; the
  result is the modifier's.\<close>

lemma modify_alone:
  "\<exists>ok r s'. modify_run (n + 3) sol f t M_load s = Some (ok, r, s')
     \<and> ok = (fst (f (heap s) (word0 s)) \<noteq> None)
     \<and> r = snd (snd (f (heap s) (word0 s)))
     \<and> heap s' = fst (snd (f (heap s) (word0 s)))
     \<and> aba_get s' = (case fst (f (heap s) (word0 s)) of None \<Rightarrow> aba_get s | Some v \<Rightarrow> v)
     \<and> aba_get_counter sol s' = aba_get_counter sol s + (if ok \<and> sol = DWCAS then 1 else 0)"
proof (cases "f (heap s) (word0 s)")
  case (fields vo h r)
  from modify_run_alone [of n sol f t s] obtain ok r' s'
    where "modify_run (n + 3) sol f t M_load s = Some (ok, r', s')" "modified sol f s (ok, r', s')"
    by auto
  with fields show ?thesis
    by (auto simp: modified_def aba_get_def aba_get_counter_def)
qed

text \<open>C27. Obstruction freedom: from any point inside \<open>modify\<close>, with any stale cache, and on
  both kinds of platform, a thread that runs without interruption returns after at most six
  steps. A spurious failure of the store-exclusive counts as an interruption, as does a step of
  another thread.\<close>

theorem modify_terminates: "modify_run (n + 6) sol f t pc s \<noteq> None"
  using halts_always [of n sol f t pc s] by (simp add: halts_def)

end
