(* ===== verification/Aba_System.thy ===== *)
theory Aba_System
  imports Aba_Wrapper
begin

text \<open>
  Any number of threads that call \<open>modify\<close> on one \<open>ABA_Wrapper\<close>. A client names its
  operations by a type \<open>'o\<close> and gives each its modifier function; this theory interleaves
  the steps of \<open>modify\<close> and proves, once for all clients, that a modification which
  succeeds was computed from the state it replaces.
\<close>

section \<open>Threads\<close>

text \<open>\<open>thr t\<close> is the operation thread \<open>t\<close> executes and its position in \<open>modify\<close>.\<close>

record ('v, 'h, 'o, 'r) asys = "('v, 'h) aba" +
  thr :: "tid \<Rightarrow> ('o \<times> ('v, 'r) mpc) option"

definition begin_op ::
    "tid \<Rightarrow> 'o \<Rightarrow> ('v, 'h, 'o, 'r, 'z) asys_scheme \<Rightarrow> ('v, 'h, 'o, 'r, 'z) asys_scheme" where
  "begin_op t p s = s\<lparr>thr := (thr s)(t := Some (p, M_load))\<rparr>"

definition step_op ::
    "PlatformABASolution \<Rightarrow> ('o \<Rightarrow> ('w::len word, 'h, 'r) modifier) \<Rightarrow> tid \<Rightarrow> env \<Rightarrow> 'o \<Rightarrow>
     ('w word, 'r) mpc \<Rightarrow> ('w word, 'h, 'o, 'r, 'z) asys_scheme \<Rightarrow>
     ('w word, 'r) mpc \<times> ('w word, 'h, 'o, 'r, 'z) asys_scheme" where
  "step_op sol ops t e p pc s =
     (case modify_step sol (ops p) t e pc s of
        (pc', s') \<Rightarrow> (pc', s'\<lparr>thr := (thr s')(t := Some (p, pc'))\<rparr>))"

definition end_op ::
    "tid \<Rightarrow> ('v, 'h, 'o, 'r, 'z) asys_scheme \<Rightarrow> ('v, 'h, 'o, 'r, 'z) asys_scheme" where
  "end_op t s = s\<lparr>thr := (thr s)(t := None)\<rparr>"

text \<open>A context switch may open a thread's exclusive monitor at any time.\<close>

definition lose_monitor ::
    "tid \<Rightarrow> ('v, 'h, 'z) aba_scheme \<Rightarrow> ('v, 'h, 'z) aba_scheme" where
  "lose_monitor t s = s\<lparr>excl := (excl s)(t := False)\<rparr>"

lemmas [step_defs] = begin_op_def step_op_def end_op_def lose_monitor_def

section \<open>The invariant of the wrapper\<close>

definition aba_inv ::
    "PlatformABASolution \<Rightarrow> ('w::len word, 'h, 'o, 'r, 'z) asys_scheme \<Rightarrow> bool" where
  "aba_inv sol s \<longleftrightarrow>
     counter_ok sol s \<and> (\<forall>t. snap s t \<le> version s)
     \<and> (\<forall>t p pc. thr s t = Some (p, pc) \<longrightarrow> thread_ok sol t pc s)"

text \<open>
  The counter has not made a whole turn during any attempt in progress. The counter has
  the width of the data, 64 or 32 bits.
\<close>

definition fresh :: "('w::len word, 'h, 'o, 'r, 'z) asys_scheme \<Rightarrow> bool" where
  "fresh s \<longleftrightarrow>
     (\<forall>t p pc. thr s t = Some (p, pc) \<longrightarrow> cached_counter pc \<noteq> None \<longrightarrow>
        version s - snap s t < 2 ^ LENGTH('w))"

lemma aba_invD:
  "aba_inv sol s \<Longrightarrow> counter_ok sol s"
  "aba_inv sol s \<Longrightarrow> snap s t \<le> version s"
  "aba_inv sol s \<Longrightarrow> thr s t = Some (p, pc) \<Longrightarrow> thread_ok sol t pc s"
  by (simp_all add: aba_inv_def)

lemma fresh_small_version: "version s < 2 ^ LENGTH('w) \<Longrightarrow>
    fresh (s :: ('w::len word, 'h, 'o, 'r, 'z) asys_scheme)"
  by (auto simp: fresh_def intro: le_less_trans [OF diff_le_self])

text \<open>The fields of the client's own record play no part.\<close>

lemma counter_ok_cong:
  "word1 s' = word1 s \<Longrightarrow> version s' = version s \<Longrightarrow> counter_ok sol s' = counter_ok sol s"
  by (simp add: counter_ok_def)

lemma thread_ok_cong:
  "word0 s' = word0 s \<Longrightarrow> version s' = version s \<Longrightarrow> snap s' t = snap s t \<Longrightarrow>
   (excl s' t \<Longrightarrow> excl s t) \<Longrightarrow> thread_ok sol t pc s \<Longrightarrow> thread_ok sol t pc s'"
  by (auto simp: thread_ok_def)

text \<open>Actions of the client that leave the double word alone keep the invariant.\<close>

lemma aba_inv_frame:
  assumes "aba_inv sol s"
    and "word0 s' = word0 s" "word1 s' = word1 s" "version s' = version s" "snap s' = snap s"
    and "\<And>t. excl s' t \<Longrightarrow> excl s t"
    and "\<And>t p pc. thr s' t = Some (p, pc) \<Longrightarrow> thr s t = Some (p, pc) \<or> pc = M_load"
  shows "aba_inv sol s'"
  using assms(1-6) assms(7)
  by (fastforce simp: aba_inv_def counter_ok_def thread_ok_def)

lemma step_op_parts:
  assumes "step_op sol ops t e p pc s = (pc', s')"
  obtains s1 where "modify_step sol (ops p) t e pc s = (pc', s1)"
    and "s' = s1\<lparr>thr := (thr s1)(t := Some (p, pc'))\<rparr>"
  using assms by (auto simp: step_op_def split: prod.splits)

lemma modify_step_thr: "modify_step sol f t e pc s = (pc', s') \<Longrightarrow> thr s' = thr s"
  by (cases sol; cases pc;
      auto simp: modify_step_def split: if_splits env.splits option.splits prod.splits)

lemma aba_inv_step:
  assumes inv: "aba_inv sol s" and pc: "thr s t = Some (p, pc)"
    and step: "step_op sol ops t e p pc s = (pc', s')"
  shows "aba_inv sol s'"
proof -
  from step obtain s1 where s1: "modify_step sol (ops p) t e pc s = (pc', s1)"
    and s': "s' = s1\<lparr>thr := (thr s1)(t := Some (p, pc'))\<rparr>"
    by (rule step_op_parts)
  have own: "counter_ok sol s1" "thread_ok sol t pc' s1"
    using modify_step_own [OF s1 aba_invD(1,3) [OF inv]] pc inv by auto
  have other: "thread_ok sol u upc s1" if "u \<noteq> t" "thr s u = Some (q, upc)" for u q upc
    by (rule modify_step_other [OF s1 that(1) aba_invD(3) [OF inv that(2)]])
  have snap: "snap s1 u \<le> version s1" for u
    using modify_step_snap(1) [OF s1] modify_step_snap(2) [OF s1, of u]
      modify_step_snap(3) [OF s1] aba_invD(2) [OF inv, of u]
    by (cases "u = t") auto
  show ?thesis
    using own other snap modify_step_thr [OF s1]
    by (auto simp: aba_inv_def s' counter_ok_def thread_ok_def split: if_splits)
qed

section \<open>What a successful modification replaces\<close>

lemma commit_replaces_snapshot:
  assumes inv: "aba_inv sol s" and fr: "sol = DWCAS \<Longrightarrow> fresh s"
    and pc: "thr s t = Some (p, M_cas d k v r)"
    and step: "step_op sol ops t e p (M_cas d k v r) s = (M_done True r', s')"
  shows "word0 s = d \<and> snap s t = version s"
proof -
  from step obtain s1
    where s1: "modify_step sol (ops p) t e (M_cas d k v r) s = (M_done True r', s1)"
    by (rule step_op_parts)
  have "version s - snap s t < 2 ^ LENGTH('a)" if "sol = DWCAS"
    using fr [OF that] pc by (auto simp: fresh_def)
  moreover have "snap s t = version s" if "sol = LLSC"
    using s1 that aba_invD(3) [OF inv pc]
    by (auto simp: modify_step_def thread_ok_def split: if_splits)
  ultimately show ?thesis
    using commit_data [OF s1 aba_invD(3) [OF inv pc]]
      commit_fresh [OF s1 aba_invD(1) [OF inv] aba_invD(3) [OF inv pc]]
    by (cases sol) auto
qed

section \<open>Executions\<close>

text \<open>
  All executions of any client: threads call \<open>modify\<close>, take steps inside it with every
  choice of the environment, return, lose their exclusive monitors, and the client writes to
  the memory its modifier functions access, in any order.
\<close>

datatype ('o, 'h) op_action =
    Op_begin tid 'o
  | Op_step tid env
  | Op_end tid
  | Op_preempt tid
  | Op_client 'h

definition asys_init ::
    "PlatformABASolution \<Rightarrow> 'w::len word \<Rightarrow> 'h \<Rightarrow> ('w word, 'h, 'o, 'r) asys" where
  "asys_init sol init h =
     (let s = aba_init sol init h in
      \<lparr>word0 = word0 s, word1 = word1 s, excl = excl s, heap = heap s, version = version s,
       snap = snap s, thr = (\<lambda>_. None)\<rparr>)"

fun op_act ::
    "PlatformABASolution \<Rightarrow> ('o \<Rightarrow> ('w::len word, 'h, 'r) modifier) \<Rightarrow> ('o, 'h) op_action \<Rightarrow>
     ('w word, 'h, 'o, 'r) asys \<Rightarrow> ('w word, 'h, 'o, 'r) asys option" where
  "op_act sol ops (Op_begin t p) s = (if thr s t \<noteq> None then None else Some (begin_op t p s))"
| "op_act sol ops (Op_step t e) s =
     (case thr s t of
        None \<Rightarrow> None
      | Some (p, pc) \<Rightarrow> Some (snd (step_op sol ops t e p pc s)))"
| "op_act sol ops (Op_end t) s =
     (case thr s t of Some (p, M_done ok r) \<Rightarrow> Some (end_op t s) | _ \<Rightarrow> None)"
| "op_act sol ops (Op_preempt t) s = Some (lose_monitor t s)"
| "op_act sol ops (Op_client h) s = Some (s\<lparr>heap := h\<rparr>)"

fun op_run ::
    "PlatformABASolution \<Rightarrow> ('o \<Rightarrow> ('w::len word, 'h, 'r) modifier) \<Rightarrow> ('o, 'h) op_action list \<Rightarrow>
     ('w word, 'h, 'o, 'r) asys \<Rightarrow> ('w word, 'h, 'o, 'r) asys option" where
  "op_run sol ops [] s = Some s"
| "op_run sol ops (a # as) s =
     (case op_act sol ops a s of None \<Rightarrow> None | Some s' \<Rightarrow> op_run sol ops as s')"

inductive areach ::
    "PlatformABASolution \<Rightarrow> ('o \<Rightarrow> ('w::len word, 'h, 'r) modifier) \<Rightarrow> 'w word \<Rightarrow> 'h \<Rightarrow>
     ('w word, 'h, 'o, 'r) asys \<Rightarrow> bool"
  for sol ops init h where
  init: "areach sol ops init h (asys_init sol init h)"
| step: "areach sol ops init h s \<Longrightarrow> op_act sol ops a s = Some s' \<Longrightarrow> areach sol ops init h s'"

lemma areach_run:
  "op_run sol ops as s = Some s' \<Longrightarrow> areach sol ops init h s \<Longrightarrow> areach sol ops init h s'"
  by (induction as arbitrary: s) (auto split: option.splits intro: areach.step)

text \<open>The desired data a thread is about to store is what its modifier returned for the data
  it has cached.\<close>

definition computed ::
    "('o \<Rightarrow> ('w::len word, 'h, 'r) modifier) \<Rightarrow> ('w word, 'h, 'o, 'r, 'z) asys_scheme \<Rightarrow> bool" where
  "computed ops s \<longleftrightarrow>
     (\<forall>t p d k v r. thr s t = Some (p, M_cas d k v r) \<longrightarrow> (\<exists>h h'. ops p h d = (Some v, h', r)))"

lemma computed_step:
  assumes "computed ops s" and "step_op sol ops t e p pc s = (pc', s')"
  shows "computed ops s'"
proof -
  from assms(2) obtain s1 where s1: "modify_step sol (ops p) t e pc s = (pc', s1)"
    and s': "s' = s1\<lparr>thr := (thr s1)(t := Some (p, pc'))\<rparr>"
    by (rule step_op_parts)
  have "\<exists>h h'. ops p h d = (Some v, h', r)" if "pc' = M_cas d k v r" for d k v r
    using s1 that by (cases rule: modify_step_elim) auto
  then show ?thesis
    using assms(1) modify_step_thr [OF s1] by (auto simp: computed_def s')
qed

lemma areach_inv:
  "areach sol ops init h s \<Longrightarrow> aba_inv sol s \<and> computed ops s"
proof (induction rule: areach.induct)
  case init
  show ?case
    by (auto simp: asys_init_def aba_init_def aba_inv_def counter_ok_def computed_def)
next
  case (step s a s')
  note inv = conjunct1 [OF step.IH] and comp = conjunct2 [OF step.IH]
  show ?case
  proof (cases a)
    case (Op_step t e)
    with step.hyps obtain p pc where pc: "thr s t = Some (p, pc)"
      and s': "s' = snd (step_op sol ops t e p pc s)"
      by (auto split: option.splits)
    then have "step_op sol ops t e p pc s = (fst (step_op sol ops t e p pc s), s')" by simp
    from aba_inv_step [OF inv pc this] computed_step [OF comp this] show ?thesis ..
  next
    case (Op_begin t p)
    with step.hyps have s': "s' = begin_op t p s" by (auto split: if_splits)
    have "aba_inv sol s'"
      by (rule aba_inv_frame [OF inv]) (auto simp: s' begin_op_def split: if_splits)
    with comp show ?thesis by (auto simp: s' begin_op_def computed_def split: if_splits)
  next
    case (Op_end t)
    with step.hyps have s': "s' = end_op t s" by (auto split: option.splits mpc.splits)
    have "aba_inv sol s'"
      by (rule aba_inv_frame [OF inv]) (auto simp: s' end_op_def split: if_splits)
    with comp show ?thesis by (auto simp: s' end_op_def computed_def split: if_splits)
  next
    case (Op_preempt t)
    with step.hyps have s': "s' = lose_monitor t s" by simp
    have "aba_inv sol s'"
      by (rule aba_inv_frame [OF inv]) (auto simp: s' lose_monitor_def split: if_splits)
    with comp show ?thesis by (auto simp: s' lose_monitor_def computed_def)
  next
    case (Op_client h')
    with step.hyps have s': "s' = s\<lparr>heap := h'\<rparr>" by simp
    have "aba_inv sol s'"
      by (rule aba_inv_frame [OF inv]) (auto simp: s')
    with comp show ?thesis by (auto simp: s' computed_def)
  qed
qed

section \<open>Progress\<close>

text \<open>What one thread does in an execution, and what delays it on the LL/SC platforms apart from
  the modifications of the others: a lost monitor and a spurious failure.\<close>

fun own_step :: "tid \<Rightarrow> ('o, 'h) op_action \<Rightarrow> bool" where
  "own_step t (Op_step u e) = (u = t)"
| "own_step t _ = False"

fun interruption :: "PlatformABASolution \<Rightarrow> tid \<Rightarrow> ('o, 'h) op_action \<Rightarrow> bool" where
  "interruption LLSC t (Op_step u Spurious) = (u = t)"
| "interruption LLSC t (Op_preempt u) = (u = t)"
| "interruption sol t _ = False"

definition own_steps :: "tid \<Rightarrow> ('o, 'h) op_action list \<Rightarrow> nat" where
  "own_steps t as = length (filter (own_step t) as)"

definition interruptions :: "PlatformABASolution \<Rightarrow> tid \<Rightarrow> ('o, 'h) op_action list \<Rightarrow> nat" where
  "interruptions sol t as = length (filter (interruption sol t) as)"

definition retry_cost :: "PlatformABASolution \<Rightarrow> nat" where
  "retry_cost sol = (if sol = DWCAS then 2 else 3)"

text \<open>The steps a thread has left in its call if nothing comes in between.\<close>

definition current :: "PlatformABASolution \<Rightarrow> tid \<Rightarrow> 'v \<Rightarrow> 'v \<Rightarrow> ('v, 'h, 'z) aba_scheme \<Rightarrow> bool" where
  "current sol t d k s \<longleftrightarrow> (if sol = DWCAS then d = word0 s \<and> k = word1 s else excl s t)"

fun steps_left ::
    "PlatformABASolution \<Rightarrow> tid \<Rightarrow> ('v, 'r) mpc \<Rightarrow> ('v, 'h, 'z) aba_scheme \<Rightarrow> nat" where
  "steps_left sol t (M_done b r) s = 0"
| "steps_left sol t (M_cas d k v r) s = (if current sol t d k s then 1 else 1 + retry_cost sol)"
| "steps_left sol t (M_call d k) s = (if current sol t d k s then 2 else 2 + retry_cost sol)"
| "steps_left sol t M_load s = (if sol = DWCAS then 6 else 3)"
| "steps_left sol t _ s = (if sol = DWCAS then 5 else 3)"

lemma steps_left_thr [simp]: "steps_left sol t pc (s\<lparr>thr := f\<rparr>) = steps_left sol t pc s"
  by (cases pc) (simp_all add: current_def)

lemma modify_step_done [simp]: "modify_step sol f t e (M_done b r) s = (M_done b r, s)"
  by (simp add: modify_step_def)

lemma steps_left_max: "steps_left sol t pc s \<le> 6"
  by (cases pc) (auto simp: retry_cost_def)

lemma steps_left_pos: "(\<And>b r. pc \<noteq> M_done b r) \<Longrightarrow> 1 \<le> steps_left sol t pc s"
  by (cases pc) auto

lemma steps_left_own:
  assumes "modify_step sol f t e pc s = (pc', s')" and "\<And>b r. pc \<noteq> M_done b r"
  shows "1 + steps_left sol t pc' s' + retry_cost sol * version s
    \<le> steps_left sol t pc s
        + retry_cost sol * (version s' + (if interruption sol t (Op_step t e) then 1 else 0))"
proof (cases sol)
  case DWCAS
  with assms show ?thesis
    by (cases pc)
      (auto simp: modify_step_def retry_cost_def current_def
        split: if_splits env.splits option.splits prod.splits)
next
  case LLSC
  with assms show ?thesis
    by (cases pc; cases e)
      (auto simp: modify_step_def retry_cost_def current_def
        split: if_splits env.splits option.splits prod.splits)
qed

lemma steps_left_other:
  assumes "modify_step sol f u e upc s = (upc', s')" and "u \<noteq> t"
  shows "steps_left sol t pc s' + retry_cost sol * version s
    \<le> steps_left sol t pc s + retry_cost sol * version s'"
proof -
  have "version s' = Suc (version s)
    \<or> version s' = version s \<and> (\<forall>d k. current sol t d k s' = current sol t d k s)"
    using assms
    by (cases sol; cases upc;
        auto simp: modify_step_def current_def split: if_splits env.splits option.splits prod.splits)
  then show ?thesis by (cases pc) (auto simp: retry_cost_def)
qed

lemma op_act_left:
  assumes act: "op_act sol ops a s = Some s'" and pc: "thr s t = Some (p, pc)"
    and run: "\<And>b r. pc \<noteq> M_done b r"
  shows "\<exists>pc'. thr s' t = Some (p, pc')
    \<and> (if own_step t a then 1 else 0) + steps_left sol t pc' s' + retry_cost sol * version s
      \<le> steps_left sol t pc s
          + retry_cost sol * (version s' + (if interruption sol t a then 1 else 0))"
proof (cases a)
  case (Op_step u e)
  obtain q upc where upc: "thr s u = Some (q, upc)"
    using act Op_step by (auto split: option.splits)
  obtain upc' s1 where s1: "modify_step sol (ops q) u e upc s = (upc', s1)" by fastforce
  have s': "s' = s1\<lparr>thr := (thr s)(u := Some (q, upc'))\<rparr>"
    using act Op_step upc s1 modify_step_thr [OF s1] by (simp add: step_op_def)
  show ?thesis
  proof (cases "u = t")
    case True
    with steps_left_own [OF s1] upc pc run show ?thesis
      by (simp add: Op_step s')
  next
    case False
    have "interruption sol t (Op_step u e) = False"
      using False by (cases sol; cases e) simp_all
    with False steps_left_other [OF s1 False, of pc] pc show ?thesis
      by (simp add: Op_step s')
  qed
next
  case (Op_begin u q)
  with act pc have "u \<noteq> t" and s': "s' = begin_op u q s" by (auto split: if_splits)
  then show ?thesis
    using pc Op_begin by (cases pc; cases sol) (auto simp: begin_op_def current_def)
next
  case (Op_end u)
  with act have s': "s' = end_op u s" by (auto split: option.splits mpc.splits)
  have "u \<noteq> t"
  proof
    assume "u = t"
    with act Op_end pc obtain b r where "pc = M_done b r" by (cases pc) auto
    with run show False by blast
  qed
  with s' show ?thesis
    using pc Op_end by (cases pc; cases sol) (auto simp: end_op_def current_def)
next
  case (Op_preempt u)
  then show ?thesis
    using act pc
    by (cases pc; cases sol) (auto simp: lose_monitor_def current_def retry_cost_def)
next
  case (Op_client h)
  then show ?thesis
    using act pc by (cases pc; cases sol) (auto simp: current_def)
qed

lemma done_stays:
  "op_run sol ops as s = Some s' \<Longrightarrow> thr s t = Some (p, M_done b r) \<Longrightarrow> Op_end t \<notin> set as \<Longrightarrow>
   thr s' t = Some (p, M_done b r)"
proof (induction as arbitrary: s)
  case (Cons a as)
  then obtain s1 where s1: "op_act sol ops a s = Some s1" "op_run sol ops as s1 = Some s'"
    by (auto split: option.splits)
  have "thr s1 t = Some (p, M_done b r)"
  proof (cases a)
    case (Op_step u e)
    with s1(1) Cons.prems(2) show ?thesis
      by (cases "u = t")
        (auto simp: step_op_def modify_step_thr split: option.splits prod.splits)
  qed (use s1(1) Cons.prems(2,3) in
      \<open>auto simp: begin_op_def end_op_def lose_monitor_def split: if_splits option.splits mpc.splits\<close>)
  with Cons s1(2) show ?case by simp
qed simp

lemma op_run_left:
  assumes "op_run sol ops as s = Some s'" and "thr s t = Some (p, pc)" and "Op_end t \<notin> set as"
    and "thr s' t = Some (p', pc')" and "\<And>b r. pc' \<noteq> M_done b r"
  shows "own_steps t as + steps_left sol t pc' s' + retry_cost sol * version s
    \<le> steps_left sol t pc s + retry_cost sol * (version s' + interruptions sol t as)"
  using assms(1-3)
proof (induction as arbitrary: s pc)
  case Nil
  with assms(4) show ?case by (simp add: own_steps_def interruptions_def)
next
  case (Cons a as)
  then obtain s1 where s1: "op_act sol ops a s = Some s1" "op_run sol ops as s1 = Some s'"
    by (auto split: option.splits)
  have run: "pc \<noteq> M_done b r" for b r
    using done_stays [OF Cons.prems(1)] Cons.prems(2,3) assms(4,5) by fastforce
  from op_act_left [OF s1(1) Cons.prems(2) run] obtain pc1
    where pc1: "thr s1 t = Some (p, pc1)"
      and le: "(if own_step t a then 1 else 0) + steps_left sol t pc1 s1 + retry_cost sol * version s
        \<le> steps_left sol t pc s
            + retry_cost sol * (version s1 + (if interruption sol t a then 1 else 0))"
    by blast
  from Cons.IH [OF s1(2) pc1] Cons.prems(3) le show ?case
    by (auto simp: own_steps_def interruptions_def algebra_simps split: if_splits)
qed

lemma op_run_version: "op_run sol ops as s = Some s' \<Longrightarrow> version s \<le> version s'"
proof (induction as arbitrary: s)
  case (Cons a as)
  then obtain s1 where s1: "op_act sol ops a s = Some s1" "op_run sol ops as s1 = Some s'"
    by (auto split: option.splits)
  have "version s \<le> version s1"
    using s1(1)
    by (cases a)
      (auto simp: begin_op_def end_op_def lose_monitor_def step_op_def
        dest: modify_step_snap(1) split: if_splits option.splits mpc.splits prod.splits)
  with Cons.IH [OF s1(2)] show ?case by simp
qed simp

section \<open>Properties\<close>

text \<open>C4. No lost update. In every execution of any client, when a thread's attempt succeeds
  the double word still holds the data from which its modifier function has computed what is
  stored, and no thread has modified it since the attempt took its snapshot: on LL/SC without
  assumption, on DWCAS if the counter has not made a whole turn during an attempt. A torn
  load is tolerated.\<close>

theorem modify_no_lost_update:
  assumes "areach sol ops init h0 s" and "sol = LLSC \<or> fresh s"
    and "thr s t = Some (p, M_cas d k v r)"
    and "op_act sol ops (Op_step t e) s = Some s'"
    and "thr s' t = Some (p, M_done True r')"
  shows "word0 s = d \<and> snap s t = version s \<and> (\<exists>h h'. ops p h d = (Some v, h', r))
    \<and> word0 s' = v \<and> r' = r"
proof -
  note inv = areach_inv [OF assms(1)]
  obtain pc' s1 where step: "step_op sol ops t e p (M_cas d k v r) s = (pc', s1)" by fastforce
  then have s1: "s1 = s'" using assms(3,4) by simp
  from step obtain s2 where s2: "modify_step sol (ops p) t e (M_cas d k v r) s = (pc', s2)"
    and s': "s' = s2\<lparr>thr := (thr s2)(t := Some (p, pc'))\<rparr>"
    unfolding s1 by (rule step_op_parts)
  with assms(5) have pc': "pc' = M_done True r'" by simp
  have "word0 s' = v \<and> r' = r"
    using s2 s' pc' by (cases sol) (auto simp: modify_step_def split: if_splits)
  moreover have "word0 s = d \<and> snap s t = version s"
    by (rule commit_replaces_snapshot [OF conjunct1 [OF inv] _ assms(3) step [unfolded pc']])
      (use assms(2) in auto)
  moreover have "\<exists>h h'. ops p h d = (Some v, h', r)"
    using conjunct2 [OF inv] assms(3) by (auto simp: computed_def)
  ultimately show ?thesis by blast
qed

text \<open>A client whose one function adds a number to the data. Thread 7 takes a snapshot; thread 1
  completes the given number of modifications.\<close>

definition add_op :: "'w::len word \<Rightarrow> ('w word, unit, unit) modifier" where
  "add_op n h d = (Some (d + n), h, ())"

definition one_call :: "tid \<Rightarrow> 'o \<Rightarrow> ('o, unit) op_action list" where
  "one_call t p =
     [Op_begin t p, Op_step t Whole, Op_step t Whole, Op_step t Whole, Op_end t]"

definition snapshot_then :: "'o \<Rightarrow> ('o, unit) op_action list \<Rightarrow> ('o, unit) op_action list" where
  "snapshot_then p as = [Op_begin 7 p, Op_step 7 Whole] @ as @ [Op_step 7 Whole]"

lemmas add_client_defs = add_op_def one_call_def snapshot_then_def asys_init_def aba_init_def
  step_op_def begin_op_def end_op_def modify_step_def

theorem modify_no_lost_update_witness:
  "let s = the (op_run DWCAS add_op (one_call 1 2 @ snapshot_then 4 [])
                  (asys_init DWCAS (5 :: u32) ()))
   in word0 s = 7 \<and> version s = 1 \<and> snap s 7 = version s"
proof -
  define s where "s = the (op_run DWCAS add_op (one_call 1 2 @ snapshot_then 4 [])
    (asys_init DWCAS (5 :: u32) ()))"
  have run: "op_run DWCAS add_op (one_call 1 2 @ snapshot_then 4 [])
      (asys_init DWCAS (5 :: u32) ()) = Some s"
    by (simp add: s_def add_client_defs)
  have "word0 s = 7 \<and> snap s 7 = version s
    \<and> (\<exists>h h'. add_op 4 h (7 :: u32) = (Some 11, h', ()))
    \<and> word0 (the (op_act DWCAS add_op (Op_step 7 Whole) s)) = 11 \<and> () = ()"
    by (rule modify_no_lost_update [OF areach_run [OF run areach.init], where k = 2 and e = Whole])
      (simp_all add: s_def fresh_def add_client_defs)
  moreover have "version s = 1" by (simp add: s_def add_client_defs)
  ultimately show ?thesis by (simp add: s_def)
qed

text \<open>C26. Lock freedom, with a bound: while a thread is inside one call of \<open>modify\<close> it takes at
  most five steps, plus two for every modification the other threads complete in the meantime
  (three on LL/SC, where also every loss of its monitor and every spurious failure of its
  store-exclusive counts). So a thread that keeps taking steps either returns or other threads
  complete modifications. This holds from every state, for torn loads and stale caches, and
  whatever the client does to its memory.\<close>

theorem modify_lock_free:
  assumes "op_run sol ops as s = Some s'" and "thr s t = Some (p, pc)" and "Op_end t \<notin> set as"
    and "thr s' t = Some (p', pc')" and "\<forall>b r. pc' \<noteq> M_done b r"
  shows "version s \<le> version s'
    \<and> own_steps t as
        \<le> 5 + retry_cost sol * (version s' - version s + interruptions sol t as)"
proof -
  have le: "version s \<le> version s'" by (rule op_run_version [OF assms(1)])
  have "own_steps t as + steps_left sol t pc' s' + retry_cost sol * version s
    \<le> steps_left sol t pc s + retry_cost sol * (version s' + interruptions sol t as)"
    by (rule op_run_left [OF assms(1-4)]) (use assms(5) in blast)
  moreover have "1 \<le> steps_left sol t pc' s'" by (rule steps_left_pos) (use assms(5) in blast)
  moreover have "steps_left sol t pc s \<le> 6" by (rule steps_left_max)
  moreover have "retry_cost sol * version s' = retry_cost sol * (version s' - version s)
      + retry_cost sol * version s"
    using le by (simp flip: distrib_left)
  ultimately show ?thesis using le unfolding distrib_left by linarith
qed

theorem modify_lock_free_witness:
  "let s = begin_op 7 4 (asys_init DWCAS (5 :: u32) ());
       as = [Op_step 7 Whole, Op_step 7 Whole] @ one_call 1 2 @ [Op_step 7 Whole, Op_step 7 Whole];
       s' = the (op_run DWCAS add_op as s)
   in own_steps 7 as = 4 \<and> version s' = 1
      \<and> own_steps 7 as \<le> 5 + retry_cost DWCAS * (version s' - version s + interruptions DWCAS 7 as)"
proof -
  define s where "s = begin_op 7 4 (asys_init DWCAS (5 :: u32) () :: (u32, unit, u32, unit) asys)"
  define as where "as = [Op_step 7 Whole, Op_step 7 Whole] @ one_call 1 (2 :: u32)
    @ [Op_step 7 Whole, Op_step 7 Whole]"
  define s' where "s' = the (op_run DWCAS add_op as s)"
  note defs = s_def as_def s'_def add_client_defs
  have "version s \<le> version s' \<and> own_steps 7 as
      \<le> 5 + retry_cost DWCAS * (version s' - version s + interruptions DWCAS 7 as)"
    by (rule modify_lock_free [where ops = add_op and p = 4 and pc = M_load and p' = 4
          and pc' = "M_cas 7 2 11 ()"])
      (simp_all add: defs)
  moreover have "own_steps 7 as = 4" by (simp add: defs own_steps_def)
  moreover have "version s' = 1" by (simp add: defs)
  ultimately show ?thesis by (simp add: Let_def s_def as_def s'_def)
qed

text \<open>C17. What the counter is worth, exactly: in every execution a compare-and-swap stores if and
  only if the data is what the attempt has cached and the number of modifications since its
  snapshot is a multiple of \<open>2 ^ w\<close>. Zero is the intended case; the first wrong one needs
  \<open>2 ^ w\<close> modifications during one attempt.\<close>

theorem modify_commit_iff:
  assumes "areach DWCAS ops (init :: 'w::len word) h0 s"
    and "thr s t = Some (p, M_cas d k v r)"
  shows "fst (step_op DWCAS ops t e p (M_cas d k v r) s) = M_done True r
    \<longleftrightarrow> word0 s = d \<and> 2 ^ LENGTH('w) dvd version s - snap s t"
proof -
  note inv = conjunct1 [OF areach_inv [OF assms(1)]]
  have "word1 s = of_nat (Suc (version s))" "k = of_nat (Suc (snap s t))"
    using aba_invD(1,3) [OF inv] assms(2) by (auto simp: counter_ok_def thread_ok_def)
  then have "word1 s = k \<longleftrightarrow> 2 ^ LENGTH('w) dvd version s - snap s t"
    using of_nat_word_eq_turns [of "Suc (snap s t)" "Suc (version s)", where 'w = 'w]
      aba_invD(2) [OF inv, of t] by simp
  then show ?thesis by (auto simp: step_op_def modify_step_def)
qed

text \<open>The witness has a counter of two bits, so that four modifications are a whole turn; they
  add up to zero, and the attempt that began before them succeeds.\<close>

theorem modify_commit_iff_witness:
  "let s = the (op_run DWCAS add_op
                  (snapshot_then 2 (one_call 1 1 @ one_call 1 1 @ one_call 1 1 @ one_call 1 1))
                  (asys_init DWCAS (1 :: 2 word) ()))
   in fst (step_op DWCAS add_op 7 Whole 2 (M_cas 1 1 3 ()) s) = M_done True ()
      \<and> version s - snap s 7 = 4"
proof -
  define as :: "(2 word, unit) op_action list"
    where "as = snapshot_then 2 (one_call 1 1 @ one_call 1 1 @ one_call 1 1 @ one_call 1 1)"
  define s where "s = the (op_run DWCAS add_op as (asys_init DWCAS (1 :: 2 word) ()))"
  note defs = s_def as_def add_client_defs
  have run: "op_run DWCAS add_op as (asys_init DWCAS (1 :: 2 word) ()) = Some s"
    by (simp add: defs)
  have thr: "thr s 7 = Some (2, M_cas 1 1 3 ())" by (simp add: defs)
  have "version s = 4" "snap s 7 = 0" "word0 s = 1" by (simp_all add: defs)
  with modify_commit_iff [OF areach_run [OF run areach.init] thr, of Whole] show ?thesis
    unfolding Let_def as_def [symmetric] s_def [symmetric] by simp
qed

end
