(* ===== verification/Aba_Linear.thy ===== *)
theory Aba_Linear
  imports Aba_System
begin

text \<open>
  \<open>ABA_Wrapper\<close> as an object of its own: any number of threads that call \<open>modify\<close> with
  functions of the cached data, \<open>get\<close> and \<open>get_counter\<close>. It is linearizable to an atomic
  update object, for every family of such functions, those that return false included, and
  for every number of modifications: a counter that has made a whole turn does no harm to a
  function that reads nothing but the cached data.
\<close>

section \<open>The concurrent object\<close>

text \<open>\<open>g p d\<close> is what the function of operation \<open>p\<close> returns for the cached data \<open>d\<close>: the desired
  data, or \<open>None\<close> with the value false, and what it leaves in captured variables.\<close>

type_synonym ('o, 'v, 'r) updates = "'o \<Rightarrow> 'v \<Rightarrow> 'v option \<times> 'r"

definition of_data :: "('o, 'v, 'r) updates \<Rightarrow> 'o \<Rightarrow> ('v, unit, 'r) modifier" where
  "of_data g p h d = (fst (g p d), h, snd (g p d))"

text \<open>The log: calls and returns of \<open>modify\<close>, values read; \<open>Updated\<close> and \<open>Declined\<close> are ghosts,
  the moments at which a call takes effect.\<close>

datatype ('v, 'o, 'r) update_event =
    Modify_called tid 'o
  | Updated tid 'o 'r
  | Declined tid 'o 'r
  | Modify_returned tid 'o bool 'r
  | Get_returned tid 'v
  | Counter_returned tid 'v

record ('v, 'o, 'r) usys = "('v, unit, 'o, 'r) asys" +
  ulog :: "('v, 'o, 'r) update_event list"

datatype 'o update_action =
    Call_modify tid 'o
  | Step_modify tid env
  | Return_modify tid
  | Call_get tid
  | Call_get_counter tid
  | Preempt tid

definition usys_init :: "PlatformABASolution \<Rightarrow> 'w::len word \<Rightarrow> ('w word, 'o, 'r) usys" where
  "usys_init sol init =
     (let s = aba_init sol init () in
      \<lparr>word0 = word0 s, word1 = word1 s, excl = excl s, heap = heap s, version = version s,
       snap = snap s, thr = (\<lambda>_. None), ulog = []\<rparr>)"

text \<open>A call takes effect when it stores, or when it reads the data for which its function is
  going to return false.\<close>

definition effect ::
    "('o, 'v, 'r) updates \<Rightarrow> tid \<Rightarrow> 'o \<Rightarrow> ('v, 'r) mpc \<Rightarrow> ('v, 'r) mpc \<Rightarrow>
     ('v, 'o, 'r) update_event list" where
  "effect g t p pc pc' =
     (case (pc, pc') of
        (M_cas d k v r, M_done ok r') \<Rightarrow> [Updated t p r]
      | _ \<Rightarrow> (case observed pc pc' of
                 None \<Rightarrow> []
               | Some d \<Rightarrow> if fst (g p d) = None then [Declined t p (snd (g p d))] else []))"

fun update_act ::
    "PlatformABASolution \<Rightarrow> ('o, 'w::len word, 'r) updates \<Rightarrow> 'o update_action \<Rightarrow>
     ('w word, 'o, 'r) usys \<Rightarrow> ('w word, 'o, 'r) usys option" where
  "update_act sol g (Call_modify t p) s =
     (if thr s t \<noteq> None then None
      else Some ((begin_op t p s)\<lparr>ulog := ulog s @ [Modify_called t p]\<rparr>))"
| "update_act sol g (Step_modify t e) s =
     (case thr s t of
        None \<Rightarrow> None
      | Some (p, pc) \<Rightarrow>
          (case step_op sol (of_data g) t e p pc s of
             (pc', s') \<Rightarrow> Some (s'\<lparr>ulog := ulog s @ effect g t p pc pc'\<rparr>)))"
| "update_act sol g (Return_modify t) s =
     (case thr s t of
        Some (p, M_done ok r) \<Rightarrow>
          Some ((end_op t s)\<lparr>ulog := ulog s @ [Modify_returned t p ok r]\<rparr>)
      | _ \<Rightarrow> None)"
| "update_act sol g (Call_get t) s =
     (if thr s t \<noteq> None then None else Some (s\<lparr>ulog := ulog s @ [Get_returned t (aba_get s)]\<rparr>))"
| "update_act sol g (Call_get_counter t) s =
     (if thr s t \<noteq> None then None
      else Some (s\<lparr>ulog := ulog s @ [Counter_returned t (aba_get_counter sol s)]\<rparr>))"
| "update_act sol g (Preempt t) s = Some (lose_monitor t s)"

inductive ureach ::
    "PlatformABASolution \<Rightarrow> ('o, 'w::len word, 'r) updates \<Rightarrow> 'w word \<Rightarrow> ('w word, 'o, 'r) usys \<Rightarrow> bool"
  for sol g init where
  init: "ureach sol g init (usys_init sol init)"
| step: "ureach sol g init s \<Longrightarrow> update_act sol g a s = Some s' \<Longrightarrow> ureach sol g init s'"

section \<open>The atomic object\<close>

text \<open>Its state is the value and the number of updates; \<open>None\<close> for an illegal history.\<close>

fun atomic_step ::
    "PlatformABASolution \<Rightarrow> ('o, 'w::len word, 'r) updates \<Rightarrow> 'w word \<times> nat \<Rightarrow>
     ('w word, 'o, 'r) update_event \<Rightarrow> ('w word \<times> nat) option" where
  "atomic_step sol g (x, n) (Updated t p r) =
     (case g p x of (Some y, r') \<Rightarrow> if r = r' then Some (y, Suc n) else None | (None, r') \<Rightarrow> None)"
| "atomic_step sol g (x, n) (Declined t p r) = (if g p x = (None, r) then Some (x, n) else None)"
| "atomic_step sol g (x, n) (Get_returned t v) = (if v = x then Some (x, n) else None)"
| "atomic_step sol g (x, n) (Counter_returned t c) =
     (if c = (if sol = DWCAS then of_nat (Suc n) else 0) then Some (x, n) else None)"
| "atomic_step sol g (x, n) _ = Some (x, n)"

fun atomic_run ::
    "PlatformABASolution \<Rightarrow> ('o, 'w::len word, 'r) updates \<Rightarrow> 'w word \<times> nat \<Rightarrow>
     ('w word, 'o, 'r) update_event list \<Rightarrow> ('w word \<times> nat) option" where
  "atomic_run sol g x [] = Some x"
| "atomic_run sol g x (e # es) =
     (case atomic_step sol g x e of None \<Rightarrow> None | Some y \<Rightarrow> atomic_run sol g y es)"

lemma atomic_run_append [simp]:
  "atomic_run sol g x (es @ fs) =
     (case atomic_run sol g x es of None \<Rightarrow> None | Some y \<Rightarrow> atomic_run sol g y fs)"
  by (induction es arbitrary: x) (auto split: option.splits)

text \<open>Where a thread is in its current call, read off the log: each call takes effect once, and
  returns what it has done.\<close>

datatype ('o, 'r) call = No_call | Called 'o | Effective 'o bool 'r | Broken

fun call_step :: "tid \<Rightarrow> ('o, 'r) call \<Rightarrow> ('v, 'o, 'r) update_event \<Rightarrow> ('o, 'r) call" where
  "call_step t c (Modify_called u p) =
     (if u \<noteq> t then c else if c = No_call then Called p else Broken)"
| "call_step t c (Updated u p r) =
     (if u \<noteq> t then c else if c = Called p then Effective p True r else Broken)"
| "call_step t c (Declined u p r) =
     (if u \<noteq> t then c else if c = Called p then Effective p False r else Broken)"
| "call_step t c (Modify_returned u p ok r) =
     (if u \<noteq> t then c else if c = Effective p ok r then No_call else Broken)"
| "call_step t c e = c"

definition call_of :: "('v, 'o, 'r) update_event list \<Rightarrow> tid \<Rightarrow> ('o, 'r) call" where
  "call_of es t = foldl (call_step t) No_call es"

lemma call_of_simps [simp]:
  "call_of [] t = No_call"
  "call_of (es @ [e]) t = call_step t (call_of es t) e"
  by (simp_all add: call_of_def)

text \<open>What the position in \<open>modify\<close> says of the call.\<close>

definition verdict :: "('o, 'v, 'r) updates \<Rightarrow> 'o \<Rightarrow> 'v \<Rightarrow> ('o, 'r) call" where
  "verdict g p d = (if fst (g p d) = None then Effective p False (snd (g p d)) else Called p)"

fun call_at :: "('o, 'v, 'r) updates \<Rightarrow> ('o \<times> ('v, 'r) mpc) option \<Rightarrow> ('o, 'r) call" where
  "call_at g None = No_call"
| "call_at g (Some (p, M_load)) = Called p"
| "call_at g (Some (p, M_half0 d)) = verdict g p d"
| "call_at g (Some (p, M_half1 k)) = Called p"
| "call_at g (Some (p, M_call d k)) = verdict g p d"
| "call_at g (Some (p, M_cas d k v r)) = (if g p d = (Some v, r) then Called p else Broken)"
| "call_at g (Some (p, M_done ok r)) = Effective p ok r"

section \<open>The invariant\<close>

definition update_inv ::
    "PlatformABASolution \<Rightarrow> ('o, 'w::len word, 'r) updates \<Rightarrow> 'w word \<Rightarrow> ('w word, 'o, 'r) usys \<Rightarrow> bool"
  where
  "update_inv sol g init s \<longleftrightarrow>
     aba_inv sol s
     \<and> atomic_run sol g (init, 0) (ulog s) = Some (word0 s, version s)
     \<and> (\<forall>t. call_of (ulog s) t = call_at g (thr s t) \<and> call_at g (thr s t) \<noteq> Broken)"

lemma update_invD:
  "update_inv sol g init s \<Longrightarrow> aba_inv sol s"
  "update_inv sol g init s \<Longrightarrow> atomic_run sol g (init, 0) (ulog s) = Some (word0 s, version s)"
  "update_inv sol g init s \<Longrightarrow> call_of (ulog s) t = call_at g (thr s t)"
  "update_inv sol g init s \<Longrightarrow> call_at g (thr s t) \<noteq> Broken"
  by (simp_all add: update_inv_def)

lemma update_inv_init: "update_inv sol g init (usys_init sol init)"
  by (simp add: update_inv_def usys_init_def aba_init_def aba_inv_def counter_ok_def Let_def)

text \<open>A step of \<open>modify\<close>: no effect, the effect of a function that returns false, on the value
  now in memory, or that of one that returns true.\<close>

lemma update_step_cases:
  assumes "modify_step sol (of_data g p) t e pc s = (pc', s')"
    and "thread_ok sol t pc s" and "call_at g (Some (p, pc)) \<noteq> Broken"
  shows "effect g t p pc pc' = [] \<and> word0 s' = word0 s \<and> version s' = version s
      \<and> call_at g (Some (p, pc')) = call_at g (Some (p, pc))
    \<or> (\<exists>r. effect g t p pc pc' = [Declined t p r] \<and> word0 s' = word0 s \<and> version s' = version s
        \<and> g p (word0 s) = (None, r) \<and> call_at g (Some (p, pc)) = Called p
        \<and> call_at g (Some (p, pc')) = Effective p False r)
    \<or> (\<exists>v r. effect g t p pc pc' = [Updated t p r] \<and> word0 s' = v \<and> version s' = Suc (version s)
        \<and> g p (word0 s) = (Some v, r) \<and> call_at g (Some (p, pc)) = Called p
        \<and> call_at g (Some (p, pc')) = Effective p True r)"
proof (cases pc)
  case (M_call d k)
  with assms show ?thesis
    by (cases "g p d"; cases "fst (g p d)"; cases sol)
      (auto simp: modify_step_def of_data_def effect_def verdict_def)
next
  case (M_cas d k v r)
  then have g: "g p d = (Some v, r)" using assms(3) by (simp split: if_splits)
  show ?thesis
  proof (cases "\<exists>ok r'. pc' = M_done ok r'")
    case True
    then have "pc' = M_done True r" "word0 s = d" "word0 s' = v" "version s' = Suc (version s)"
      using assms(1,2) M_cas by (cases sol; auto simp: modify_step_def thread_ok_def split: if_splits)+
    with M_cas g show ?thesis by (simp add: effect_def)
  next
    case False
    then have "pc' = M_load \<or> (\<exists>k. pc' = M_call (word0 s) k)" "word0 s' = word0 s" "version s' = version s"
      using assms(1) M_cas by (cases sol; auto simp: modify_step_def split: if_splits)+
    with M_cas g show ?thesis
      by (cases "fst (g p (word0 s))") (auto simp: effect_def verdict_def prod_eq_iff)
  qed
next
  case (M_done ok r)
  with assms(1) show ?thesis by (cases sol) (auto simp: modify_step_def effect_def)
next
  case (M_half0 d)
  with assms(1,2) show ?thesis
    by (cases sol) (auto simp: modify_step_def effect_def thread_ok_def)
next
  case (M_half1 k)
  with assms(1,2) show ?thesis
    by (cases sol; cases "fst (g p (word0 s))")
      (auto simp: modify_step_def effect_def thread_ok_def verdict_def prod_eq_iff)
next
  case M_load
  with assms(1) show ?thesis
    by (cases sol; cases e; cases "fst (g p (word0 s))")
      (auto simp: modify_step_def effect_def verdict_def prod_eq_iff)
qed

lemma update_inv_step:
  assumes inv: "update_inv sol g init s" and pc: "thr s t = Some (p, pc)"
    and step: "step_op sol (of_data g) t e p pc s = (pc', s')"
  shows "update_inv sol g init (s'\<lparr>ulog := ulog s @ effect g t p pc pc'\<rparr>)"
proof -
  from step obtain s1 where s1: "modify_step sol (of_data g p) t e pc s = (pc', s1)"
    and s': "s' = s1\<lparr>thr := (thr s1)(t := Some (p, pc'))\<rparr>"
    by (rule step_op_parts)
  note own = update_invD(3,4) [OF inv, of t, unfolded pc]
  note cases = update_step_cases [OF s1 aba_invD(3) [OF update_invD(1) [OF inv] pc] own(2)]
  have "aba_inv sol (s'\<lparr>ulog := ulog s @ effect g t p pc pc'\<rparr>)"
    by (rule aba_inv_frame [OF aba_inv_step [OF update_invD(1) [OF inv] pc step]]) simp_all
  moreover have "atomic_run sol g (init, 0) (ulog s @ effect g t p pc pc') = Some (word0 s', version s')"
    using cases update_invD(2) [OF inv] by (elim disjE exE conjE) (simp_all add: s')
  moreover have "call_of (ulog s @ effect g t p pc pc') u = call_at g (thr s' u)
      \<and> call_at g (thr s' u) \<noteq> Broken" for u
  proof (cases "u = t")
    case True
    with cases own show ?thesis by (elim disjE exE conjE) (simp_all add: s')
  next
    case False
    with cases update_invD(3,4) [OF inv, of u] modify_step_thr [OF s1] show ?thesis
      by (elim disjE exE conjE) (simp_all add: s')
  qed
  ultimately show ?thesis by (simp add: update_inv_def)
qed

text \<open>Every other action appends at most one event that changes nothing but the caller's call.\<close>

lemma update_inv_frame:
  assumes inv: "update_inv sol g init s"
    and eq: "word0 s' = word0 s" "word1 s' = word1 s" "version s' = version s" "snap s' = snap s"
    and excl: "\<And>u. excl s' u \<Longrightarrow> excl s u"
    and log: "ulog s' = ulog s @ es" "atomic_run sol g (word0 s, version s) es = Some (word0 s, version s)"
    and thr: "\<And>u. thr s' u = thr s u \<or> thr s' u = None \<or> (\<exists>p. thr s' u = Some (p, M_load))"
    and call: "\<And>u. foldl (call_step u) (call_at g (thr s u)) es = call_at g (thr s' u)"
  shows "update_inv sol g init s'"
proof -
  have "thr s' u = Some (p, pc) \<Longrightarrow> thr s u = Some (p, pc) \<or> pc = M_load" for u p pc
    using thr [of u] by auto
  then have "aba_inv sol s'"
    by (intro aba_inv_frame [OF update_invD(1) [OF inv] eq excl]) auto
  moreover have "call_at g (thr s' u) \<noteq> Broken" for u
    using thr [of u] update_invD(4) [OF inv, of u] by auto
  ultimately show ?thesis
    using update_invD(2,3) [OF inv] call by (simp add: update_inv_def log eq call_of_def)
qed

lemma update_inv_act:
  assumes inv: "update_inv sol g init s" and act: "update_act sol g a s = Some s'"
  shows "update_inv sol g init s'"
proof (cases a)
  case (Step_modify t e)
  with act inv show ?thesis
    by (auto split: option.splits prod.splits intro: update_inv_step)
next
  case (Call_modify t p)
  with act show ?thesis
    by (intro update_inv_frame [OF inv, of _ "[Modify_called t p]"])
      (auto simp: begin_op_def simp del: not_None_eq split: if_splits)
next
  case (Return_modify t)
  with act obtain p ok r where "thr s t = Some (p, M_done ok r)"
    and "s' = (end_op t s)\<lparr>ulog := ulog s @ [Modify_returned t p ok r]\<rparr>"
    by (auto split: option.splits mpc.splits)
  then show ?thesis
    by (intro update_inv_frame [OF inv, of _ "[Modify_returned t p ok r]"]) (auto simp: end_op_def)
next
  case (Call_get t)
  with act show ?thesis
    by (intro update_inv_frame [OF inv, of _ "[Get_returned t (aba_get s)]"])
      (auto simp: aba_get_def split: if_splits)
next
  case (Call_get_counter t)
  have "aba_get_counter sol s = (if sol = DWCAS then of_nat (Suc (version s)) else 0)"
    using aba_invD(1) [OF update_invD(1) [OF inv]] by (simp add: aba_get_counter_def counter_ok_def)
  with Call_get_counter act show ?thesis
    by (intro update_inv_frame [OF inv, of _ "[Counter_returned t (aba_get_counter sol s)]"])
      (auto split: if_splits)
next
  case (Preempt t)
  with act show ?thesis
    by (intro update_inv_frame [OF inv, of _ "[]"]) (auto simp: lose_monitor_def split: if_splits)
qed

lemma ureach_inv: "ureach sol g init s \<Longrightarrow> update_inv sol g init s"
  by (induction rule: ureach.induct) (auto intro: update_inv_init update_inv_act)

fun update_run ::
    "PlatformABASolution \<Rightarrow> ('o, 'w::len word, 'r) updates \<Rightarrow> 'o update_action list \<Rightarrow>
     ('w word, 'o, 'r) usys \<Rightarrow> ('w word, 'o, 'r) usys option" where
  "update_run sol g [] s = Some s"
| "update_run sol g (a # as) s =
     (case update_act sol g a s of None \<Rightarrow> None | Some s' \<Rightarrow> update_run sol g as s')"

lemma update_run_ureach:
  "update_run sol g as s = Some s' \<Longrightarrow> ureach sol g init s \<Longrightarrow> ureach sol g init s'"
  by (induction as arbitrary: s) (auto split: option.splits intro: ureach.step)

section \<open>Properties\<close>

text \<open>C5. Linearizability of \<open>modify\<close>. For every family of functions of the cached data, on both
  kinds of platform, with torn loads, spurious failures and however often the counter wraps
  around, the effects and the values read, in their order, are a legal history of an atomic
  object: a function that returns true is applied to the current value once, one that
  returns false was given the value that was current at one moment of its call, the counter
  counts the updates modulo the width; and each call takes effect once between its call and
  its return and returns that outcome.\<close>

theorem modify_linearizable:
  assumes "ureach sol g init s"
  shows "atomic_run sol g (init, 0) (ulog s) = Some (aba_get s, version s)
    \<and> (\<forall>t. call_of (ulog s) t = call_at g (thr s t) \<and> call_of (ulog s) t \<noteq> Broken)"
  using ureach_inv [OF assms] by (simp add: update_inv_def aba_get_def)

text \<open>An increment up to a limit that returns the old value, by two threads: the load of the
  first is torn, its compare-and-swap fails, and the new value is at its limit.\<close>

definition bounded_increment :: "(u32, u32, u32) updates" where
  "bounded_increment limit d = (if d = limit then None else Some (d + 1), d)"

definition update_demo :: "u32 update_action list" where
  "update_demo =
     [Call_modify 1 8, Call_modify 2 9, Step_modify 1 Low_first, Step_modify 1 Whole,
      Step_modify 1 Whole, Step_modify 2 Whole, Step_modify 2 Whole, Step_modify 2 Whole,
      Return_modify 2, Step_modify 1 Whole, Step_modify 1 Whole, Return_modify 1, Call_get 2,
      Call_get_counter 1]"

lemma update_demo_run:
  "\<exists>s. update_run DWCAS bounded_increment update_demo (usys_init DWCAS 7) = Some s
     \<and> ulog s = [Modify_called 1 8, Modify_called 2 9, Updated 2 9 7, Modify_returned 2 9 True 7,
          Declined 1 8 8, Modify_returned 1 8 False 8, Get_returned 2 8, Counter_returned 1 2]"
  by (simp add: update_demo_def usys_init_def aba_init_def begin_op_def end_op_def step_op_def
      modify_step_def of_data_def effect_def bounded_increment_def aba_get_def aba_get_counter_def)

theorem modify_linearizable_witness:
  "\<exists>s :: (u32, u32, u32) usys. ureach DWCAS bounded_increment 7 s \<and> aba_get s = 8 \<and> version s = 1"
proof -
  obtain s where run: "update_run DWCAS bounded_increment update_demo (usys_init DWCAS 7) = Some s"
    and log: "ulog s = [Modify_called 1 8, Modify_called 2 9, Updated 2 9 7, Modify_returned 2 9 True 7,
          Declined 1 8 8, Modify_returned 1 8 False 8, Get_returned 2 8, Counter_returned 1 2]"
    using update_demo_run by blast
  have r: "ureach DWCAS bounded_increment 7 s" by (rule update_run_ureach [OF run ureach.init])
  from modify_linearizable [OF r] have "aba_get s = 8" "version s = 1"
    by (auto simp: log bounded_increment_def)
  with r show ?thesis by blast
qed

end
