(* ===== verification/Stack.thy ===== *)
theory Stack
  imports Aba_System
begin

text \<open>
  The lock-free stack of \<open>stack.hpp\<close> and \<open>stack.cpp\<close>: \<open>push\<close> and \<open>pop\<close> as
  modifier functions for \<open>ABA_Wrapper::modify\<close>, run by any number of threads. The
  abstract stack is a list of blocks; every execution is shown to be linearizable to it.
\<close>

section \<open>The operations\<close>

text \<open>
  A block is the address of uninitialised memory; the stack uses its first word as the
  link to the next block. \<open>links a\<close> is that word of the block at \<open>a\<close>; \<open>nullptr\<close> is 0.
\<close>

type_synonym 'v links = "'v \<Rightarrow> 'v"

datatype 'v stack_op = Op_push 'v | Op_pop

datatype stack_error = Invalid_argument

text \<open>The lambda of \<open>push\<close> captures \<open>block\<close> by value and assigns no captured variable.\<close>

definition push_modifier ::
    "'v \<Rightarrow> ('v, 'v links, 'v option) modifier" where
  "push_modifier block links stack_cached = (Some block, links(block := stack_cached), None)"

text \<open>The lambda of \<open>pop\<close> assigns the captured variable \<open>top\<close>.\<close>

definition pop_modifier :: "('w::len word, 'w word links, 'w word option) modifier" where
  "pop_modifier links stack_cached =
     (let popped = stack_cached in
      if popped = 0 then (None, links, Some popped)
      else (Some (links popped), links, Some popped))"

fun stack_ops :: "'w::len word stack_op \<Rightarrow> ('w word, 'w word links, 'w word option) modifier" where
  "stack_ops (Op_push b) = push_modifier b"
| "stack_ops Op_pop = pop_modifier"

text \<open>\<open>push\<close> rejects a null block before it touches the stack.\<close>

definition push_entry :: "'w::len word \<Rightarrow> stack_error + 'w word stack_op" where
  "push_entry block = (if block = 0 then Inl Invalid_argument else Inr (Op_push block))"

text \<open>What a finished call returns: \<open>push\<close> nothing, \<open>pop\<close> the variable \<open>top\<close>.\<close>

datatype 'v stack_result = Pushed 'v | Popped 'v | Found_empty

fun stack_return :: "'w::len word stack_op \<Rightarrow> 'w word option \<Rightarrow> 'w word stack_result" where
  "stack_return (Op_push b) r = Pushed b"
| "stack_return Op_pop r =
     (case r of Some popped \<Rightarrow> if popped = 0 then Found_empty else Popped popped
      | None \<Rightarrow> Found_empty)"

section \<open>Sequential use\<close>

text \<open>\<open>push\<close> and \<open>pop\<close> called by one thread with no other thread in between.\<close>

definition stack_init ::
    "PlatformABASolution \<Rightarrow> 'w::len word links \<Rightarrow> ('w word, 'w word links) aba" where
  "stack_init sol links = aba_init sol 0 links"

definition push ::
    "PlatformABASolution \<Rightarrow> tid \<Rightarrow> 'w::len word \<Rightarrow> ('w word, 'w word links, 'z) aba_scheme \<Rightarrow>
     stack_error + ('w word, 'w word links, 'z) aba_scheme option" where
  "push sol t block s =
     (case push_entry block of
        Inl e \<Rightarrow> Inl e
      | Inr p \<Rightarrow> Inr (map_option (\<lambda>(success, captured, s'). s')
                   (modify_run 6 sol (stack_ops p) t M_load s)))"

definition pop ::
    "PlatformABASolution \<Rightarrow> tid \<Rightarrow> ('w::len word, 'w word links, 'z) aba_scheme \<Rightarrow>
     ('w word option \<times> ('w word, 'w word links, 'z) aba_scheme) option" where
  "pop sol t s =
     map_option (\<lambda>(success, captured, s'). (captured, s')) (modify_run 6 sol pop_modifier t M_load s)"

text \<open>A program of one thread after the other: calls of \<open>push\<close> and \<open>pop\<close>, each by some thread,
  and writes to the first word of a block. The calls are answered in order.\<close>

datatype 'v stack_call = Call_push tid 'v | Call_pop tid | Write_block 'v 'v

datatype 'v answer = Thrown stack_error | Returned | Returned_block "'v option"

fun stack_calls ::
    "PlatformABASolution \<Rightarrow> 'w::len word stack_call list \<Rightarrow> ('w word, 'w word links, 'z) aba_scheme \<Rightarrow>
     ('w word answer list \<times> ('w word, 'w word links, 'z) aba_scheme) option" where
  "stack_calls sol [] s = Some ([], s)"
| "stack_calls sol (Call_push t b # cs) s =
     (case push sol t b s of
        Inl e \<Rightarrow> map_option (apfst ((#) (Thrown e))) (stack_calls sol cs s)
      | Inr None \<Rightarrow> None
      | Inr (Some s') \<Rightarrow> map_option (apfst ((#) Returned)) (stack_calls sol cs s'))"
| "stack_calls sol (Call_pop t # cs) s =
     (case pop sol t s of
        None \<Rightarrow> None
      | Some (popped, s') \<Rightarrow> map_option (apfst ((#) (Returned_block popped))) (stack_calls sol cs s'))"
| "stack_calls sol (Write_block c v # cs) s = stack_calls sol cs (s\<lparr>heap := (heap s)(c := v)\<rparr>)"

text \<open>The same program on a list; \<open>None\<close> if it pushes or writes to a block in the stack.\<close>

fun list_calls ::
    "'w::len word stack_call list \<Rightarrow> 'w word list \<Rightarrow> ('w word answer list \<times> 'w word list) option" where
  "list_calls [] xs = Some ([], xs)"
| "list_calls (Call_push t b # cs) xs =
     (if b = 0 then map_option (apfst ((#) (Thrown Invalid_argument))) (list_calls cs xs)
      else if b \<in> set xs then None
      else map_option (apfst ((#) Returned)) (list_calls cs (b # xs)))"
| "list_calls (Call_pop t # cs) xs =
     (case xs of
        [] \<Rightarrow> map_option (apfst ((#) (Returned_block (Some 0)))) (list_calls cs [])
      | x # ys \<Rightarrow> map_option (apfst ((#) (Returned_block (Some x)))) (list_calls cs ys))"
| "list_calls (Write_block c v # cs) xs = (if c \<in> set xs then None else list_calls cs xs)"

section \<open>Linked lists\<close>

fun chain :: "'w::len word links \<Rightarrow> 'w word \<Rightarrow> 'w word list \<Rightarrow> bool" where
  "chain links a [] \<longleftrightarrow> a = 0"
| "chain links a (x # xs) \<longleftrightarrow> a = x \<and> x \<noteq> 0 \<and> chain links (links x) xs"

lemma chain_null [simp]: "chain links 0 xs \<longleftrightarrow> xs = []"
  by (cases xs) auto

lemma chain_non_null: "a \<noteq> 0 \<Longrightarrow> chain links a xs \<longleftrightarrow> (\<exists>ys. xs = a # ys \<and> chain links (links a) ys)"
  by (cases xs) auto

lemma chain_unique: "chain links a xs \<Longrightarrow> chain links a ys \<Longrightarrow> xs = ys"
proof (induction xs arbitrary: a ys)
  case Nil
  then show ?case by simp
next
  case (Cons x xs)
  then obtain ys' where "ys = x # ys'" "chain links (links x) ys'"
    by (auto simp: chain_non_null)
  with Cons show ?case by auto
qed

lemma chain_update [simp]: "b \<notin> set xs \<Longrightarrow> chain (links(b := v)) a xs \<longleftrightarrow> chain links a xs"
  by (induction xs arbitrary: a) auto

lemma chain_cong:
  "(\<And>x. x \<in> set xs \<Longrightarrow> links' x = links x) \<Longrightarrow> chain links' a xs = chain links a xs"
  by (induction xs arbitrary: a) auto

lemma chain_suffix: "chain links a (xs @ x # ys) \<Longrightarrow> chain links x (x # ys)"
  by (induction xs arbitrary: a) auto

lemma chain_distinct: "chain links a xs \<Longrightarrow> distinct xs"
proof (induction xs arbitrary: a)
  case Nil
  then show ?case by simp
next
  case (Cons x xs)
  have "x \<notin> set xs"
  proof
    assume "x \<in> set xs"
    then obtain us vs where xs: "xs = us @ x # vs" by (auto simp: in_set_conv_decomp)
    with Cons.prems have "chain links x (x # us @ x # vs)" by simp
    moreover have "chain links x (x # vs)"
      using Cons.prems chain_suffix [of links "links x" us x vs] by (simp add: xs)
    ultimately have "x # us @ x # vs = x # vs" by (rule chain_unique)
    then have "length us + length (x # vs) = length vs"
      by (metis length_append list.inject)
    then show False by simp
  qed
  with Cons show ?case by auto
qed

lemma chain_no_null: "chain links a xs \<Longrightarrow> 0 \<notin> set xs"
  by (induction xs arbitrary: a) auto

section \<open>Sequential behaviour\<close>

lemma push_correct:
  assumes "b \<noteq> 0" and "chain (heap s) (word0 s) xs" and "b \<notin> set xs"
  shows "\<exists>s'. push sol t b s = Inr (Some s') \<and> chain (heap s') (word0 s') (b # xs)"
proof -
  obtain ok r s' where run: "modify_run 6 sol (push_modifier b) t M_load s = Some (ok, r, s')"
    and eff: "modified sol (push_modifier b) s (ok, r, s')"
    using modify_run_alone [of 3 sol "push_modifier b" t s] by auto
  from eff have "word0 s' = b" "heap s' = (heap s)(b := word0 s)"
    by (auto simp: modified_def push_modifier_def)
  with assms run show ?thesis by (simp add: push_def push_entry_def)
qed

lemma pop_correct:
  assumes "chain (heap s) (word0 s) xs"
  shows "\<exists>s'. pop sol t s = Some (Some (case xs of [] \<Rightarrow> 0 | x # _ \<Rightarrow> x), s')
     \<and> heap s' = heap s \<and> chain (heap s') (word0 s') (tl xs)"
proof -
  obtain ok r s' where run: "modify_run 6 sol pop_modifier t M_load s = Some (ok, r, s')"
    and eff: "modified sol pop_modifier s (ok, r, s')"
    using modify_run_alone [of 3 sol pop_modifier t s] by auto
  show ?thesis
  proof (cases xs)
    case Nil
    with eff assms have "r = Some 0" "heap s' = heap s" "word0 s' = 0"
      by (auto simp: modified_def pop_modifier_def)
    with Nil run show ?thesis by (simp add: pop_def)
  next
    case (Cons x ys)
    with eff assms have "r = Some x" "heap s' = heap s" "word0 s' = heap s x"
      by (auto simp: modified_def pop_modifier_def)
    with Cons run assms show ?thesis by (simp add: pop_def)
  qed
qed

text \<open>A push of the null block throws \<open>std::invalid_argument\<close>, and only that does.\<close>

lemma push_null_throws: "push sol t b s = Inl Invalid_argument \<longleftrightarrow> b = 0"
  by (simp add: push_def push_entry_def)

section \<open>Properties\<close>

text \<open>C31. The stack used by one thread after the other is a list: every program of pushes, pops
  and writes to blocks outside the stack gets from \<open>push\<close> and \<open>pop\<close> the answers the list
  gives, the exception for \<open>nullptr\<close> and the \<open>nullptr\<close> of an empty stack included, whatever
  the blocks held, and the links in memory form the list at the end.\<close>

theorem stack_calls_refine_list:
  assumes "chain (heap s) (word0 s) xs" and "list_calls cs xs = Some (rs, ys)"
  shows "\<exists>s'. stack_calls sol cs s = Some (rs, s') \<and> chain (heap s') (word0 s') ys"
  using assms
proof (induction cs xs arbitrary: s rs rule: list_calls.induct)
  case (2 t b cs xs)
  show ?case
  proof (cases "b = 0")
    case True
    with 2 show ?thesis by (fastforce simp: push_def push_entry_def)
  next
    case False
    with 2(4) obtain rs' where b: "b \<notin> set xs" "rs = Returned # rs'"
      and l: "list_calls cs (b # xs) = Some (rs', ys)"
      by (auto split: if_splits)
    from push_correct [OF False 2(3) b(1), of sol t] obtain s1
      where "push sol t b s = Inr (Some s1)" "chain (heap s1) (word0 s1) (b # xs)" by blast
    with 2(2) [OF False b(1) _ l] b show ?thesis by fastforce
  qed
next
  case (3 t cs xs)
  from pop_correct [OF 3(3), of sol t] obtain s1
    where "pop sol t s = Some (Some (case xs of [] \<Rightarrow> 0 | x # _ \<Rightarrow> x), s1)"
      "chain (heap s1) (word0 s1) (tl xs)" by blast
  with 3(1) [of s1] 3(2) [of _ _ s1] 3(4) show ?case by (cases xs) fastforce+
next
  case (4 c v cs xs)
  then show ?case by (auto split: if_splits)
qed simp

theorem stack_calls_refine_list_witness:
  "\<exists>s'. stack_calls LLSC [Call_pop 1, Call_push 0 0, Call_push 0 16, Write_block 8 3, Call_push 2 8, Call_pop 1]
        (stack_init LLSC (\<lambda>_. 99 :: u64))
      = Some ([Returned_block (Some 0), Thrown Invalid_argument, Returned, Returned, Returned_block (Some 8)], s')
     \<and> chain (heap s') (word0 s') [16]"
  using stack_calls_refine_list [of "stack_init LLSC (\<lambda>_. 99 :: u64)" "[]"
      "[Call_pop 1, Call_push 0 0, Call_push 0 16, Write_block 8 3, Call_push 2 8, Call_pop 1]"]
  by (simp add: stack_init_def aba_init_def)

end
