(* ===== verification/Stack_System.thy ===== *)
theory Stack_System
  imports Stack
begin

text \<open>
  Any number of threads that push to and pop from one \<open>Stack\<close>: the transition system,
  the invariant that ties the linked list in memory to an abstract stack, and the
  linearizability of every execution.
\<close>

section \<open>The transition system\<close>

text \<open>
  The history records calls, returns and, as a ghost, the linearization points. \<open>owner\<close>
  is a ghost too: which thread holds a block, \<open>None\<close> for the blocks in the stack (and for
  addresses that are no blocks). The client discipline is the one any intrusive container
  needs: a thread pushes, writes and hands over only blocks it holds.
\<close>

datatype 'v event =
    Call tid "'v stack_op"
  | Lin tid "'v stack_result"
  | Return tid "'v stack_result"

record 'v ssys = "('v, 'v links, 'v stack_op, 'v option) asys" +
  owner :: "'v \<Rightarrow> tid option"
  hist :: "'v event list"

datatype 'v action =
    Begin_push tid 'v
  | Begin_pop tid
  | Step tid env
  | End tid
  | Lose_monitor tid
  | Write tid 'v 'v
  | Hand_over tid tid 'v
  | Stale_read tid 'v

definition ssys_init ::
    "PlatformABASolution \<Rightarrow> 'w::len word links \<Rightarrow> ('w word \<Rightarrow> tid option) \<Rightarrow> 'w word ssys" where
  "ssys_init sol links own =
     (let s = aba_init sol 0 links in
      \<lparr>word0 = word0 s, word1 = word1 s, excl = excl s, heap = heap s, version = version s,
       snap = snap s, thr = (\<lambda>_. None), owner = own, hist = []\<rparr>)"

text \<open>
  The ghost updates of a step of \<open>modify\<close>. A push takes effect when its store succeeds; a
  pop when its store succeeds or when it reads a null pointer, after which it returns
  \<open>nullptr\<close> whatever happens.
\<close>

fun lin_point ::
    "'w::len word stack_op \<Rightarrow> ('w word, 'w word option) mpc \<Rightarrow> ('w word, 'w word option) mpc \<Rightarrow>
     'w word stack_result option" where
  "lin_point (Op_push b) (M_cas d k v r) (M_done ok r') = Some (Pushed b)"
| "lin_point Op_pop (M_cas d k v r) (M_done ok r') = Some (stack_return Op_pop r')"
| "lin_point Op_pop pc pc' = (if observed pc pc' = Some 0 then Some Found_empty else None)"
| "lin_point _ _ _ = None"

fun owner_after ::
    "tid \<Rightarrow> 'w::len word stack_result option \<Rightarrow> ('w word \<Rightarrow> tid option) \<Rightarrow> 'w word \<Rightarrow> tid option"
    where
  "owner_after t (Some (Pushed b)) own = own(b := None)"
| "owner_after t (Some (Popped b)) own = own(b := Some t)"
| "owner_after t _ own = own"

definition ghost_step ::
    "tid \<Rightarrow> 'w::len word stack_result option \<Rightarrow> 'w word ssys \<Rightarrow> 'w word ssys" where
  "ghost_step t l s =
     s\<lparr>owner := owner_after t l (owner s),
       hist := hist s @ (case l of None \<Rightarrow> [] | Some r \<Rightarrow> [Lin t r])\<rparr>"

text \<open>
  One action; \<open>None\<close> when it is not enabled. The link that \<open>pop\<close> reads may belong to a block
  which a thread has popped in the meantime and is writing to. Such a read races with the
  owner's writes, so besides the present value (\<open>Step\<close>) it can return any other: \<open>Stale_read\<close>.
\<close>

fun act ::
    "PlatformABASolution \<Rightarrow> 'w::len word action \<Rightarrow> 'w word ssys \<Rightarrow> 'w word ssys option" where
  "act sol (Begin_push t b) s =
     (if thr s t \<noteq> None then None
      else case push_entry b of
        Inl e \<Rightarrow> Some s
      | Inr p \<Rightarrow> if owner s b = Some t
               then Some ((begin_op t p s)\<lparr>hist := hist s @ [Call t p]\<rparr>) else None)"
| "act sol (Begin_pop t) s =
     (if thr s t \<noteq> None then None
      else Some ((begin_op t Op_pop s)\<lparr>hist := hist s @ [Call t Op_pop]\<rparr>))"
| "act sol (Step t e) s =
     (case thr s t of
        None \<Rightarrow> None
      | Some (p, pc) \<Rightarrow>
          (case step_op sol stack_ops t e p pc s of
             (pc', s') \<Rightarrow> Some (ghost_step t (lin_point p pc pc') s')))"
| "act sol (End t) s =
     (case thr s t of
        Some (p, M_done ok r) \<Rightarrow>
          Some ((end_op t s)\<lparr>hist := hist s @ [Return t (stack_return p r)]\<rparr>)
      | _ \<Rightarrow> None)"
| "act sol (Lose_monitor t) s = Some (lose_monitor t s)"
| "act sol (Write t a v) s =
     (if thr s t = None \<and> owner s a = Some t
      then Some (s\<lparr>heap := (heap s)(a := v)\<rparr>) else None)"
| "act sol (Hand_over t u a) s =
     (if thr s t = None \<and> owner s a = Some t
      then Some (s\<lparr>owner := (owner s)(a := Some u)\<rparr>) else None)"
| "act sol (Stale_read t v) s =
     (case thr s t of
        Some (Op_pop, M_call d k) \<Rightarrow>
          if d \<noteq> 0 \<and> owner s d \<noteq> None
          then Some (s\<lparr>thr := (thr s)(t := Some (Op_pop, M_cas d k v (Some d)))\<rparr>) else None
      | _ \<Rightarrow> None)"

text \<open>What each action does, when it is possible. This rule replaces the case distinction on the
  action in every proof about \<open>act\<close>.\<close>

lemma act_elim [consumes 1, case_names null push pop step returned switched written handed stale]:
  assumes "act sol a s = Some s'"
  obtains
    (null) t where "a = Begin_push t 0" "s' = s"
  | (push) t b where "a = Begin_push t b" "b \<noteq> 0" "thr s t = None" "owner s b = Some t"
      "s' = (begin_op t (Op_push b) s)\<lparr>hist := hist s @ [Call t (Op_push b)]\<rparr>"
  | (pop) t where "a = Begin_pop t" "thr s t = None"
      "s' = (begin_op t Op_pop s)\<lparr>hist := hist s @ [Call t Op_pop]\<rparr>"
  | (step) t e p pc pc' s2 where "a = Step t e" "thr s t = Some (p, pc)"
      "step_op sol stack_ops t e p pc s = (pc', s2)" "s' = ghost_step t (lin_point p pc pc') s2"
  | (returned) t p ok r where "a = End t" "thr s t = Some (p, M_done ok r)"
      "s' = (end_op t s)\<lparr>hist := hist s @ [Return t (stack_return p r)]\<rparr>"
  | (switched) t where "a = Lose_monitor t" "s' = lose_monitor t s"
  | (written) t c v where "a = Write t c v" "thr s t = None" "owner s c = Some t"
      "s' = s\<lparr>heap := (heap s)(c := v)\<rparr>"
  | (handed) t u c where "a = Hand_over t u c" "thr s t = None" "owner s c = Some t"
      "s' = s\<lparr>owner := (owner s)(c := Some u)\<rparr>"
  | (stale) t v d k where "a = Stale_read t v" "thr s t = Some (Op_pop, M_call d k)" "d \<noteq> 0"
      "owner s d \<noteq> None" "s' = s\<lparr>thr := (thr s)(t := Some (Op_pop, M_cas d k v (Some d)))\<rparr>"
  using assms
  by (cases a)
    (auto simp: push_entry_def simp del: not_None_eq
      split: if_splits option.splits mpc.splits stack_op.splits prod.splits)

text \<open>
  The reachable states. The side condition is the one assumption of the development about
  the ABA counter: during no attempt does it make a whole turn.
\<close>

inductive reach ::
    "PlatformABASolution \<Rightarrow> 'w::len word links \<Rightarrow> ('w word \<Rightarrow> tid option) \<Rightarrow> 'w word ssys \<Rightarrow> bool"
  for sol links own where
  init: "reach sol links own (ssys_init sol links own)"
| step: "reach sol links own s \<Longrightarrow> (sol = DWCAS \<Longrightarrow> fresh s) \<Longrightarrow> act sol a s = Some s' \<Longrightarrow>
     reach sol links own s'"

fun run :: "PlatformABASolution \<Rightarrow> 'w::len word action list \<Rightarrow> 'w word ssys \<Rightarrow> 'w word ssys option"
    where
  "run sol [] s = Some s"
| "run sol (a # as) s = (case act sol a s of None \<Rightarrow> None | Some s' \<Rightarrow> run sol as s')"

section \<open>The abstract stack\<close>

fun spec_step :: "'v list \<Rightarrow> 'v stack_result \<Rightarrow> 'v list option" where
  "spec_step xs (Pushed b) = Some (b # xs)"
| "spec_step (x # xs) (Popped b) = (if x = b then Some xs else None)"
| "spec_step [] Found_empty = Some []"
| "spec_step _ _ = None"

fun spec_run :: "'v list \<Rightarrow> 'v stack_result list \<Rightarrow> 'v list option" where
  "spec_run xs [] = Some xs"
| "spec_run xs (r # rs) = (case spec_step xs r of None \<Rightarrow> None | Some ys \<Rightarrow> spec_run ys rs)"

fun lins :: "'v event list \<Rightarrow> 'v stack_result list" where
  "lins [] = []"
| "lins (Lin t r # es) = r # lins es"
| "lins (_ # es) = lins es"

text \<open>
  What a thread's part of the history may look like: a call, one linearization point with
  a result that fits the operation, and a return with that very result.
\<close>

datatype 'v phase = Idle | Called "'v stack_op" | Decided "'v stack_op" "'v stack_result" | Wrong

fun fits :: "'v stack_op \<Rightarrow> 'v stack_result \<Rightarrow> bool" where
  "fits (Op_push b) r \<longleftrightarrow> r = Pushed b"
| "fits Op_pop (Pushed b) \<longleftrightarrow> False"
| "fits Op_pop _ \<longleftrightarrow> True"

fun phase_step :: "tid \<Rightarrow> 'v phase \<Rightarrow> 'v event \<Rightarrow> 'v phase" where
  "phase_step t ph (Call u p) =
     (if u \<noteq> t then ph else case ph of Idle \<Rightarrow> Called p | _ \<Rightarrow> Wrong)"
| "phase_step t ph (Lin u r) =
     (if u \<noteq> t then ph
      else case ph of Called p \<Rightarrow> if fits p r then Decided p r else Wrong | _ \<Rightarrow> Wrong)"
| "phase_step t ph (Return u r) =
     (if u \<noteq> t then ph else case ph of Decided p r' \<Rightarrow> if r = r' then Idle else Wrong | _ \<Rightarrow> Wrong)"

definition phase :: "'v event list \<Rightarrow> tid \<Rightarrow> 'v phase" where
  "phase es t = foldl (phase_step t) Idle es"

lemma phase_snoc [simp]: "phase (es @ [e]) t = phase_step t (phase es t) e"
  by (simp add: phase_def)

lemma phase_Nil [simp]: "phase [] t = Idle"
  by (simp add: phase_def)

lemma lins_append [simp]: "lins (xs @ ys) = lins xs @ lins ys"
  by (induction xs rule: lins.induct) auto

lemma spec_run_snoc [simp]:
  "spec_run xs (rs @ [r]) = (case spec_run xs rs of None \<Rightarrow> None | Some ys \<Rightarrow> spec_step ys r)"
  by (induction rs arbitrary: xs) (auto split: option.splits)

section \<open>The invariant\<close>

text \<open>
  What holds for a thread inside \<open>modify\<close>. A push owns its block until its store succeeds
  and has linked it to the cached top. A pop that is about to store has a non-null top,
  and if nothing was written since the snapshot the desired data is the link of that top;
  a pop that has finished with a block holds it.
\<close>

fun op_ok ::
    "tid \<Rightarrow> 'w::len word stack_op \<Rightarrow> ('w word, 'w word option) mpc \<Rightarrow> 'w word ssys \<Rightarrow> bool" where
  "op_ok t (Op_push b) pc s \<longleftrightarrow>
     b \<noteq> 0
     \<and> (case pc of
          M_done ok r \<Rightarrow> True
        | M_cas d k v r \<Rightarrow> v = b \<and> heap s b = d \<and> owner s b = Some t
        | _ \<Rightarrow> owner s b = Some t)"
| "op_ok t Op_pop pc s \<longleftrightarrow>
     (case pc of
        M_done ok r \<Rightarrow> r \<noteq> None \<and> (the r \<noteq> 0 \<longrightarrow> owner s (the r) = Some t)
      | M_cas d k v r \<Rightarrow>
          d \<noteq> 0 \<and> r = Some d \<and> (d = word0 s \<and> snap s t = version s \<longrightarrow> v = heap s d)
      | _ \<Rightarrow> True)"

text \<open>Whether the operation is past its linearization point, and with which result.\<close>

fun decided :: "'w::len word stack_op \<Rightarrow> ('w word, 'w word option) mpc \<Rightarrow> bool" where
  "decided p (M_done ok r) \<longleftrightarrow> True"
| "decided Op_pop (M_half0 d) \<longleftrightarrow> d = 0"
| "decided Op_pop (M_call d k) \<longleftrightarrow> d = 0"
| "decided p pc \<longleftrightarrow> False"

fun outcome ::
    "'w::len word stack_op \<Rightarrow> ('w word, 'w word option) mpc \<Rightarrow> 'w word stack_result" where
  "outcome p (M_done ok r) = stack_return p r"
| "outcome p pc = Found_empty"

definition phase_ok :: "tid \<Rightarrow> 'w::len word ssys \<Rightarrow> bool" where
  "phase_ok t s \<longleftrightarrow>
     phase (hist s) t =
       (case thr s t of
          None \<Rightarrow> Idle
        | Some (p, pc) \<Rightarrow> if decided p pc then Decided p (outcome p pc) else Called p)"

definition stack_inv ::
    "PlatformABASolution \<Rightarrow> ('w::len word \<Rightarrow> tid option) \<Rightarrow> 'w word ssys \<Rightarrow> 'w word list \<Rightarrow> bool" where
  "stack_inv sol own s xs \<longleftrightarrow>
     aba_inv sol s
     \<and> chain (heap s) (word0 s) xs
     \<and> (\<forall>x \<in> set xs. owner s x = None)
     \<and> owner s 0 = None
     \<and> {a. owner s a \<noteq> None} \<union> set xs = {a. own a \<noteq> None}
     \<and> spec_run [] (lins (hist s)) = Some xs
     \<and> (\<forall>t p pc. thr s t = Some (p, pc) \<longrightarrow> op_ok t p pc s)
     \<and> (\<forall>t. phase_ok t s)"

lemma stack_invD:
  assumes "stack_inv sol own s xs"
  shows "aba_inv sol s" "chain (heap s) (word0 s) xs" "x \<in> set xs \<Longrightarrow> owner s x = None"
    "owner s 0 = None" "{a. owner s a \<noteq> None} \<union> set xs = {a. own a \<noteq> None}"
    "spec_run [] (lins (hist s)) = Some xs"
    "thr s t = Some (p, pc) \<Longrightarrow> op_ok t p pc s" "phase_ok t s"
  using assms by (auto simp: stack_inv_def)

lemma stack_inv_top_unowned: "stack_inv sol own s xs \<Longrightarrow> owner s (word0 s) = None"
  by (cases xs) (auto simp: stack_inv_def)

lemma stack_inv_init:
  assumes "own 0 = None"
  shows "stack_inv sol own (ssys_init sol links own) []"
  using assms
  by (simp add: stack_inv_def ssys_init_def aba_init_def aba_inv_def counter_ok_def phase_ok_def)

subsection \<open>Steps of the other threads\<close>

text \<open>
  What every action of thread \<open>t\<close> guarantees to the operations of the others: it writes
  only blocks \<open>t\<close> holds, takes no block from another thread, and either leaves the top
  alone or increases the version.
\<close>

definition guar :: "tid \<Rightarrow> 'w::len word ssys \<Rightarrow> 'w word ssys \<Rightarrow> bool" where
  "guar t s s' \<longleftrightarrow>
     (\<forall>a. owner s a \<noteq> Some t \<longrightarrow> heap s' a = heap s a)
     \<and> (\<forall>u a. u \<noteq> t \<longrightarrow> owner s a = Some u \<longrightarrow> owner s' a = Some u)
     \<and> (\<forall>u. u \<noteq> t \<longrightarrow> snap s' u = snap s u \<and> thr s' u = thr s u)
     \<and> (version s' = version s \<and> word0 s' = word0 s \<or> version s < version s')"

lemma op_ok_other:
  assumes "guar t s s'" and "u \<noteq> t" and "op_ok u q upc s"
    and "owner s (word0 s) = None" and "snap s u \<le> version s"
  shows "op_ok u q upc s'"
proof (cases q)
  case (Op_push b)
  with assms show ?thesis by (auto simp: guar_def split: mpc.splits)
next
  case Op_pop
  with assms show ?thesis by (auto simp: guar_def split: mpc.splits)
qed

lemma phase_ok_other:
  assumes "phase_ok u s" and "thr s' u = thr s u"
    and "hist s' = hist s \<or> (\<exists>r. hist s' = hist s @ [Lin t r]) \<or> (\<exists>p. hist s' = hist s @ [Call t p])
      \<or> (\<exists>r. hist s' = hist s @ [Return t r])"
    and "u \<noteq> t"
  shows "phase_ok u s'"
  using assms by (auto simp: phase_ok_def)

subsection \<open>The step of the thread itself\<close>

lemma lin_point_decided:
  assumes "modify_step sol (stack_ops p) t e pc s = (pc', s')"
    and "thread_ok sol t pc s" and "\<And>d k v r. p = Op_pop \<Longrightarrow> pc = M_cas d k v r \<Longrightarrow> r \<noteq> None"
  shows "case lin_point p pc pc' of
      None \<Rightarrow> decided p pc' = decided p pc
        \<and> (decided p pc \<longrightarrow> outcome p pc' = outcome p pc)
    | Some r \<Rightarrow> \<not> decided p pc \<and> decided p pc' \<and> outcome p pc' = r \<and> fits p r"
proof (cases p)
  case (Op_push b)
  with assms show ?thesis
    by (cases sol; cases pc)
      (auto simp: modify_step_def push_modifier_def thread_ok_def split: if_splits env.splits)
next
  case Op_pop
  with assms show ?thesis
    by (cases sol; cases pc)
      (auto simp: modify_step_def pop_modifier_def thread_ok_def Let_def
        split: if_splits env.splits)
qed

text \<open>What a step of \<open>modify\<close> does to the linked list and to the owners of its blocks.\<close>

definition list_step ::
    "tid \<Rightarrow> 'w::len word stack_result option \<Rightarrow> 'w word ssys \<Rightarrow> 'w word list \<Rightarrow>
     ('w word, 'w word links, 'z) aba_scheme \<Rightarrow> 'w word list \<Rightarrow> bool" where
  "list_step t l s xs s1 ys \<longleftrightarrow>
     chain (heap s1) (word0 s1) ys
     \<and> (case l of None \<Rightarrow> ys = xs | Some r \<Rightarrow> spec_step xs r = Some ys)
     \<and> (\<forall>b. l = Some (Pushed b) \<longrightarrow> owner s b = Some t)
     \<and> (\<forall>a. owner s a \<noteq> Some t \<longrightarrow> heap s1 a = heap s a)
     \<and> (version s1 = version s \<and> word0 s1 = word0 s \<or> version s < version s1)"

lemma push_list_step:
  assumes inv: "stack_inv sol own s xs" and thr: "thr s t = Some (Op_push b, pc)"
    and step: "modify_step sol (push_modifier b) t e pc s = (pc', s1)"
  shows "\<exists>ys. list_step t (lin_point (Op_push b) pc pc') s xs s1 ys"
proof -
  note ch = stack_invD(2) [OF inv] and ok = stack_invD(7) [OF inv thr]
  from step show ?thesis
  proof (cases rule: modify_step_elim)
    case read
    then show ?thesis
      using ch by (cases pc; cases pc'; auto simp: list_step_def)
  next
    case (call_succeeds d k v h r)
    with ok have own: "owner s b = Some t" by simp
    with stack_invD(3) [OF inv] have "b \<notin> set xs" by force
    moreover from call_succeeds(2,5) have "heap s1 = (heap s)(b := d)"
      by (auto simp: push_modifier_def)
    ultimately show ?thesis
      using call_succeeds(1,3,4,6) ch own by (auto simp: list_step_def)
  next
    case (commit d k v r)
    have "word0 s = d"
      by (rule commit_data [OF step [unfolded commit(1,2)]
            aba_invD(3) [OF stack_invD(1) [OF inv] thr [unfolded commit(1)]]])
    with commit ok ch show ?thesis by (auto simp: list_step_def)
  next
    case (finished b r)
    then show ?thesis using ch by (auto simp: list_step_def)
  qed (simp add: push_modifier_def)
qed

lemma pop_list_step:
  assumes inv: "stack_inv sol own s xs" and thr: "thr s t = Some (Op_pop, pc)"
    and fr: "sol = DWCAS \<Longrightarrow> fresh s"
    and step: "modify_step sol pop_modifier t e pc s = (pc', s1)"
  shows "\<exists>ys. list_step t (lin_point Op_pop pc pc') s xs s1 ys"
proof -
  note ch = stack_invD(2) [OF inv] and ok = stack_invD(7) [OF inv thr]
  from step show ?thesis
  proof (cases rule: modify_step_elim)
    case read
    show ?thesis
    proof (cases "observed pc pc' = Some 0")
      case True
      with observed_is_current [OF step True] ch have "xs = []" by simp
      with True read ch show ?thesis
        by (cases pc; cases pc'; auto simp: list_step_def)
    next
      case False
      with read ch show ?thesis by (cases pc; cases pc'; auto simp: list_step_def)
    qed
  next
    case (call_fails d k h r)
    with ch show ?thesis by (auto simp: list_step_def pop_modifier_def Let_def split: if_splits)
  next
    case (call_succeeds d k v h r)
    with ch show ?thesis by (auto simp: list_step_def pop_modifier_def Let_def split: if_splits)
  next
    case (commit d k v r)
    have "word0 s = d \<and> snap s t = version s"
      using commit_replaces_snapshot [OF stack_invD(1) [OF inv] fr thr [unfolded commit(1)],
          of stack_ops e r] step
      by (simp add: step_op_def commit)
    moreover from this ok commit have "v = heap s d" "d \<noteq> 0" "r = Some d" by auto
    moreover from this calculation(1) ch obtain ys where "xs = d # ys" "chain (heap s) (heap s d) ys"
      by (auto simp: chain_non_null)
    ultimately show ?thesis using commit by (auto simp: list_step_def)
  next
    case (finished b r)
    then show ?thesis using ch by (auto simp: list_step_def)
  qed
qed

lemma step_list_step:
  assumes "stack_inv sol own s xs" and "thr s t = Some (p, pc)" and "sol = DWCAS \<Longrightarrow> fresh s"
    and "modify_step sol (stack_ops p) t e pc s = (pc', s1)"
  shows "\<exists>ys. list_step t (lin_point p pc pc') s xs s1 ys"
  using assms push_list_step [of sol own s xs t _ pc e pc' s1]
    pop_list_step [of sol own s xs t pc e pc' s1]
  by (cases p) auto

text \<open>The step keeps what is needed of its own operation.\<close>

lemma op_ok_own:
  assumes ok: "op_ok t p pc s" and step: "modify_step sol (stack_ops p) t e pc s = (pc', s1)"
    and s': "heap s' = heap s1" "word0 s' = word0 s1" "snap s' = snap s1" "version s' = version s1"
      "owner s' = owner_after t (lin_point p pc pc') (owner s)"
  shows "op_ok t p pc' s'"
proof (cases p)
  case (Op_push b)
  from step show ?thesis
    by (cases rule: modify_step_elim; insert ok s' Op_push; cases pc; cases pc')
      (auto simp: push_modifier_def)
next
  case Op_pop
  from step show ?thesis
    by (cases rule: modify_step_elim; insert ok s' Op_pop; cases pc; cases pc')
      (auto simp: pop_modifier_def Let_def split: if_splits)
qed

lemma owner_after_step:
  assumes inv: "stack_inv sol own s xs" and ls: "list_step t l s xs s1 ys"
  defines "o' \<equiv> owner_after t l (owner s)"
  shows "\<forall>x \<in> set ys. o' x = None" and "o' 0 = None"
    and "{a. o' a \<noteq> None} \<union> set ys = {a. own a \<noteq> None}"
    and "u \<noteq> t \<Longrightarrow> owner s a = Some u \<Longrightarrow> o' a = Some u"
proof -
  note ch = stack_invD(2) [OF inv] and un = stack_invD(3) [OF inv]
  have pool: "{a. own a \<noteq> None} = {a. owner s a \<noteq> None} \<union> set xs"
    using stack_invD(5) [OF inv] by simp
  have "(\<forall>x \<in> set ys. o' x = None) \<and> o' 0 = None
    \<and> {a. o' a \<noteq> None} \<union> set ys = {a. own a \<noteq> None}
    \<and> (\<forall>u a. u \<noteq> t \<longrightarrow> owner s a = Some u \<longrightarrow> o' a = Some u)"
  proof (cases l)
    case None
    with ls un stack_invD(4) [OF inv] pool show ?thesis by (auto simp: list_step_def o'_def)
  next
    case (Some r)
    show ?thesis
    proof (cases r)
      case (Pushed b)
      with Some ls have "ys = b # xs" "owner s b = Some t" by (auto simp: list_step_def)
      with Some Pushed un stack_invD(4) [OF inv] show ?thesis
        unfolding pool by (auto simp: o'_def)
    next
      case (Popped b)
      with Some ls have xs: "xs = b # ys"
        by (cases xs) (auto simp: list_step_def split: if_splits)
      with ch have "b \<noteq> 0" "b \<notin> set ys" using chain_distinct [OF ch] by auto
      moreover have "owner s b = None" using un [of b] xs by simp
      ultimately show ?thesis
        using Some Popped un stack_invD(4) [OF inv] xs unfolding pool by (auto simp: o'_def)
    next
      case Found_empty
      with Some ls have "xs = []" "ys = []"
        by (cases xs; auto simp: list_step_def)+
      with Some Found_empty un stack_invD(4) [OF inv] show ?thesis
        unfolding pool by (auto simp: o'_def)
    qed
  qed
  then show "\<forall>x \<in> set ys. o' x = None" "o' 0 = None"
    "{a. o' a \<noteq> None} \<union> set ys = {a. own a \<noteq> None}"
    "u \<noteq> t \<Longrightarrow> owner s a = Some u \<Longrightarrow> o' a = Some u"
    by blast+
qed

lemma phase_ok_own:
  assumes ph: "phase_ok t s" and thr: "thr s t = Some (p, pc)" and thr': "thr s' t = Some (p, pc')"
    and step: "modify_step sol (stack_ops p) t e pc s = (pc', s1)"
    and tok: "thread_ok sol t pc s" and ok: "op_ok t p pc s"
    and hist: "hist s' = hist s @ (case lin_point p pc pc' of None \<Rightarrow> [] | Some r \<Rightarrow> [Lin t r])"
  shows "phase_ok t s'"
proof -
  have "case lin_point p pc pc' of
      None \<Rightarrow> decided p pc' = decided p pc
        \<and> (decided p pc \<longrightarrow> outcome p pc' = outcome p pc)
    | Some r \<Rightarrow> \<not> decided p pc \<and> decided p pc' \<and> outcome p pc' = r \<and> fits p r"
    by (rule lin_point_decided [OF step tok]) (use ok in auto)
  with ph thr thr' hist show ?thesis
    by (auto simp: phase_ok_def split: option.splits)
qed

text \<open>What a step of an operation leaves in the state, the ghosts included.\<close>

lemma ghost_step_fields:
  assumes "modify_step sol f u e pc s = (pc', s1)"
    and "s' = ghost_step t l (s1\<lparr>thr := (thr s1)(t := Some (p, pc'))\<rparr>)"
  shows "owner s' = owner_after t l (owner s)" "heap s' = heap s1" "word0 s' = word0 s1"
    "version s' = version s1" "snap s' = snap s1" "thr s' = (thr s)(t := Some (p, pc'))"
    "hist s' = hist s @ (case l of None \<Rightarrow> [] | Some r \<Rightarrow> [Lin t r])"
proof -
  have "thr s1 = thr s" "owner s1 = owner s" "hist s1 = hist s"
    using assms(1) by (cases sol; cases pc;
      auto simp: modify_step_def split: if_splits env.splits option.splits prod.splits)+
  then show "owner s' = owner_after t l (owner s)" "heap s' = heap s1" "word0 s' = word0 s1"
    "version s' = version s1" "snap s' = snap s1" "thr s' = (thr s)(t := Some (p, pc'))"
    "hist s' = hist s @ (case l of None \<Rightarrow> [] | Some r \<Rightarrow> [Lin t r])"
    by (simp_all add: ghost_step_def assms(2))
qed

lemma stack_inv_step:
  assumes inv: "stack_inv sol own s xs" and thr: "thr s t = Some (p, pc)"
    and fr: "sol = DWCAS \<Longrightarrow> fresh s"
    and step: "step_op sol stack_ops t e p pc s = (pc', s2)"
  shows "\<exists>ys. stack_inv sol own (ghost_step t (lin_point p pc pc') s2) ys"
proof -
  let ?l = "lin_point p pc pc'"
  let ?s = "ghost_step t ?l s2"
  from step obtain s1 where s1: "modify_step sol (stack_ops p) t e pc s = (pc', s1)"
    and s2: "s2 = s1\<lparr>thr := (thr s1)(t := Some (p, pc'))\<rparr>"
    by (rule step_op_parts)
  obtain ys where ls: "list_step t ?l s xs s1 ys"
    using step_list_step [OF inv thr fr s1] by blast
  note oa = owner_after_step [OF inv ls]
  note f = ghost_step_fields [OF s1, of ?s t ?l p, folded s2, OF refl]
  have guar: "guar t s ?s"
    using ls oa(4) modify_step_snap(2) [OF s1] unfolding guar_def f list_step_def by auto
  have "aba_inv sol ?s"
    using aba_inv_step [OF stack_invD(1) [OF inv] thr step]
    by (rule aba_inv_frame) (simp_all add: ghost_step_def)
  moreover have "chain (heap ?s) (word0 ?s) ys"
    using ls unfolding f list_step_def by simp
  moreover have "\<forall>x \<in> set ys. owner ?s x = None" "owner ?s 0 = None"
    "{a. owner ?s a \<noteq> None} \<union> set ys = {a. own a \<noteq> None}"
    unfolding f by (rule oa)+
  moreover have "spec_run [] (lins (hist ?s)) = Some ys"
    using ls stack_invD(6) [OF inv] unfolding f list_step_def by (auto split: option.splits)
  moreover have "op_ok u q upc ?s" if "thr ?s u = Some (q, upc)" for u q upc
  proof (cases "u = t")
    case True
    with that f(6) have "q = p" "upc = pc'" by auto
    with True op_ok_own [OF stack_invD(7) [OF inv thr] s1 f(2,3,5,4,1)] show ?thesis by simp
  next
    case False
    with that f(6) have "thr s u = Some (q, upc)" by simp
    from op_ok_other [OF guar False stack_invD(7) [OF inv this]
        stack_inv_top_unowned [OF inv] aba_invD(2) [OF stack_invD(1) [OF inv]]]
    show ?thesis .
  qed
  moreover have "phase_ok u ?s" for u
  proof (cases "u = t")
    case True
    have "thr ?s t = Some (p, pc')" by (simp add: f)
    from phase_ok_own [OF stack_invD(8) [OF inv] thr this s1
        aba_invD(3) [OF stack_invD(1) [OF inv] thr] stack_invD(7) [OF inv thr] f(7)]
    show ?thesis by (simp add: True)
  next
    case False
    show ?thesis
      by (rule phase_ok_other [OF stack_invD(8) [OF inv] _ _ False])
        (use False f(6,7) in \<open>auto split: option.splits\<close>)
  qed
  ultimately show ?thesis unfolding stack_inv_def by blast
qed

subsection \<open>The other actions\<close>

lemma op_ok_excl [simp]: "op_ok t p pc (s\<lparr>excl := x\<rparr>) = op_ok t p pc s"
  by (cases p; cases pc) simp_all

text \<open>An action outside \<open>modify\<close> keeps the abstract stack.\<close>

lemma stack_inv_frame:
  assumes inv: "stack_inv sol own s xs" and guar: "guar t s s'"
    and eq: "word0 s' = word0 s" "word1 s' = word1 s" "version s' = version s" "snap s' = snap s"
    and excl: "\<And>u. excl s' u \<Longrightarrow> excl s u"
    and own: "\<And>a. owner s' a = None \<longleftrightarrow> owner s a = None"
    and hist: "lins (hist s') = lins (hist s)"
    and thr: "\<And>p pc. thr s' t = Some (p, pc) \<Longrightarrow>
      op_ok t p pc s' \<and> (thr s t = Some (p, pc) \<or> pc = M_load)"
    and phase: "\<And>u. phase_ok u s'"
  shows "stack_inv sol own s' xs"
proof -
  have un: "owner s x \<noteq> Some t" if "x \<in> set xs" for x
    using stack_invD(3) [OF inv that] by simp
  have "chain (heap s') (word0 s') xs"
    using stack_invD(2) [OF inv] guar un chain_cong [of xs "heap s'" "heap s" "word0 s"]
    by (simp add: eq guar_def)
  moreover have "thr s u = Some (p, pc) \<or> pc = M_load" if "thr s' u = Some (p, pc)" for u p pc
    using that thr guar by (cases "u = t") (auto simp: guar_def)
  then have "aba_inv sol s'"
    by (intro aba_inv_frame [OF stack_invD(1) [OF inv] eq excl]) auto
  moreover have "op_ok u p pc s'" if u: "thr s' u = Some (p, pc)" for u p pc
  proof (cases "u = t")
    case True
    with thr u show ?thesis by auto
  next
    case False
    with u guar have "thr s u = Some (p, pc)" by (simp add: guar_def)
    from op_ok_other [OF guar False stack_invD(7) [OF inv this]
        stack_inv_top_unowned [OF inv] aba_invD(2) [OF stack_invD(1) [OF inv]]]
    show ?thesis .
  qed
  ultimately show ?thesis
    using stack_invD(3-6) [OF inv] phase hist own by (simp add: stack_inv_def)
qed

text \<open>Whatever a racing read returns, it is never stored: the block it came from is not the top,
  and by the time it is the top again the version has moved on.\<close>

lemma stack_inv_stale_read:
  assumes inv: "stack_inv sol own s xs" and thr: "thr s t = Some (Op_pop, M_call d k)"
    and d: "d \<noteq> 0" "owner s d \<noteq> None"
    and s': "s' = s\<lparr>thr := (thr s)(t := Some (Op_pop, M_cas d k v (Some d)))\<rparr>"
  shows "stack_inv sol own s' xs"
proof -
  have "d \<noteq> word0 s" using d(2) stack_inv_top_unowned [OF inv] by auto
  moreover have "thread_ok sol t (M_cas d k v (Some d)) s'"
    using aba_invD(3) [OF stack_invD(1) [OF inv] thr] by (simp add: thread_ok_def s')
  moreover have "aba_inv sol s" by (rule stack_invD(1) [OF inv])
  ultimately have "aba_inv sol s'" and "op_ok t Op_pop (M_cas d k v (Some d)) s'"
    using d by (auto simp: aba_inv_def s' counter_ok_def thread_ok_def)
  moreover have "op_ok u q upc s'" if "u \<noteq> t" "thr s u = Some (q, upc)" for u q upc
    using stack_invD(7) [OF inv that(2)] by (cases q) (auto simp: s' split: mpc.splits)
  moreover have "phase_ok u s'" for u
    using stack_invD(8) [OF inv, of u] thr d(1) by (auto simp: phase_ok_def s')
  ultimately show ?thesis
    using stack_invD(2-6) [OF inv] by (auto simp: stack_inv_def s')
qed

text \<open>The calls and returns, context switches, and what the client does with its blocks.\<close>

lemma stack_inv_outside:
  assumes inv: "stack_inv sol own s xs" and act: "act sol a s = Some s'"
    and a: "\<And>t e. a \<noteq> Step t e" "\<And>t v. a \<noteq> Stale_read t v"
  shows "stack_inv sol own s' xs"
proof -
  have ph: "phase_ok u s" for u by (rule stack_invD(8) [OF inv])
  show ?thesis
    using act
  proof (cases rule: act_elim)
    case (null t)
    with inv show ?thesis by simp
  next
    case (push t b)
    then show ?thesis
      by (intro stack_inv_frame [OF inv, of t])
        (use ph in \<open>auto simp: begin_op_def guar_def phase_ok_def split: if_splits\<close>)
  next
    case (pop t)
    then show ?thesis
      by (intro stack_inv_frame [OF inv, of t])
        (use ph in \<open>auto simp: begin_op_def guar_def phase_ok_def split: if_splits\<close>)
  next
    case (returned t p ok r)
    then show ?thesis
      by (intro stack_inv_frame [OF inv, of t])
        (use ph in \<open>auto simp: end_op_def guar_def phase_ok_def split: if_splits\<close>)
  next
    case (switched t)
    then show ?thesis
      by (intro stack_inv_frame [OF inv, of t])
        (use ph stack_invD(7) [OF inv] in \<open>auto simp: lose_monitor_def guar_def phase_ok_def
          split: if_splits\<close>)
  next
    case (written t c v)
    then show ?thesis
      by (intro stack_inv_frame [OF inv, of t]) (use ph in \<open>auto simp: guar_def phase_ok_def\<close>)
  next
    case (handed t u c)
    then show ?thesis
      by (intro stack_inv_frame [OF inv, of t]) (use ph in \<open>auto simp: guar_def phase_ok_def\<close>)
  qed (use a in simp_all)
qed

lemma stack_inv_act:
  assumes inv: "stack_inv sol own s xs" and fr: "sol = DWCAS \<Longrightarrow> fresh s"
    and act: "act sol a s = Some s'"
  shows "\<exists>ys. stack_inv sol own s' ys"
  using act
proof (cases rule: act_elim)
  case (step t e p pc pc' s2)
  with stack_inv_step [OF inv step(2) fr step(3)] show ?thesis by simp
next
  case (stale t v d k)
  with stack_inv_stale_read [OF inv stale(2-5)] show ?thesis by blast
qed (use stack_inv_outside [OF inv act] in blast)+

section \<open>Reachable states\<close>

lemma reach_stack_inv:
  assumes "reach sol links own s" and "own 0 = None"
  shows "\<exists>xs. stack_inv sol own s xs"
  using assms
proof (induction rule: reach.induct)
  case init
  then show ?case using stack_inv_init by blast
next
  case (step s a s')
  then show ?case using stack_inv_act by blast
qed

text \<open>No action adds more than one to the version, so a short execution is fresh.\<close>

lemma act_version:
  assumes "act sol a s = Some s'"
  shows "version s' \<le> Suc (version s)"
  using assms
proof (cases rule: act_elim)
  case (step t e p pc pc' s2)
  from step(3) obtain s1 where "modify_step sol (stack_ops p) t e pc s = (pc', s1)"
    and "version s2 = version s1" by (rule step_op_parts) simp
  with step(4) show ?thesis by (auto simp: ghost_step_def elim!: modify_step_elim)
qed (simp_all add: step_defs)

lemma run_reach:
  assumes "run sol as s = Some s'" and "reach sol links own s"
    and "sol = DWCAS \<Longrightarrow> version s + length as \<le> 2 ^ LENGTH('w)"
  shows "reach sol links (own :: 'w::len word \<Rightarrow> tid option) s'"
  using assms
proof (induction as arbitrary: s)
  case Nil
  then show ?case by simp
next
  case (Cons a as)
  then obtain s1 where a: "act sol a s = Some s1" and rest: "run sol as s1 = Some s'"
    by (auto split: option.splits)
  have "fresh s" if "sol = DWCAS"
    using Cons.prems(3) [OF that] by (intro fresh_small_version) simp
  then have "reach sol links own s1"
    using reach.step [OF Cons.prems(2) _ a] by blast
  moreover have "version s1 + length as \<le> 2 ^ LENGTH('w)" if "sol = DWCAS"
    using act_version [OF a] Cons.prems(3) [OF that] by simp
  ultimately show ?case using Cons.IH [OF rest] by blast
qed

section \<open>A concrete execution\<close>

text \<open>
  Two threads on 32-bit words: both push, with their steps interleaved so that the second
  compare-and-swap of thread 1 is a retry, then thread 0 pops with a torn load.
\<close>

definition demo_owner :: "u32 \<Rightarrow> tid option" where
  "demo_owner a = (if a = 16 then Some 0 else if a = 32 then Some 1 else None)"

definition demo_actions :: "u32 action list" where
  "demo_actions =
     [Begin_push 0 16, Step 0 Whole, Begin_push 1 32, Step 1 Whole, Step 0 Whole, Step 1 Whole,
      Step 0 Whole, Step 1 Whole, Step 1 Whole, Step 1 Whole, End 0, End 1,
      Begin_pop 0, Step 0 Low_first, Step 0 Whole, Step 0 Whole, Step 0 Whole]"

lemmas stack_eval =
  demo_actions_def demo_owner_def ssys_init_def aba_init_def push_entry_def begin_op_def
  step_op_def modify_step_def push_modifier_def pop_modifier_def ghost_step_def end_op_def
  lose_monitor_def Let_def

lemma demo_run:
  "\<exists>s. run DWCAS demo_actions (ssys_init DWCAS (\<lambda>_. 0) demo_owner) = Some s
     \<and> lins (hist s) = [Pushed 16, Pushed 32, Popped 32] \<and> word0 s = 16 \<and> word1 s = 4
     \<and> thr s 0 = Some (Op_pop, M_done True (Some 32))"
  by (simp add: stack_eval)

lemma demo_reach:
  "\<exists>s. reach DWCAS (\<lambda>_. 0) demo_owner s
     \<and> lins (hist s) = [Pushed 16, Pushed 32, Popped 32] \<and> word0 s = 16
     \<and> thr s 0 = Some (Op_pop, M_done True (Some 32))"
proof -
  obtain s where s: "run DWCAS demo_actions (ssys_init DWCAS (\<lambda>_. 0) demo_owner) = Some s"
    "lins (hist s) = [Pushed 16, Pushed 32, Popped 32]" "word0 s = 16"
    "thr s 0 = Some (Op_pop, M_done True (Some 32))"
    using demo_run by blast
  have "reach DWCAS (\<lambda>_. 0) demo_owner s"
    by (rule run_reach [OF s(1) reach.init])
      (simp add: demo_actions_def ssys_init_def aba_init_def)
  with s show ?thesis by blast
qed

text \<open>Thread 0 pushes a block, thread 1 begins to pop it, thread 2 pops it and writes to it.\<close>

definition foreign_actions :: "u32 action list" where
  "foreign_actions =
     [Begin_push 0 16, Step 0 Whole, Step 0 Whole, Step 0 Whole, End 0,
      Begin_pop 1, Step 1 Whole,
      Begin_pop 2, Step 2 Whole, Step 2 Whole, Step 2 Whole, End 2, Write 2 16 99]"

lemma foreign_run:
  "\<exists>s. run DWCAS foreign_actions (ssys_init DWCAS (\<lambda>_. 0) demo_owner) = Some s
     \<and> thr s 1 = Some (Op_pop, M_call 16 2) \<and> owner s 16 = Some 2 \<and> heap s 16 = 99"
  by (simp add: stack_eval foreign_actions_def)

section \<open>Properties\<close>

text \<open>C1. Linearizability. In every reachable state, on both kinds of platform, the
  linearization points taken in their order are a legal history of a sequential stack that
  starts empty, the memory holds exactly the resulting stack as a linked list, and every
  thread's calls, linearization points and returns alternate with matching results. That
  \<open>pop\<close> reads links of blocks other threads are writing to does no harm: such a read may
  return any value. On DWCAS the executions of \<open>reach\<close> are those in which the counter makes no
  whole turn during an attempt in progress.\<close>

theorem stack_linearizable:
  assumes "reach sol links own s" and "own 0 = None"
  shows "\<exists>xs. spec_run [] (lins (hist s)) = Some xs \<and> chain (heap s) (word0 s) xs
    \<and> (\<forall>t. phase (hist s) t \<noteq> Wrong)"
proof -
  obtain xs where inv: "stack_inv sol own s xs" using reach_stack_inv [OF assms] by blast
  have "phase (hist s) t \<noteq> Wrong" for t
    using stack_invD(8) [OF inv, of t] by (auto simp: phase_ok_def split: option.splits)
  with stack_invD(2,6) [OF inv] show ?thesis by blast
qed

theorem stack_linearizable_witness:
  "\<exists>s xs. reach DWCAS (\<lambda>_. 0) demo_owner s
     \<and> lins (hist s) = [Pushed 16, Pushed 32, Popped 32]
     \<and> spec_run [] (lins (hist s)) = Some xs \<and> chain (heap s) (word0 s) xs \<and> xs = [16]"
proof -
  obtain s where s: "reach DWCAS (\<lambda>_. 0) demo_owner s"
    "lins (hist s) = [Pushed 16, Pushed 32, Popped 32]"
    using demo_reach by blast
  have "demo_owner 0 = None" by (simp add: demo_owner_def)
  from stack_linearizable [OF s(1) this] obtain xs where
    "spec_run [] (lins (hist s)) = Some xs" "chain (heap s) (word0 s) xs"
    by blast
  with s show ?thesis by (intro exI [of _ s] exI [of _ xs]) simp
qed

text \<open>C6. No block is lost or duplicated: at every moment the blocks are partitioned into
  those in the linked list, which has no repetition, and those some thread holds; on DWCAS as
  long as the counter makes no whole turn during an attempt in progress.\<close>

theorem stack_conserves_blocks:
  assumes "reach sol links own s" and "own 0 = None"
  shows "\<exists>xs. chain (heap s) (word0 s) xs \<and> distinct xs
    \<and> set xs \<inter> {a. owner s a \<noteq> None} = {}
    \<and> set xs \<union> {a. owner s a \<noteq> None} = {a. own a \<noteq> None}"
proof -
  obtain xs where inv: "stack_inv sol own s xs" using reach_stack_inv [OF assms] by blast
  with chain_distinct [OF stack_invD(2) [OF inv]] show ?thesis
    by (intro exI [of _ xs]) (auto simp: stack_inv_def)
qed

theorem stack_conserves_blocks_witness:
  "\<exists>s xs. reach DWCAS (\<lambda>_. 0) demo_owner s \<and> chain (heap s) (word0 s) xs
     \<and> set xs \<union> {a. owner s a \<noteq> None} = {16, 32 :: u32}"
proof -
  obtain s where s: "reach DWCAS (\<lambda>_. 0) demo_owner s" using demo_reach by blast
  have "{a. demo_owner a \<noteq> None} = {16, 32}" by (auto simp: demo_owner_def)
  with stack_conserves_blocks [OF s] s show ?thesis by (auto simp: demo_owner_def)
qed

text \<open>C7. A popped block goes to one thread: two calls of pop that have both obtained the
  same non-null block and have not returned yet are the same call; on DWCAS as long as the
  counter makes no whole turn during an attempt in progress.\<close>

theorem pop_exclusive:
  assumes "reach sol links own s" and "own 0 = None" and "b \<noteq> 0"
    and "thr s t = Some (Op_pop, M_done ok (Some b))"
    and "thr s u = Some (Op_pop, M_done ok' (Some b))"
  shows "t = u"
proof -
  obtain xs where inv: "stack_inv sol own s xs" using reach_stack_inv [OF assms(1,2)] by blast
  from stack_invD(7) [OF inv assms(4)] stack_invD(7) [OF inv assms(5)] assms(3)
  have "owner s b = Some t" "owner s b = Some u" by simp_all
  then show ?thesis by simp
qed

theorem pop_exclusive_witness:
  "\<exists>s. reach DWCAS (\<lambda>_. 0) demo_owner s
     \<and> {t. thr s t = Some (Op_pop, M_done True (Some 32))} = {0}"
proof -
  obtain s where s: "reach DWCAS (\<lambda>_. 0) demo_owner s"
    "thr s 0 = Some (Op_pop, M_done True (Some 32))"
    using demo_reach by blast
  have "t = 0" if "thr s t = Some (Op_pop, M_done True (Some 32))" for t
    by (rule pop_exclusive [OF s(1) _ _ that s(2)]) (simp_all add: demo_owner_def)
  with s show ?thesis by blast
qed

text \<open>With a counter of \<open>w\<close> bits every execution of at most \<open>2 ^ w\<close> actions is
  linearizable, without any further assumption on the counter.\<close>

lemma stack_short_runs:
  assumes "run sol as (ssys_init sol links own) = Some s" and "own 0 = None"
    and "length as \<le> 2 ^ LENGTH('w)"
  shows "\<exists>xs. spec_run [] (lins (hist s)) = Some xs
    \<and> chain (heap s) (word0 s) (xs :: 'w::len word list)"
proof -
  have "reach sol links own s"
    by (rule run_reach [OF assms(1) reach.init])
      (use assms(3) in \<open>simp add: ssys_init_def aba_init_def\<close>)
  from reach_stack_inv [OF this assms(2)] show ?thesis
    by (auto simp: stack_inv_def)
qed

text \<open>C30. The price of reading the link before the compare-and-swap: a \<open>pop\<close> can be about to
  read the first word of a block that another thread has popped in the meantime, owns and
  has overwritten. It may read the new value or, the two accesses being unordered, any other
  one. The read value is discarded, as the other properties show, but the memory of a popped
  block must stay readable.\<close>

theorem pop_reads_foreign_block:
  "\<exists>s k. reach DWCAS (\<lambda>_. 0) demo_owner s
     \<and> thr s 1 = Some (Op_pop, M_call 16 k) \<and> owner s 16 = Some 2 \<and> heap s 16 = 99
     \<and> (\<exists>s'. act DWCAS (Step 1 Whole) s = Some s'
           \<and> thr s' 1 = Some (Op_pop, M_cas 16 k 99 (Some 16)))
     \<and> (\<forall>v. \<exists>s'. act DWCAS (Stale_read 1 v) s = Some s'
           \<and> thr s' 1 = Some (Op_pop, M_cas 16 k v (Some 16)))"
proof -
  obtain s where run: "run DWCAS foreign_actions (ssys_init DWCAS (\<lambda>_. 0) demo_owner) = Some s"
    and s: "thr s 1 = Some (Op_pop, M_call 16 2)" "owner s 16 = Some 2" "heap s 16 = 99"
    using foreign_run by blast
  have "reach DWCAS (\<lambda>_. 0) demo_owner s"
    by (rule run_reach [OF run reach.init])
      (simp add: foreign_actions_def ssys_init_def aba_init_def)
  moreover have "\<exists>s'. act DWCAS (Step 1 Whole) s = Some s'
      \<and> thr s' 1 = Some (Op_pop, M_cas 16 2 99 (Some 16))"
    using s by (simp add: step_op_def modify_step_def pop_modifier_def ghost_step_def Let_def)
  moreover have "\<exists>s'. act DWCAS (Stale_read 1 v) s = Some s'
      \<and> thr s' 1 = Some (Op_pop, M_cas 16 2 v (Some 16))" for v
    using s by simp
  ultimately show ?thesis using s by blast
qed

end
