(* ===== verification/Atomic.thy ===== *)
theory Atomic
  imports Platform
begin

text \<open>
  The class template \<open>Atomic\<close> of \<open>atomic.hpp\<close>: the memory orders and the concepts that
  restrict them, and every operation on one atomic object. An atomic object holds its
  value and the release heads its value carries; a thread holds three views. The views
  make the memory order arguments of the operations observable: they record which plain
  writes of other threads happen before the thread's next action.
\<close>

section \<open>Memory orders\<close>

datatype AtomicMemoryOrder = RELAXED | CONSUME | ACQUIRE | RELEASE | ACQ_REL | SEQ_CST

text \<open>The compiler's predefined \<open>__ATOMIC_*\<close> constants, as \<open>memorder\<close> casts them.\<close>

fun memorder :: "AtomicMemoryOrder \<Rightarrow> int" where
  "memorder RELAXED = 0"
| "memorder CONSUME = 1"
| "memorder ACQUIRE = 2"
| "memorder RELEASE = 3"
| "memorder ACQ_REL = 4"
| "memorder SEQ_CST = 5"

text \<open>The numbers order the memory orders, weakest first.\<close>

instantiation AtomicMemoryOrder :: linorder
begin

definition less_eq_AtomicMemoryOrder :: "AtomicMemoryOrder \<Rightarrow> AtomicMemoryOrder \<Rightarrow> bool" where
  "less_eq_AtomicMemoryOrder a b \<longleftrightarrow> memorder a \<le> memorder b"

definition less_AtomicMemoryOrder :: "AtomicMemoryOrder \<Rightarrow> AtomicMemoryOrder \<Rightarrow> bool" where
  "less_AtomicMemoryOrder a b \<longleftrightarrow> memorder a < memorder b"

instance
proof
  fix a b :: AtomicMemoryOrder
  assume "a \<le> b" and "b \<le> a"
  then show "a = b" by (cases a; cases b) (simp_all add: less_eq_AtomicMemoryOrder_def)
qed (auto simp: less_eq_AtomicMemoryOrder_def less_AtomicMemoryOrder_def)

end

definition AtomicMemoryOrderAcquireConsume :: "AtomicMemoryOrder \<Rightarrow> bool" where
  "AtomicMemoryOrderAcquireConsume mo \<longleftrightarrow> mo = ACQUIRE \<or> mo = CONSUME"

definition AtomicMemoryOrderLoad :: "AtomicMemoryOrder \<Rightarrow> bool" where
  "AtomicMemoryOrderLoad mo \<longleftrightarrow>
     mo = RELAXED \<or> mo = SEQ_CST \<or> mo = ACQUIRE \<or> mo = CONSUME"

definition AtomicMemoryOrderStore :: "AtomicMemoryOrder \<Rightarrow> bool" where
  "AtomicMemoryOrderStore mo \<longleftrightarrow> mo = RELAXED \<or> mo = SEQ_CST \<or> mo = RELEASE"

definition AtomicMemoryOrderCompareExchange ::
    "AtomicMemoryOrder \<Rightarrow> AtomicMemoryOrder \<Rightarrow> bool" where
  "AtomicMemoryOrderCompareExchange success failure \<longleftrightarrow>
     failure = RELAXED
     \<or> (failure = CONSUME
        \<and> (success = SEQ_CST \<or> success = ACQUIRE \<or> success = ACQ_REL \<or> success = RELEASE
           \<or> success = CONSUME))
     \<or> (failure = ACQUIRE
        \<and> (success = SEQ_CST \<or> success = ACQUIRE \<or> success = ACQ_REL \<or> success = RELEASE))
     \<or> (failure = SEQ_CST \<and> success = SEQ_CST)"

section \<open>Views\<close>

text \<open>
  A view is a set of plain (non-atomic) writes, numbered by the client. \<open>v_cur\<close> is what
  happens before the thread's next action, \<open>v_acq\<close> what an acquire fence would add (the
  views read by relaxed loads included), \<open>v_rel\<close> what the last release fence published.
\<close>

type_synonym view = "nat set"

record tview =
  v_cur :: view
  v_acq :: view
  v_rel :: view

definition tview_init :: tview where
  "tview_init = \<lparr>v_cur = {}, v_acq = {}, v_rel = {}\<rparr>"

text \<open>
  An atomic object: the member \<open>atomic\<close> of the class template, and the heads of the
  release sequences its current value belongs to, each with the thread that wrote it and
  the view it published.
\<close>

record 'v cell =
  atomic :: 'v
  heads :: "(tid \<times> view) list"

fun joined :: "(tid \<times> view) list \<Rightarrow> view" where
  "joined [] = {}"
| "joined ((_, v) # hs) = v \<union> joined hs"

text \<open>
  The language rule for release sequences. Until C++17 a later plain store by the thread
  of the head continues the sequence; since C++20 only read-modify-write operations do.
  The build sets \<open>CMAKE_CXX_STANDARD 20\<close>.
\<close>

datatype cxx_std = CXX17 | CXX20

fun continued_by_store :: "cxx_std \<Rightarrow> tid \<Rightarrow> (tid \<times> view) list \<Rightarrow> (tid \<times> view) list" where
  "continued_by_store CXX17 t hs = filter (\<lambda>h. fst h = t) hs"
| "continued_by_store CXX20 t hs = []"

text \<open>GCC implements consume as acquire, so a consuming read is an acquiring one.\<close>

definition acquires :: "AtomicMemoryOrder \<Rightarrow> bool" where
  "acquires mo \<longleftrightarrow> mo = CONSUME \<or> mo = ACQUIRE \<or> mo = ACQ_REL \<or> mo = SEQ_CST"

definition releases :: "AtomicMemoryOrder \<Rightarrow> bool" where
  "releases mo \<longleftrightarrow> mo = RELEASE \<or> mo = ACQ_REL \<or> mo = SEQ_CST"

definition after_read :: "AtomicMemoryOrder \<Rightarrow> 'v cell \<Rightarrow> tview \<Rightarrow> tview" where
  "after_read mo c tv =
     tv\<lparr>v_cur := (if acquires mo then v_cur tv \<union> joined (heads c) else v_cur tv),
        v_acq := v_acq tv \<union> joined (heads c)\<rparr>"

definition published :: "AtomicMemoryOrder \<Rightarrow> tview \<Rightarrow> view" where
  "published mo tv = (if releases mo then v_cur tv else v_rel tv)"

section \<open>Operations\<close>

text \<open>
  An operation of thread \<open>t\<close> maps the thread's view and the object to a result and the
  new pair. The compiler barriers around every builtin have no effect on this state.
\<close>

type_synonym 'v astate = "tview \<times> 'v cell"

definition load :: "AtomicMemoryOrder \<Rightarrow> 'v astate \<Rightarrow> 'v \<times> 'v astate" where
  "load mo s = (case s of (tv, c) \<Rightarrow> (atomic c, (after_read mo c tv, c)))"

definition store ::
    "cxx_std \<Rightarrow> AtomicMemoryOrder \<Rightarrow> tid \<Rightarrow> 'v \<Rightarrow> 'v astate \<Rightarrow> 'v astate" where
  "store std mo t v s =
     (case s of (tv, c) \<Rightarrow>
       (tv, c\<lparr>atomic := v,
              heads := (t, published mo tv) # continued_by_store std t (heads c)\<rparr>))"

text \<open>The constructor from a value is a relaxed store into the uninitialised object.\<close>

definition Atomic_init :: "cxx_std \<Rightarrow> tid \<Rightarrow> 'v \<Rightarrow> 'v astate \<Rightarrow> 'v astate" where
  "Atomic_init std t v s = store std RELAXED t v s"

text \<open>A read-modify-write: read, apply the operation, write; it continues every release
  sequence the value it read belongs to.\<close>

definition rmw ::
    "AtomicMemoryOrder \<Rightarrow> tid \<Rightarrow> ('v \<Rightarrow> 'v) \<Rightarrow> 'v astate \<Rightarrow> 'v \<times> 'v astate" where
  "rmw mo t f s =
     (case s of (tv, c) \<Rightarrow>
       let tv' = after_read mo c tv in
       (atomic c, (tv', c\<lparr>atomic := f (atomic c),
                          heads := (t, published mo tv') # heads c\<rparr>)))"

definition exchange ::
    "AtomicMemoryOrder \<Rightarrow> tid \<Rightarrow> 'v \<Rightarrow> 'v astate \<Rightarrow> 'v \<times> 'v astate" where
  "exchange mo t v s = rmw mo t (\<lambda>_. v) s"

text \<open>
  Both compare-exchange operations return the success flag and the new value of the
  reference argument \<open>expected\<close>. The weak one may fail although the values agree; which
  attempts do is the argument \<open>spurious\<close>.
\<close>

definition compare_exchange_weak ::
    "AtomicMemoryOrder \<Rightarrow> AtomicMemoryOrder \<Rightarrow> bool \<Rightarrow> tid \<Rightarrow> 'v \<Rightarrow> 'v \<Rightarrow>
     'v astate \<Rightarrow> bool \<times> 'v \<times> 'v astate" where
  "compare_exchange_weak success failure spurious t expected desired s =
     (case s of (tv, c) \<Rightarrow>
       if atomic c = expected \<and> \<not> spurious
       then (True, expected, snd (rmw success t (\<lambda>_. desired) s))
       else (False, atomic c, (after_read failure c tv, c)))"

definition compare_exchange_strong ::
    "AtomicMemoryOrder \<Rightarrow> AtomicMemoryOrder \<Rightarrow> tid \<Rightarrow> 'v \<Rightarrow> 'v \<Rightarrow>
     'v astate \<Rightarrow> bool \<times> 'v \<times> 'v astate" where
  "compare_exchange_strong success failure t expected desired s =
     (case s of (tv, c) \<Rightarrow>
       if atomic c = expected
       then (True, expected, snd (rmw success t (\<lambda>_. desired) s))
       else (False, atomic c, (after_read failure c tv, c)))"

text \<open>The arithmetic and bitwise operations: \<open>fetch_op\<close> returns the value before,
  \<open>op_fetch\<close> the value after.\<close>

definition fetch_add ::
    "AtomicMemoryOrder \<Rightarrow> tid \<Rightarrow> 'w::len word \<Rightarrow> 'w word astate \<Rightarrow> 'w word \<times> 'w word astate" where
  "fetch_add mo t v s = rmw mo t (\<lambda>x. x + v) s"

definition add_fetch ::
    "AtomicMemoryOrder \<Rightarrow> tid \<Rightarrow> 'w::len word \<Rightarrow> 'w word astate \<Rightarrow> 'w word \<times> 'w word astate" where
  "add_fetch mo t v s = (case rmw mo t (\<lambda>x. x + v) s of (old, s') \<Rightarrow> (old + v, s'))"

definition fetch_sub ::
    "AtomicMemoryOrder \<Rightarrow> tid \<Rightarrow> 'w::len word \<Rightarrow> 'w word astate \<Rightarrow> 'w word \<times> 'w word astate" where
  "fetch_sub mo t v s = rmw mo t (\<lambda>x. x - v) s"

definition sub_fetch ::
    "AtomicMemoryOrder \<Rightarrow> tid \<Rightarrow> 'w::len word \<Rightarrow> 'w word astate \<Rightarrow> 'w word \<times> 'w word astate" where
  "sub_fetch mo t v s = (case rmw mo t (\<lambda>x. x - v) s of (old, s') \<Rightarrow> (old - v, s'))"

definition fetch_and ::
    "AtomicMemoryOrder \<Rightarrow> tid \<Rightarrow> 'w::len word \<Rightarrow> 'w word astate \<Rightarrow> 'w word \<times> 'w word astate" where
  "fetch_and mo t v s = rmw mo t (\<lambda>x. x AND v) s"

definition and_fetch ::
    "AtomicMemoryOrder \<Rightarrow> tid \<Rightarrow> 'w::len word \<Rightarrow> 'w word astate \<Rightarrow> 'w word \<times> 'w word astate" where
  "and_fetch mo t v s = (case rmw mo t (\<lambda>x. x AND v) s of (old, s') \<Rightarrow> (old AND v, s'))"

definition fetch_xor ::
    "AtomicMemoryOrder \<Rightarrow> tid \<Rightarrow> 'w::len word \<Rightarrow> 'w word astate \<Rightarrow> 'w word \<times> 'w word astate" where
  "fetch_xor mo t v s = rmw mo t (\<lambda>x. x XOR v) s"

definition xor_fetch ::
    "AtomicMemoryOrder \<Rightarrow> tid \<Rightarrow> 'w::len word \<Rightarrow> 'w word astate \<Rightarrow> 'w word \<times> 'w word astate" where
  "xor_fetch mo t v s = (case rmw mo t (\<lambda>x. x XOR v) s of (old, s') \<Rightarrow> (old XOR v, s'))"

definition fetch_or ::
    "AtomicMemoryOrder \<Rightarrow> tid \<Rightarrow> 'w::len word \<Rightarrow> 'w word astate \<Rightarrow> 'w word \<times> 'w word astate" where
  "fetch_or mo t v s = rmw mo t (\<lambda>x. x OR v) s"

definition or_fetch ::
    "AtomicMemoryOrder \<Rightarrow> tid \<Rightarrow> 'w::len word \<Rightarrow> 'w word astate \<Rightarrow> 'w word \<times> 'w word astate" where
  "or_fetch mo t v s = (case rmw mo t (\<lambda>x. x OR v) s of (old, s') \<Rightarrow> (old OR v, s'))"

definition fetch_nand ::
    "AtomicMemoryOrder \<Rightarrow> tid \<Rightarrow> 'w::len word \<Rightarrow> 'w word astate \<Rightarrow> 'w word \<times> 'w word astate" where
  "fetch_nand mo t v s = rmw mo t (\<lambda>x. NOT (x AND v)) s"

definition nand_fetch ::
    "AtomicMemoryOrder \<Rightarrow> tid \<Rightarrow> 'w::len word \<Rightarrow> 'w word astate \<Rightarrow> 'w word \<times> 'w word astate" where
  "nand_fetch mo t v s =
     (case rmw mo t (\<lambda>x. NOT (x AND v)) s of (old, s') \<Rightarrow> (NOT (old AND v), s'))"

text \<open>The byte operations, for one-byte types only: the set value of GCC is 1.\<close>

definition test_and_set :: "AtomicMemoryOrder \<Rightarrow> tid \<Rightarrow> u8 astate \<Rightarrow> bool \<times> u8 astate" where
  "test_and_set mo t s = (case rmw mo t (\<lambda>_. 1) s of (old, s') \<Rightarrow> (old \<noteq> 0, s'))"

definition clear :: "cxx_std \<Rightarrow> AtomicMemoryOrder \<Rightarrow> tid \<Rightarrow> u8 astate \<Rightarrow> u8 astate" where
  "clear std mo t s = store std mo t 0 s"

text \<open>Fences act on the thread only; a signal fence orders nothing between threads.\<close>

definition atomic_thread_fence :: "AtomicMemoryOrder \<Rightarrow> tview \<Rightarrow> tview" where
  "atomic_thread_fence mo tv =
     (let tv1 = (if acquires mo then tv\<lparr>v_cur := v_acq tv\<rparr> else tv) in
      if releases mo then tv1\<lparr>v_rel := v_cur tv1\<rparr> else tv1)"

definition atomic_signal_fence :: "AtomicMemoryOrder \<Rightarrow> tview \<Rightarrow> tview" where
  "atomic_signal_fence mo tv = tv"

lemmas [atomic_ops] =
  load_def store_def Atomic_init_def rmw_def exchange_def compare_exchange_weak_def
  compare_exchange_strong_def fetch_add_def add_fetch_def fetch_sub_def sub_fetch_def
  fetch_and_def and_fetch_def fetch_xor_def xor_fetch_def fetch_or_def or_fetch_def
  fetch_nand_def nand_fetch_def test_and_set_def clear_def

section \<open>Lemmas\<close>

lemma joined_append [simp]: "joined (xs @ ys) = joined xs \<union> joined ys"
  by (induction xs rule: joined.induct) auto

lemma joined_mem: "(t, v) \<in> set hs \<Longrightarrow> v \<subseteq> joined hs"
  by (induction hs rule: joined.induct) auto

lemma v_cur_after_read_mono: "v_cur tv \<subseteq> v_cur (after_read mo c tv)"
  by (auto simp: after_read_def)

lemma after_read_acquire:
  "acquires mo \<Longrightarrow> v_cur (after_read mo c tv) = v_cur tv \<union> joined (heads c)"
  by (simp add: after_read_def)

text \<open>What a read-modify-write does, as separate equations.\<close>

lemma rmw_simps [simp]:
  "fst (rmw mo t f s) = atomic (snd s)"
  "fst (snd (rmw mo t f s)) = after_read mo (snd s) (fst s)"
  "atomic (snd (snd (rmw mo t f s))) = f (atomic (snd s))"
  "heads (snd (snd (rmw mo t f s)))
     = (t, published mo (after_read mo (snd s) (fst s))) # heads (snd s)"
  by (simp_all add: rmw_def Let_def split: prod.splits)

text \<open>A read-modify-write loses nothing the value before it carried.\<close>

lemma rmw_heads_mono: "joined (heads (snd s)) \<subseteq> joined (heads (snd (snd (rmw mo t f s))))"
  by auto

lemma store_simps [simp]:
  "fst (store std mo t v s) = fst s"
  "atomic (snd (store std mo t v s)) = v"
  "heads (snd (store std mo t v s))
     = (t, published mo (fst s)) # continued_by_store std t (heads (snd s))"
  by (simp_all add: store_def split: prod.splits)

section \<open>The contract of an atomic object\<close>

text \<open>
  What the futex relies on, as far as values go: an exchange and a compare-exchange are
  indivisible, \<open>fetch_sub\<close> returns the value before, a store replaces the value.
\<close>

locale atomic_object =
  fixes val :: "'s \<Rightarrow> 'w::len word"
    and xchg :: "'w word \<Rightarrow> 's \<Rightarrow> 'w word \<times> 's"
    and cas :: "'w word \<Rightarrow> 'w word \<Rightarrow> 's \<Rightarrow> bool \<times> 'w word \<times> 's"
    and sub :: "'w word \<Rightarrow> 's \<Rightarrow> 'w word \<times> 's"
    and put :: "'w word \<Rightarrow> 's \<Rightarrow> 's"
  assumes xchg_old: "fst (xchg v s) = val s"
    and xchg_new: "val (snd (xchg v s)) = v"
    and cas_ok: "fst (cas e d s) \<longleftrightarrow> val s = e"
    and cas_found: "fst (snd (cas e d s)) = val s"
    and cas_new: "val (snd (snd (cas e d s))) = (if val s = e then d else val s)"
    and sub_old: "fst (sub v s) = val s"
    and sub_new: "val (snd (sub v s)) = val s - v"
    and put_new: "val (put v s) = v"
begin

text \<open>Of two compare-exchanges from the same expected value only the first succeeds, unless
  it stored that value again.\<close>

lemma cas_excludes:
  assumes "cas e d s = (True, f, s1)" and "d \<noteq> e"
  shows "\<not> fst (cas e d' s1)"
  using cas_ok [of e d s] cas_new [of e d s] cas_ok [of e d' s1] assms by simp

lemma sub_reverts:
  assumes "cas e (e + v) s = (True, f, s1)"
  shows "val (snd (sub v s1)) = e"
  using cas_ok [of e "e + v" s] cas_new [of e "e + v" s] sub_new [of v s1] assms by simp

end

lemma compare_exchange_strong_parts:
  "fst (compare_exchange_strong so fo t e d s) \<longleftrightarrow> atomic (snd s) = e"
  "fst (snd (compare_exchange_strong so fo t e d s)) = atomic (snd s)"
  "atomic (snd (snd (snd (compare_exchange_strong so fo t e d s))))
     = (if atomic (snd s) = e then d else atomic (snd s))"
  by (auto simp: compare_exchange_strong_def rmw_def Let_def split: prod.splits)

interpretation cell: atomic_object "\<lambda>s. atomic (snd s)" "exchange mo t"
    "compare_exchange_strong so fo t" "fetch_sub mo' t" "store std mo'' t"
  by unfold_locales
    (simp_all add: exchange_def fetch_sub_def compare_exchange_strong_parts)

section \<open>Properties\<close>

text \<open>C38. The concept on the two memory orders of a compare-exchange is the compiler's own
  rule: the failure order is no releasing one and, by the values of the constants, not
  stronger than the success order.\<close>

theorem compare_exchange_order_rule:
  "AtomicMemoryOrderCompareExchange success failure \<longleftrightarrow>
     failure \<noteq> RELEASE \<and> failure \<noteq> ACQ_REL \<and> failure \<le> success"
  by (cases failure; cases success)
    (simp_all add: AtomicMemoryOrderCompareExchange_def less_eq_AtomicMemoryOrder_def)

lemma joined_rmws_mono:
  "joined (heads c) \<subseteq>
   joined (heads (fold (\<lambda>(mo, u, f, tv) c. snd (snd (rmw mo u f (tv, c)))) rs c))"
proof (induction rs arbitrary: c)
  case (Cons r rs)
  obtain mo u f tv where r: "r = (mo, u, f, tv)" by (metis prod.collapse)
  have "joined (heads c) \<subseteq> joined (heads (snd (snd (rmw mo u f (tv, c)))))" by auto
  also note Cons.IH
  finally show ?case by (simp add: r)
qed simp

text \<open>C32. Message passing: what a thread wrote before a releasing store happens before
  everything after an acquiring load that reads it or any value later read-modify-write
  operations of other threads, of any memory order, put in its place.\<close>

theorem release_acquire_transfer:
  assumes "releases mo" and "acquires mo'"
  shows "v_cur tv \<subseteq>
    v_cur (fst (snd (load mo' (tv', fold (\<lambda>(o1, u, f, tvu) c. snd (snd (rmw o1 u f (tvu, c)))) rs
      (snd (store std mo t v (tv, c)))))))"
proof -
  let ?c = "snd (store std mo t v (tv, c))"
  have "v_cur tv \<subseteq> joined (heads ?c)"
    using assms(1) by (auto simp: published_def)
  also note joined_rmws_mono [of ?c rs]
  finally show ?thesis
    using assms(2) by (auto simp: load_def after_read_def)
qed

theorem release_acquire_transfer_witness:
  "7 \<in> v_cur (fst (snd (load ACQUIRE (tview_init,
     snd (snd (rmw RELAXED 2 (\<lambda>x. x + 1) (tview_init,
       snd (store CXX20 RELEASE 1 (5 :: u32)
         (tview_init\<lparr>v_cur := {7}\<rparr>, \<lparr>atomic = 0, heads = []\<rparr>)))))))))"
  using release_acquire_transfer
    [of RELEASE ACQUIRE "tview_init\<lparr>v_cur := {7}\<rparr>" tview_init
        "[(RELAXED, 2, \<lambda>x. x + 1, tview_init)]" CXX20 1 "5 :: u32" "\<lparr>atomic = 0, heads = []\<rparr>"]
  by (simp add: releases_def acquires_def)

text \<open>The same with fences: a releasing fence before a relaxed store, and an acquiring
  fence after a relaxed load that reads its value, order the two threads.\<close>

lemma fence_transfer:
  assumes "releases mo" and "acquires mo'"
  shows "v_cur tv \<subseteq>
    v_cur (atomic_thread_fence mo' (fst (snd (load RELAXED (tv',
      snd (store std RELAXED t v
        (atomic_thread_fence mo (tv\<lparr>v_acq := v_cur tv \<union> v_acq tv\<rparr>), c)))))))"
  using assms
  by (auto simp: atomic_thread_fence_def load_def after_read_def published_def releases_def
      acquires_def Let_def split: if_splits)

end
