(* ===== verification/Aba_Views.thy ===== *)
theory Aba_Views
  imports Aba_System Atomic
begin

text \<open>
  What the assembler functions order between threads. Each function that \<open>modify\<close>, \<open>get\<close>
  and the constructor use is given its effect on the views of \<open>Atomic\<close>: which plain writes
  happen before the thread's next action, and which ones the double word carries. Every
  variant of the headers keeps one contract, and under it a modification hands on all that
  the modifications before it have published.
\<close>

section \<open>The functions of the headers\<close>

text \<open>
  The double word as an object of synchronisation: a cell whose value is of no interest.
  A \<open>lock\<close>ed instruction is sequentially consistent, whether or not it stores; \<open>dmb\<close> is a
  full fence, which orders the plain exclusive load before it and the store after it.
\<close>

type_synonym sync = "unit astate"

definition fenced :: "AtomicMemoryOrder \<Rightarrow> sync \<Rightarrow> sync" where
  "fenced mo a = (atomic_thread_fence mo (fst a), snd a)"

text \<open>\<open>movdqa\<close>, or \<open>movq\<close> for 32-bit words, with the fence of \<open>MEMORDER\<close> after it.\<close>

definition sse_load_sync :: "AtomicMemoryOrder \<Rightarrow> sync \<Rightarrow> sync" where
  "sse_load_sync MEMORDER a = fenced MEMORDER (snd (load RELAXED a))"

text \<open>\<open>lock cmpxchg\<close> as a load.\<close>

definition locked_load_sync :: "sync \<Rightarrow> sync" where
  "locked_load_sync a = snd (load SEQ_CST a)"

definition dw_cas_sync :: "tid \<Rightarrow> bool \<Rightarrow> sync \<Rightarrow> sync" where
  "dw_cas_sync t stored a =
     (if stored then snd (rmw SEQ_CST t (\<lambda>x. x) a) else snd (load SEQ_CST a))"

text \<open>The two parts of a read-modify-write by exclusive instructions: the store continues the
  release sequences of the value the load has read.\<close>

definition store_ex_sync :: "AtomicMemoryOrder \<Rightarrow> tid \<Rightarrow> sync \<Rightarrow> sync" where
  "store_ex_sync mo t a =
     (fst a, (snd a)\<lparr>heads := (t, published mo (fst a)) # heads (snd a)\<rparr>)"

definition ldaxr_sync :: "sync \<Rightarrow> sync" where
  "ldaxr_sync a = snd (load ACQUIRE a)"

definition stlxr_sync :: "tid \<Rightarrow> bool \<Rightarrow> sync \<Rightarrow> sync" where
  "stlxr_sync t stored a = (if stored then store_ex_sync RELEASE t a else a)"

definition ldrex_dmb_sync :: "sync \<Rightarrow> sync" where
  "ldrex_dmb_sync a = fenced SEQ_CST (snd (load RELAXED a))"

definition dmb_strex_sync :: "tid \<Rightarrow> bool \<Rightarrow> sync \<Rightarrow> sync" where
  "dmb_strex_sync t stored a =
     (let a' = fenced SEQ_CST a in if stored then store_ex_sync RELAXED t a' else a')"

text \<open>The variants, and which of the two ABA protections each belongs to. \<open>X64\<close> is the build
  with \<open>X86\_64\_FAST\_DW\_LOAD\<close>, \<open>X64_slow\<close> the one without.\<close>

datatype variant = X64 | X64_slow | I686_cmpxchg8b | A64 | ARMv8 | ARMv7

fun solution :: "variant \<Rightarrow> PlatformABASolution" where
  "solution X64 = DWCAS"
| "solution X64_slow = DWCAS"
| "solution I686_cmpxchg8b = DWCAS"
| "solution _ = LLSC"

text \<open>The load and the conditional store of \<open>modify\<close>.\<close>

fun load_sync :: "variant \<Rightarrow> sync \<Rightarrow> sync" where
  "load_sync X64 a = sse_load_sync ACQUIRE a"
| "load_sync X64_slow a = locked_load_sync a"
| "load_sync I686_cmpxchg8b a = locked_load_sync a"
| "load_sync A64 a = ldaxr_sync a"
| "load_sync ARMv8 a = ldaxr_sync a"
| "load_sync ARMv7 a = ldrex_dmb_sync a"

fun store_sync :: "variant \<Rightarrow> tid \<Rightarrow> bool \<Rightarrow> sync \<Rightarrow> sync" where
  "store_sync A64 t stored a = stlxr_sync t stored a"
| "store_sync ARMv8 t stored a = stlxr_sync t stored a"
| "store_sync ARMv7 t stored a = dmb_strex_sync t stored a"
| "store_sync _ t stored a = dw_cas_sync t stored a"

text \<open>\<open>get\<close> loads the double word with DWCAS and reads its first half, acquiring, with LL/SC.\<close>

definition get_sync :: "variant \<Rightarrow> sync \<Rightarrow> sync" where
  "get_sync V a = (if solution V = DWCAS then load_sync V a else snd (load ACQUIRE a))"

text \<open>
  The step of \<open>modify\<close> from one position to the next. The first half of a torn load is
  followed by no fence, the second one by that of the whole load. A modifier function that
  returns false ends the attempt with no access to the double word (with LL/SC, \<open>clrex\<close>).
\<close>

fun modify_sync :: "variant \<Rightarrow> tid \<Rightarrow> ('v, 'r) mpc \<Rightarrow> ('v, 'r) mpc \<Rightarrow> sync \<Rightarrow> sync" where
  "modify_sync V t M_load (M_half0 d) a = snd (load RELAXED a)"
| "modify_sync V t M_load (M_half1 k) a = snd (load RELAXED a)"
| "modify_sync V t M_load pc' a = load_sync V a"
| "modify_sync V t (M_half0 d) pc' a = load_sync V a"
| "modify_sync V t (M_half1 k) pc' a = load_sync V a"
| "modify_sync V t (M_cas d k v r) (M_done ok r') a = store_sync V t True a"
| "modify_sync V t (M_cas d k v r) pc' a = store_sync V t False a"
| "modify_sync V t pc pc' a = a"

section \<open>The contract\<close>

text \<open>The views of a thread are in order: an acquire fence can only add to what is known.\<close>

definition tview_ok :: "tview \<Rightarrow> bool" where
  "tview_ok tv \<longleftrightarrow> v_cur tv \<subseteq> v_acq tv"

locale synchronised =
  fixes ld :: "sync \<Rightarrow> sync" and st :: "tid \<Rightarrow> bool \<Rightarrow> sync \<Rightarrow> sync"
  assumes ld_keeps: "snd (ld a) = snd a"
    and ld_acquires: "tview_ok (fst a) \<Longrightarrow>
      tview_ok (fst (ld a)) \<and> v_cur (fst a) \<union> joined (heads (snd a)) \<subseteq> v_cur (fst (ld a))"
    and st_keeps: "tview_ok (fst a) \<Longrightarrow>
      tview_ok (fst (st t stored a)) \<and> v_cur (fst a) \<subseteq> v_cur (fst (st t stored a))"
    and st_refused: "snd (st t False a) = snd a"
    and st_publishes: "tview_ok (fst a) \<Longrightarrow>
      v_cur (fst a) \<union> joined (heads (snd a)) \<subseteq> joined (heads (snd (st t True a)))"
begin

text \<open>What is published stays so, whatever a conditional store does.\<close>

lemma published_stays:
  "tview_ok (fst a) \<Longrightarrow> joined (heads (snd a)) \<subseteq> joined (heads (snd (st t stored a)))"
  using st_publishes [of a t] st_refused [of t a] by (cases stored) auto

text \<open>Message passing: what one thread knew when it stored, another one knows after its load.\<close>

lemma store_then_load:
  assumes "tview_ok (fst a)" and "tview_ok tv"
  shows "v_cur (fst a) \<subseteq> v_cur (fst (ld (tv, snd (st t True a))))"
  using st_publishes [OF assms(1), of t] ld_acquires [of "(tv, snd (st t True a))"] assms(2)
  by auto

end

lemmas sync_defs =
  fenced_def sse_load_sync_def locked_load_sync_def dw_cas_sync_def store_ex_sync_def
  ldaxr_sync_def stlxr_sync_def ldrex_dmb_sync_def dmb_strex_sync_def tview_ok_def
  load_def after_read_def acquires_def releases_def published_def atomic_thread_fence_def

lemma load_sync_acquires:
  "tview_ok (fst a) \<Longrightarrow>
     tview_ok (fst (load_sync V a))
     \<and> v_cur (fst a) \<union> joined (heads (snd a)) \<subseteq> v_cur (fst (load_sync V a))"
  by (cases V; cases a) (auto simp: sync_defs Let_def)

lemma store_sync_keeps:
  "tview_ok (fst a) \<Longrightarrow>
     tview_ok (fst (store_sync V t stored a)) \<and> v_cur (fst a) \<subseteq> v_cur (fst (store_sync V t stored a))"
  by (cases V; cases a; cases stored) (auto simp: sync_defs rmw_def Let_def)

lemma store_sync_publishes:
  "tview_ok (fst a) \<Longrightarrow>
     v_cur (fst a) \<union> joined (heads (snd a)) \<subseteq> joined (heads (snd (store_sync V t True a)))"
  by (cases V; cases a) (auto simp: sync_defs rmw_def Let_def)

interpretation sync: synchronised "load_sync V" "store_sync V"
proof unfold_locales
  show "snd (load_sync V a) = snd a" for a
    by (cases V; cases a) (simp_all add: sync_defs Let_def)
  show "snd (store_sync V t False a) = snd a" for t a
    by (cases V; cases a) (simp_all add: sync_defs Let_def)
qed (rule load_sync_acquires store_sync_keeps store_sync_publishes; assumption)+

text \<open>On the DWCAS platforms the compare-and-swap acquires too, also when it fails.\<close>

lemma cas_acquires:
  "solution V = DWCAS \<Longrightarrow> joined (heads (snd a)) \<subseteq> v_cur (fst (store_sync V t stored a))"
  by (cases V; cases a) (auto simp: sync_defs rmw_def Let_def)

lemma get_sync_acquires:
  "tview_ok (fst a) \<Longrightarrow> snd (get_sync V a) = snd a
     \<and> tview_ok (fst (get_sync V a))
     \<and> v_cur (fst a) \<union> joined (heads (snd a)) \<subseteq> v_cur (fst (get_sync V a))"
  using sync.ld_keeps [of V a] sync.ld_acquires [of a V]
  by (cases a) (auto simp: get_sync_def sync_defs)

lemma torn_load_sync:
  "tview_ok (fst a) \<Longrightarrow> snd (snd (load RELAXED a)) = snd a
     \<and> tview_ok (fst (snd (load RELAXED a))) \<and> v_cur (fst (snd (load RELAXED a))) = v_cur (fst a)"
  by (cases a) (auto simp: sync_defs)

section \<open>Synchronisation by modifications\<close>

text \<open>A thread that holds a snapshot which is still current knows all that the double word
  carries.\<close>

definition sync_ok ::
    "('w, 'h, 'o, 'r, 'z) asys_scheme \<Rightarrow> (tid \<Rightarrow> tview) \<Rightarrow> unit cell \<Rightarrow> bool" where
  "sync_ok s vw c \<longleftrightarrow>
     (\<forall>t. tview_ok (vw t))
     \<and> (\<forall>t p pc. thr s t = Some (p, pc) \<longrightarrow> cached_data pc \<noteq> None \<longrightarrow> snap s t = version s \<longrightarrow>
          joined (heads c) \<subseteq> v_cur (vw t))"

lemma sync_okD:
  "sync_ok s vw c \<Longrightarrow> tview_ok (vw t)"
  "sync_ok s vw c \<Longrightarrow> thr s t = Some (p, pc) \<Longrightarrow> cached_data pc = Some d \<Longrightarrow>
     snap s t = version s \<Longrightarrow> joined (heads c) \<subseteq> v_cur (vw t)"
  by (auto simp: sync_ok_def)

text \<open>Nothing a step does makes a view smaller.\<close>

lemma modify_sync_mono:
  assumes "tview_ok (fst a)"
  shows "tview_ok (fst (modify_sync V t pc pc' a)) \<and> v_cur (fst a) \<subseteq> v_cur (fst (modify_sync V t pc pc' a))
    \<and> joined (heads (snd a)) \<subseteq> joined (heads (snd (modify_sync V t pc pc' a)))"
  using assms sync.ld_keeps [of V a] sync.ld_acquires [of a V] sync.st_keeps [of a V t]
    sync.published_stays [of a V t] torn_load_sync [of a]
  by (cases "(V, t, pc, pc', a)" rule: modify_sync.cases) auto

text \<open>Only a successful conditional store changes what the double word carries.\<close>

lemma modify_sync_carried:
  "tview_ok (fst a) \<Longrightarrow> \<not> ((\<exists>d k v r. pc = M_cas d k v r) \<and> (\<exists>b r. pc' = M_done b r)) \<Longrightarrow>
   snd (modify_sync V t pc pc' a) = snd a"
  using sync.ld_keeps [of V a] sync.st_refused [of V t a] torn_load_sync [of a]
  by (cases "(V, t, pc, pc', a)" rule: modify_sync.cases) auto

lemma modify_sync_acquires:
  assumes step: "modify_step (solution V) f t e pc s = (pc', s')"
    and "tview_ok (fst a)" and "cached_data pc' \<noteq> None"
    and "\<And>d k. pc = M_call d k \<Longrightarrow> snap s t = version s \<Longrightarrow> joined (heads (snd a)) \<subseteq> v_cur (fst a)"
    and "snap s' t = version s'"
  shows "joined (heads (snd a)) \<subseteq> v_cur (fst (modify_sync V t pc pc' a))"
proof (cases pc)
  case (M_cas d k v r)
  show ?thesis
  proof (cases "solution V")
    case DWCAS
    with M_cas show ?thesis
      using cas_acquires [OF DWCAS, of a t] by (cases pc') simp_all
  next
    case LLSC
    with M_cas step assms(3) show ?thesis
      by (auto simp: modify_step_def split: if_splits)
  qed
next
  case (M_call d k)
  with step have "snap s' = snap s" "version s' = version s"
    by (auto simp: modify_step_def split: if_splits option.splits prod.splits)
  with M_call assms(4) [OF M_call] assms(5) show ?thesis by simp
next
  case (M_done b r)
  with step assms(3) show ?thesis by (auto simp: modify_step_def split: if_splits)
next
  case M_load
  with step assms(3) sync.ld_acquires [OF assms(2), of V] show ?thesis
    by (cases pc') simp_all
qed (use assms sync.ld_acquires [of a V] in simp_all)

lemma sync_ok_step:
  assumes inv: "aba_inv (solution V) s" and ok: "sync_ok s vw c" and thr: "thr s t = Some (p, pc)"
    and step: "step_op (solution V) ops t e p pc s = (pc', s')"
    and sync: "modify_sync V t pc pc' (vw t, c) = (tv', c')"
  shows "sync_ok s' (vw(t := tv')) c'"
proof -
  obtain s1 where s1: "modify_step (solution V) (ops p) t e pc s = (pc', s1)"
    and s': "s' = s1\<lparr>thr := (thr s1)(t := Some (p, pc'))\<rparr>"
    using step by (rule step_op_parts)
  note tv = sync_okD(1) [OF ok]
  have frame: "version s' = version s1" "snap s' = snap s1" "thr s' = (thr s)(t := Some (p, pc'))"
    by (simp_all add: s' modify_step_thr [OF s1])
  have carried: "c' = c" if "\<not> ((\<exists>d k v r. pc = M_cas d k v r) \<and> (\<exists>b r. pc' = M_done b r))"
    using modify_sync_carried [of "(vw t, c)" pc pc' V t] tv that sync by simp
  have "joined (heads c') \<subseteq> v_cur tv'"
    if "cached_data pc' \<noteq> None" "snap s' t = version s'"
  proof -
    have "joined (heads c) \<subseteq> v_cur (vw t)" if "pc = M_call d k" "snap s t = version s" for d k
      using sync_okD(2) [OF ok thr _ that(2)] that(1) by simp
    then have "joined (heads c) \<subseteq> v_cur tv'"
      using modify_sync_acquires [OF s1, of "(vw t, c)"] tv that frame(1,2) sync by simp
    moreover have "c' = c" using that(1) by (intro carried) auto
    ultimately show ?thesis by simp
  qed
  moreover have "joined (heads c') \<subseteq> v_cur (vw u)"
    if u: "u \<noteq> t" "thr s u = Some (q, upc)" "cached_data upc \<noteq> None" "snap s' u = version s'"
    for u q upc
  proof -
    have snap: "snap s u = version s'" using modify_step_snap(2) [OF s1 u(1)] u(4) frame by simp
    have "version s \<le> version s'" using modify_step_snap(1) [OF s1] frame by simp
    with snap aba_invD(2) [OF inv, of u] have v: "version s' = version s" by simp
    have "\<not> ((\<exists>d k v r. pc = M_cas d k v r) \<and> (\<exists>b r. pc' = M_done b r))"
      using s1 v frame(1) by (auto simp: modify_step_def split: if_splits)
    from carried [OF this] sync_okD(2) [OF ok u(2)] u(3) snap v show ?thesis by auto
  qed
  moreover have "tview_ok tv'"
    using modify_sync_mono [of "(vw t, c)" V t pc pc'] tv sync by simp
  ultimately show ?thesis
    using tv unfolding sync_ok_def frame(3) by simp
qed

text \<open>A modification that succeeds has acquired everything the ones before it published.\<close>

lemma commit_acquires:
  assumes inv: "aba_inv (solution V) s" and ok: "sync_ok s vw c"
    and thr: "thr s t = Some (p, M_cas d k v r)"
    and step: "modify_step (solution V) f t e (M_cas d k v r) s = (M_done b r', s')"
    and sync: "modify_sync V t (M_cas d k v r) (M_done b r') (vw t, c) = (tv', c')"
  shows "joined (heads c) \<subseteq> v_cur tv' \<and> v_cur (vw t) \<union> joined (heads c) \<subseteq> joined (heads c')"
proof
  have tv: "tview_ok (fst (vw t, c))" using sync_okD(1) [OF ok] by simp
  show "joined (heads c) \<subseteq> v_cur tv'"
  proof (cases "solution V")
    case DWCAS
    from cas_acquires [OF DWCAS, of "(vw t, c)" t True] sync show ?thesis by simp
  next
    case LLSC
    with step have "excl s t" by (auto simp: modify_step_def split: if_splits)
    with LLSC aba_invD(3) [OF inv thr] have "snap s t = version s" by (simp add: thread_ok_def)
    with sync_okD(2) [OF ok thr] have "joined (heads c) \<subseteq> v_cur (vw t)" by simp
    with sync.st_keeps [OF tv, of V t True] sync show ?thesis by auto
  qed
  show "v_cur (vw t) \<union> joined (heads c) \<subseteq> joined (heads c')"
    using sync.st_publishes [OF tv, of V t] sync by simp
qed

text \<open>What the client adds to a view does not matter to the wrapper.\<close>

lemma sync_ok_mono:
  assumes "sync_ok s vw c"
    and "\<And>t. tview_ok (vw' t) \<and> v_cur (vw t) \<subseteq> v_cur (vw' t)"
    and "version s' = version s" "snap s' = snap s"
    and "\<And>t p pc. thr s' t = Some (p, pc) \<Longrightarrow>
      (\<exists>pc0. thr s t = Some (p, pc0) \<and> cached_data pc0 = cached_data pc) \<or> cached_data pc = None"
  shows "sync_ok s' vw' c"
proof -
  have "joined (heads c) \<subseteq> v_cur (vw' t)"
    if thr: "thr s' t = Some (p, pc)" "cached_data pc \<noteq> None" "snap s' t = version s'" for t p pc
  proof -
    from assms(5) [OF thr(1)] thr(2) obtain pc0 d
      where "thr s t = Some (p, pc0)" "cached_data pc0 = Some d" by auto
    then have "joined (heads c) \<subseteq> v_cur (vw t)"
      using sync_okD(2) [OF assms(1)] thr(3) assms(3,4) by simp
    with assms(2) show ?thesis by blast
  qed
  with assms(2) show ?thesis unfolding sync_ok_def by blast
qed

end
