(* ===== verification/Stack_Views.thy ===== *)
theory Stack_Views
  imports Stack_System Aba_Views
begin

text \<open>
  The contents of the blocks. The client's writes to a block and the stack's own writes to
  its link word are plain writes; this theory shows that the memory orders inside \<open>push\<close> and
  \<open>pop\<close> are enough to hand them on with the block, on every platform.
\<close>

section \<open>The stack with views\<close>

text \<open>
  Next to the state of the stack: the view of each thread, what the double word carries, and
  for each block the set of plain writes made to it, numbered in their order.
\<close>

record 'v block_views =
  views :: "tid \<Rightarrow> tview"
  carried :: "unit cell"
  writes :: "'v \<Rightarrow> view"
  events :: nat

definition block_views_init :: "'v block_views" where
  "block_views_init =
     \<lparr>views = (\<lambda>_. tview_init), carried = \<lparr>atomic = (), heads = []\<rparr>, writes = (\<lambda>_. {}),
      events = 0\<rparr>"

definition know :: "view \<Rightarrow> tview \<Rightarrow> tview" where
  "know new tv = tv\<lparr>v_cur := new \<union> v_cur tv, v_acq := new \<union> v_acq tv\<rparr>"

definition plain_write :: "tid \<Rightarrow> 'v \<Rightarrow> 'v block_views \<Rightarrow> 'v block_views" where
  "plain_write t a p =
     p\<lparr>views := (views p)(t := know {events p} (views p t)),
       writes := (writes p)(a := insert (events p) (writes p a)), events := Suc (events p)\<rparr>"

definition synchronise ::
    "variant \<Rightarrow> tid \<Rightarrow> ('v, 'r) mpc \<Rightarrow> ('v, 'r) mpc \<Rightarrow> 'w block_views \<Rightarrow> 'w block_views" where
  "synchronise V t pc pc' p =
     (case modify_sync V t pc pc' (views p t, carried p) of
        (tv', c') \<Rightarrow> p\<lparr>views := (views p)(t := tv'), carried := c'\<rparr>)"

text \<open>
  The effect of an action on the views. The modifier function of \<open>push\<close> writes the link word
  of its block; a client that hands a block over to another thread synchronises with it by
  its own means.
\<close>

fun publish ::
    "variant \<Rightarrow> 'w::len word action \<Rightarrow> 'w word ssys \<Rightarrow> 'w word ssys \<Rightarrow> 'w word block_views \<Rightarrow>
     'w word block_views" where
  "publish V (Step t e) s s' p =
     (case (thr s t, thr s' t) of
        (Some (q, pc), Some (q', pc')) \<Rightarrow>
          (case (q, pc) of
             (Op_push b, M_call d k) \<Rightarrow> plain_write t b (synchronise V t pc pc' p)
           | _ \<Rightarrow> synchronise V t pc pc' p)
      | _ \<Rightarrow> p)"
| "publish V (Write t a v) s s' p = plain_write t a p"
| "publish V (Hand_over t u a) s s' p =
     p\<lparr>views := (views p)(u := know (v_cur (views p t)) (views p u))\<rparr>"
| "publish V _ s s' p = p"

definition view_act ::
    "variant \<Rightarrow> 'w::len word action \<Rightarrow> 'w word ssys \<times> 'w word block_views \<Rightarrow>
     ('w word ssys \<times> 'w word block_views) option" where
  "view_act V a sp =
     map_option (\<lambda>s'. (s', publish V a (fst sp) s' (snd sp))) (act (solution V) a (fst sp))"

inductive view_reach ::
    "variant \<Rightarrow> 'w::len word links \<Rightarrow> ('w word \<Rightarrow> tid option) \<Rightarrow> 'w word ssys \<times> 'w word block_views \<Rightarrow>
     bool"
  for V links own where
  init: "view_reach V links own (ssys_init (solution V) links own, block_views_init)"
| step: "view_reach V links own sp \<Longrightarrow> (solution V = DWCAS \<Longrightarrow> fresh (fst sp)) \<Longrightarrow>
     view_act V a sp = Some sp' \<Longrightarrow> view_reach V links own sp'"

fun view_run ::
    "variant \<Rightarrow> 'w::len word action list \<Rightarrow> 'w word ssys \<times> 'w word block_views \<Rightarrow>
     ('w word ssys \<times> 'w word block_views) option" where
  "view_run V [] sp = Some sp"
| "view_run V (a # as) sp = (case view_act V a sp of None \<Rightarrow> None | Some sp' \<Rightarrow> view_run V as sp')"

text \<open>Views are bookkeeping: they neither enable nor disable anything.\<close>

lemma view_act_act: "view_act V a sp = Some sp' \<Longrightarrow> act (solution V) a (fst sp) = Some (fst sp')"
  by (auto simp: view_act_def)

lemma view_reach_reach: "view_reach V links own sp \<Longrightarrow> reach (solution V) links own (fst sp)"
  by (induction rule: view_reach.induct) (auto intro: reach.init reach.step view_act_act)

section \<open>The invariant\<close>

definition block_inv :: "'w::len word ssys \<Rightarrow> 'w word block_views \<Rightarrow> bool" where
  "block_inv s p \<longleftrightarrow>
     sync_ok s (views p) (carried p)
     \<and> (\<forall>a t. owner s a = Some t \<longrightarrow> writes p a \<subseteq> v_cur (views p t))
     \<and> (\<forall>a. owner s a = None \<longrightarrow> writes p a \<subseteq> joined (heads (carried p)))"

lemma block_invD:
  "block_inv s p \<Longrightarrow> sync_ok s (views p) (carried p)"
  "block_inv s p \<Longrightarrow> owner s a = Some t \<Longrightarrow> writes p a \<subseteq> v_cur (views p t)"
  "block_inv s p \<Longrightarrow> owner s a = None \<Longrightarrow> writes p a \<subseteq> joined (heads (carried p))"
  by (auto simp: block_inv_def)

lemma know_simps [simp]:
  "v_cur (know new tv) = new \<union> v_cur tv" "tview_ok tv \<Longrightarrow> tview_ok (know new tv)"
  by (auto simp: know_def tview_ok_def)

lemma block_inv_init: "block_inv (ssys_init sol links own) block_views_init"
  by (simp add: block_inv_def sync_ok_def block_views_init_def ssys_init_def Let_def
      tview_ok_def tview_init_def)

lemma block_inv_plain_write:
  assumes "block_inv s p" and "owner s a = Some t"
  shows "block_inv s (plain_write t a p)"
proof -
  have "sync_ok s (views (plain_write t a p)) (carried p)"
    by (rule sync_ok_mono [OF block_invD(1) [OF assms(1)]])
      (use sync_okD(1) [OF block_invD(1) [OF assms(1)]] in \<open>auto simp: plain_write_def\<close>)
  with assms show ?thesis by (auto simp: block_inv_def plain_write_def)
qed

text \<open>Outside \<open>modify\<close>: no block leaves or enters the stack, and views only grow.\<close>

lemma block_inv_client:
  assumes inv: "block_inv s p" and p': "carried p' = carried p" "writes p' = writes p"
      "\<And>t. tview_ok (views p' t) \<and> v_cur (views p t) \<subseteq> v_cur (views p' t)"
    and s': "version s' = version s" "snap s' = snap s"
      "\<And>t q pc. thr s' t = Some (q, pc) \<Longrightarrow>
        (\<exists>pc0. thr s t = Some (q, pc0) \<and> cached_data pc0 = cached_data pc) \<or> cached_data pc = None"
    and own: "\<And>a t. owner s' a = Some t \<Longrightarrow> owner s a = Some t
        \<or> (\<exists>u. owner s a = Some u \<and> v_cur (views p u) \<subseteq> v_cur (views p' t))"
      "\<And>a. owner s' a = None \<Longrightarrow> owner s a = None"
  shows "block_inv s' p'"
proof -
  have "sync_ok s' (views p') (carried p')"
    unfolding p'(1) by (rule sync_ok_mono [OF block_invD(1) [OF inv] p'(3) s'])
  moreover have "writes p' a \<subseteq> v_cur (views p' t)" if "owner s' a = Some t" for a t
    using own(1) [OF that] block_invD(2) [OF inv, of a] p'(2,3) by (metis subset_trans)
  moreover have "writes p' a \<subseteq> joined (heads (carried p'))" if "owner s' a = None" for a
    using own(2) [OF that] block_invD(3) [OF inv, of a] p'(1,2) by simp
  ultimately show ?thesis by (simp add: block_inv_def)
qed

lemma block_inv_frame:
  assumes "block_inv s p" and "owner s' = owner s" "version s' = version s" "snap s' = snap s"
    and "\<And>t q pc. thr s' t = Some (q, pc) \<Longrightarrow>
        (\<exists>pc0. thr s t = Some (q, pc0) \<and> cached_data pc0 = cached_data pc) \<or> cached_data pc = None"
  shows "block_inv s' p"
  by (rule block_inv_client [OF assms(1)])
    (use assms sync_okD(1) [OF block_invD(1) [OF assms(1)]] in auto)

text \<open>A step of \<open>modify\<close>, the write of the link word aside.\<close>

lemma lin_point_cases:
  "lin_point q pc pc' = Some (Pushed b) \<or> lin_point q pc pc' = Some (Popped b) \<Longrightarrow>
   \<exists>d k v r ok r'. pc = M_cas d k v r \<and> pc' = M_done ok r'"
  by (cases "(q, pc, pc')" rule: lin_point.cases) (auto split: if_splits)

lemma popped_was_unowned:
  assumes inv: "stack_inv sol own s xs" and ls: "list_step t (Some (Popped b)) s xs s1 ys"
  shows "owner s b = None"
proof -
  from ls have "xs = b # ys" by (cases xs) (auto simp: list_step_def split: if_splits)
  with stack_invD(3) [OF inv, of b] show ?thesis by simp
qed

lemma lin_point_acquires:
  assumes "lin_point q pc pc' = Some (Pushed b) \<or> lin_point q pc pc' = Some (Popped b)"
    and "aba_inv (solution V) s" and "sync_ok s vs c" and "thr s t = Some (q, pc)"
    and "modify_step (solution V) (stack_ops q) t e pc s = (pc', s1)"
    and "modify_sync V t pc pc' (vs t, c) = (tv', c')"
  shows "joined (heads c) \<subseteq> v_cur tv'
    \<and> v_cur (vs t) \<union> joined (heads c) \<subseteq> joined (heads c')"
proof -
  from lin_point_cases [OF assms(1)] obtain d k v r ok r'
    where pc: "pc = M_cas d k v r" "pc' = M_done ok r'" by blast
  show ?thesis by (rule commit_acquires [OF assms(2-6) [unfolded pc]])
qed

lemma block_inv_modify:
  assumes inv: "stack_inv (solution V) own s xs" and binv: "block_inv s p"
    and thr: "thr s t = Some (q, pc)" and fr: "solution V = DWCAS \<Longrightarrow> fresh s"
    and step: "step_op (solution V) stack_ops t e q pc s = (pc', s2)"
  shows "block_inv (ghost_step t (lin_point q pc pc') s2) (synchronise V t pc pc' p)"
proof -
  let ?l = "lin_point q pc pc'" and ?s = "ghost_step t (lin_point q pc pc') s2"
  let ?p = "synchronise V t pc pc' p"
  note ok = block_invD(1) [OF binv]
  obtain s1 where s1: "modify_step (solution V) (stack_ops q) t e pc s = (pc', s1)"
    and s2: "s2 = s1\<lparr>thr := (thr s1)(t := Some (q, pc'))\<rparr>"
    using step by (rule step_op_parts)
  obtain ys where ls: "list_step t ?l s xs s1 ys"
    using step_list_step [OF inv thr fr s1] by blast
  obtain tv' c' where sync: "modify_sync V t pc pc' (views p t, carried p) = (tv', c')" by fastforce
  note own = ghost_step_fields(1) [OF s1, of ?s t ?l q, folded s2, OF refl]
  have p: "views ?p = (views p)(t := tv')" "carried ?p = c'" "writes ?p = writes p"
    by (simp_all add: synchronise_def sync)
  have "sync_ok s2 ((views p)(t := tv')) c'"
    by (rule sync_ok_step [OF stack_invD(1) [OF inv] ok thr step sync])
  then have "sync_ok ?s (views ?p) (carried ?p)"
    unfolding p by (simp add: sync_ok_def ghost_step_def)
  moreover have mono: "v_cur (views p u) \<subseteq> v_cur (views ?p u)" for u
    using modify_sync_mono [of "(views p t, carried p)" V t pc pc'] sync_okD(1) [OF ok] sync
    by (simp add: p)
  moreover have carried: "joined (heads (carried p)) \<subseteq> joined (heads c')"
    using modify_sync_mono [of "(views p t, carried p)" V t pc pc'] sync_okD(1) [OF ok] sync
    by simp
  moreover have commit: "joined (heads (carried p)) \<subseteq> v_cur tv'
      \<and> v_cur (views p t) \<union> joined (heads (carried p)) \<subseteq> joined (heads c')"
    if "?l = Some (Pushed b) \<or> ?l = Some (Popped b)" for b
    by (rule lin_point_acquires [OF that stack_invD(1) [OF inv] ok thr s1 sync])
  moreover have "writes p a \<subseteq> v_cur (views ?p u)" if "owner ?s a = Some u" for a u
  proof (cases "owner s a = Some u")
    case True
    with block_invD(2) [OF binv] mono show ?thesis by blast
  next
    case False
    with that own have l: "?l = Some (Popped a)" and "u = t"
      by (cases "(t, ?l, owner s)" rule: owner_after.cases; auto split: if_splits)+
    from popped_was_unowned [OF inv ls [unfolded l]] block_invD(3) [OF binv, of a]
    show ?thesis using commit [of a] l \<open>u = t\<close> p(1) by auto
  qed
  moreover have "writes p a \<subseteq> joined (heads c')" if "owner ?s a = None" for a
  proof (cases "owner s a = None")
    case True
    with block_invD(3) [OF binv] carried show ?thesis by blast
  next
    case False
    with that own have l: "?l = Some (Pushed a)"
      by (cases "(t, ?l, owner s)" rule: owner_after.cases) (auto split: if_splits)
    with ls have "owner s a = Some t" by (auto simp: list_step_def)
    with block_invD(2) [OF binv this] commit [of a] l show ?thesis by auto
  qed
  ultimately show ?thesis by (simp add: block_inv_def p)
qed

lemma block_inv_step:
  assumes inv: "stack_inv (solution V) own s xs" and binv: "block_inv s p"
    and fr: "solution V = DWCAS \<Longrightarrow> fresh s" and thr: "thr s t = Some (q, pc)"
    and step: "step_op (solution V) stack_ops t e q pc s = (pc', s2)"
    and s': "s' = ghost_step t (lin_point q pc pc') s2"
  shows "block_inv s' (publish V (Step t e) s s' p)"
proof -
  note b = block_inv_modify [OF inv binv thr fr step, folded s']
  have thr': "thr s' t = Some (q, pc')"
    using step by (auto simp: s' ghost_step_def elim!: step_op_parts)
  show ?thesis
  proof (cases "\<exists>b d k. q = Op_push b \<and> pc = M_call d k")
    case True
    then obtain b d k where q: "q = Op_push b" "pc = M_call d k" by blast
    have "owner s b = Some t" using stack_invD(7) [OF inv thr] by (simp add: q)
    with step have "owner s' b = Some t"
      by (cases "solution V")
        (auto simp: s' q ghost_step_def step_op_def modify_step_def push_modifier_def)
    with block_inv_plain_write [OF b] q thr thr' show ?thesis by simp
  next
    case False
    then have "publish V (Step t e) s s' p = synchronise V t pc pc' p"
      using thr thr' by (cases q; cases pc) auto
    with b show ?thesis by simp
  qed
qed

lemma block_inv_act:
  assumes inv: "stack_inv (solution V) own s xs" and binv: "block_inv s p"
    and fr: "solution V = DWCAS \<Longrightarrow> fresh s" and act: "act (solution V) a s = Some s'"
  shows "block_inv s' (publish V a s s' p)"
  using act
proof (cases rule: act_elim)
  case (step t e q pc pc' s2)
  with block_inv_step [OF inv binv fr step(2-4)] show ?thesis by simp
next
  case (written t c v)
  have "block_inv s' p" by (rule block_inv_frame [OF binv]) (auto simp: written)
  with block_inv_plain_write [of s' p c t] written show ?thesis by simp
next
  case (handed t u c)
  then show ?thesis
    by (intro block_inv_client [OF binv])
      (use sync_okD(1) [OF block_invD(1) [OF binv]] in \<open>auto split: if_splits\<close>)
qed (use binv in \<open>auto simp: step_defs intro!: block_inv_frame [OF binv] split: if_splits\<close>)

lemma view_reach_inv:
  assumes "view_reach V links own sp" and "own 0 = None"
  shows "block_inv (fst sp) (snd sp)"
  using assms
proof (induction rule: view_reach.induct)
  case init
  show ?case using block_inv_init by simp
next
  case (step sp a sp')
  obtain xs where inv: "stack_inv (solution V) own (fst sp) xs"
    using reach_stack_inv [OF view_reach_reach [OF step.hyps(1)] step.prems] by blast
  from step.hyps(3) obtain s' where act: "act (solution V) a (fst sp) = Some s'"
    and sp': "sp' = (s', publish V a (fst sp) s' (snd sp))" by (auto simp: view_act_def)
  from block_inv_act [OF inv step.IH [OF step.prems] step.hyps(2) act] sp' show ?case by simp
qed

section \<open>A concrete execution\<close>

text \<open>Thread 0 writes to its block and pushes it, thread 1 pops it.\<close>

definition pass_demo :: "u32 action list" where
  "pass_demo =
     [Write 0 16 5, Begin_push 0 16, Step 0 Whole, Step 0 Whole, Step 0 Whole, End 0,
      Begin_pop 1, Step 1 Whole, Step 1 Whole, Step 1 Whole]"

lemmas view_eval =
  stack_eval pass_demo_def block_views_init_def view_act_def plain_write_def synchronise_def
  know_def fenced_def sse_load_sync_def locked_load_sync_def dw_cas_sync_def store_ex_sync_def
  ldaxr_sync_def stlxr_sync_def ldrex_dmb_sync_def dmb_strex_sync_def load_def rmw_def
  after_read_def acquires_def releases_def published_def atomic_thread_fence_def tview_init_def

lemma pass_run:
  "\<exists>s p. view_run V pass_demo (ssys_init (solution V) (\<lambda>_. 0) demo_owner, block_views_init)
       = Some (s, p)
     \<and> owner s 16 = Some 1 \<and> writes p 16 = {0, 1}"
  by (cases V) (simp_all add: view_eval insert_commute)

lemma view_run_reach:
  assumes "view_run V as sp = Some sp'" and "view_reach V links own sp"
    and "solution V = DWCAS \<Longrightarrow> version (fst sp) + length as \<le> 2 ^ LENGTH('w)"
  shows "view_reach V links (own :: 'w::len word \<Rightarrow> tid option) sp'"
  using assms
proof (induction as arbitrary: sp)
  case Nil
  then show ?case by simp
next
  case (Cons a as)
  then obtain sp1 where a: "view_act V a sp = Some sp1" and rest: "view_run V as sp1 = Some sp'"
    by (auto split: option.splits)
  have "fresh (fst sp)" if "solution V = DWCAS"
    using Cons.prems(3) [OF that] by (intro fresh_small_version) simp
  then have "view_reach V links own sp1"
    using view_reach.step [OF Cons.prems(2) _ a] by blast
  moreover have "version (fst sp1) + length as \<le> 2 ^ LENGTH('w)" if "solution V = DWCAS"
    using act_version [OF view_act_act [OF a]] Cons.prems(3) [OF that] by simp
  ultimately show ?case using Cons.IH [OF rest] by blast
qed

section \<open>Properties\<close>

text \<open>C8. The contents of a block travel with it. On every platform, every plain write ever made
  to a block, to its data by the client or to its link word by \<open>push\<close>, happens before the
  next action of the thread that now holds it: it sees what the earlier owners have written,
  and does not race with their writes. And all writes to the top block happen before the read
  of its link by a \<open>pop\<close> whose snapshot is still current. Nothing is said of a \<open>pop\<close> whose
  snapshot is stale: its plain read of the link can race with a write of the new owner.\<close>

theorem stack_publishes:
  assumes "view_reach V links own (s, p)" and "own 0 = None"
  shows "(\<forall>a t. owner s a = Some t \<longrightarrow> writes p a \<subseteq> v_cur (views p t))
    \<and> (\<forall>t d k. thr s t = Some (Op_pop, M_call d k) \<and> snap s t = version s \<and> d = word0 s \<longrightarrow>
         writes p d \<subseteq> v_cur (views p t))"
proof -
  have binv: "block_inv s p" using view_reach_inv [OF assms] by simp
  obtain xs where inv: "stack_inv (solution V) own s xs"
    using reach_stack_inv [OF view_reach_reach [OF assms(1)] assms(2)] by auto
  have "writes p d \<subseteq> v_cur (views p t)"
    if "thr s t = Some (Op_pop, M_call d k)" "snap s t = version s" "d = word0 s" for t d k
    using block_invD(3) [OF binv, of d] stack_inv_top_unowned [OF inv]
      sync_okD(2) [OF block_invD(1) [OF binv] that(1) _ that(2)] that(3) by auto
  with block_invD(2) [OF binv] show ?thesis by blast
qed

theorem stack_publishes_witness:
  "\<exists>s p. view_reach ARMv7 (\<lambda>_. 0) demo_owner (s, p)
     \<and> owner s 16 = Some 1 \<and> writes p 16 = {0, 1} \<and> {0, 1} \<subseteq> v_cur (views p 1)"
proof -
  obtain s p where run: "view_run ARMv7 pass_demo
        (ssys_init (solution ARMv7) (\<lambda>_. 0) demo_owner, block_views_init) = Some (s, p)"
    and s: "owner s 16 = Some 1" "writes p 16 = {0, 1}"
    using pass_run by blast
  have r: "view_reach ARMv7 (\<lambda>_. 0) demo_owner (s, p)"
    by (rule view_run_reach [OF run view_reach.init]) simp
  have "demo_owner 0 = None" by (simp add: demo_owner_def)
  with stack_publishes [OF r] s r show ?thesis by fastforce
qed

end
