(* ===== verification/Stack_Turn.thy ===== *)
theory Stack_Turn
  imports Stack_System
begin

text \<open>
  What happens to the stack when the ABA counter does make a whole turn during one \<open>pop\<close>: an
  execution, for every counter width, after which the list in memory is not the abstract
  stack. It shows that the bound of \<open>stack_short_runs\<close> cannot be dropped, only stretched by
  a constant factor.
\<close>

section \<open>Whole operations\<close>

definition pop_call :: "tid \<Rightarrow> 'w::len word action list" where
  "pop_call t = [Begin_pop t, Step t Whole, Step t Whole, Step t Whole, End t]"

definition push_call :: "tid \<Rightarrow> 'w::len word \<Rightarrow> 'w word action list" where
  "push_call t b = [Begin_push t b, Step t Whole, Step t Whole, Step t Whole, End t]"

lemmas call_eval =
  pop_call_def push_call_def push_entry_def begin_op_def step_op_def modify_step_def
  push_modifier_def pop_modifier_def ghost_step_def end_op_def Let_def fun_upd_idem_iff

lemma run_append:
  "run sol (as @ bs) s = (case run sol as s of None \<Rightarrow> None | Some s' \<Rightarrow> run sol bs s')"
  by (induction as arbitrary: s) (auto split: option.splits)

lemma run_then:
  "run sol as s = Some s1 \<Longrightarrow> run sol bs s1 = Some s2 \<Longrightarrow> run sol (as @ bs) s = Some s2"
  by (simp add: run_append)

text \<open>An undisturbed \<open>pop\<close> or \<open>push\<close> is one modification.\<close>

definition popped_state :: "tid \<Rightarrow> 'w::len word ssys \<Rightarrow> 'w word ssys" where
  "popped_state t s =
     s\<lparr>word0 := heap s (word0 s), word1 := word1 s + 1, version := Suc (version s),
       snap := (snap s)(t := version s), owner := (owner s)(word0 s := Some t),
       hist := hist s @ [Call t Op_pop, Lin t (Popped (word0 s)), Return t (Popped (word0 s))]\<rparr>"

definition pushed_state :: "tid \<Rightarrow> 'w::len word \<Rightarrow> 'w word ssys \<Rightarrow> 'w word ssys" where
  "pushed_state t b s =
     s\<lparr>word0 := b, word1 := word1 s + 1, heap := (heap s)(b := word0 s),
       version := Suc (version s), snap := (snap s)(t := version s), owner := (owner s)(b := None),
       hist := hist s @ [Call t (Op_push b), Lin t (Pushed b), Return t (Pushed b)]\<rparr>"

lemma run_pop_call:
  "thr s t = None \<Longrightarrow> word0 s \<noteq> 0 \<Longrightarrow> run DWCAS (pop_call t) s = Some (popped_state t s)"
  by (simp add: call_eval popped_state_def)

lemma run_push_call:
  "thr s t = None \<Longrightarrow> b \<noteq> 0 \<Longrightarrow> owner s b = Some t \<Longrightarrow>
   run DWCAS (push_call t b) s = Some (pushed_state t b s)"
  by (simp add: call_eval pushed_state_def)

text \<open>Popping and pushing back the top block changes the counter only.\<close>

definition pairs :: "nat \<Rightarrow> tid \<Rightarrow> 'w::len word \<Rightarrow> 'w word action list" where
  "pairs n t x = concat (replicate n (pop_call t @ push_call t x))"

definition after_pairs :: "nat \<Rightarrow> 'w::len word \<Rightarrow> 'w word ssys \<Rightarrow> 'w word ssys \<Rightarrow> bool" where
  "after_pairs n x s s' \<longleftrightarrow>
     word0 s' = x \<and> word1 s' = word1 s + of_nat (2 * n) \<and> heap s' = heap s \<and> thr s' = thr s
     \<and> owner s' = (owner s)(x := None)
     \<and> (\<forall>ys. spec_run [] (lins (hist s)) = Some (x # ys) \<longrightarrow>
             spec_run [] (lins (hist s')) = Some (x # ys))"

lemma spec_run_append:
  "spec_run xs (rs @ qs) = (case spec_run xs rs of None \<Rightarrow> None | Some ys \<Rightarrow> spec_run ys qs)"
  by (induction rs arbitrary: xs) (auto split: option.splits)

lemma run_pair:
  assumes "thr s t = None" and "word0 s = x" and "x \<noteq> 0"
  shows "\<exists>s'. run DWCAS (pop_call t @ push_call t x) s = Some s' \<and> after_pairs 1 x s s'"
proof (intro exI conjI)
  show "run DWCAS (pop_call t @ push_call t x) s = Some (pushed_state t x (popped_state t s))"
    using assms run_pop_call [of s t] run_push_call [of "popped_state t s" t x]
    by (simp add: run_append popped_state_def)
  show "after_pairs 1 x s (pushed_state t x (popped_state t s))"
    using assms by (auto simp: after_pairs_def pushed_state_def popped_state_def spec_run_append)
qed

lemma run_pairs:
  assumes "thr s t = None" and "word0 s = x" and "x \<noteq> 0" and "owner s x = None"
  shows "\<exists>s'. run DWCAS (pairs n t x) s = Some s' \<and> after_pairs n x s s'"
  using assms
proof (induction n arbitrary: s)
  case 0
  then show ?case by (simp add: pairs_def after_pairs_def fun_upd_idem)
next
  case (Suc n)
  obtain s1 where s1: "run DWCAS (pop_call t @ push_call t x) s = Some s1" "after_pairs 1 x s s1"
    using run_pair [OF Suc.prems(1-3)] by blast
  then have "thr s1 t = None" "word0 s1 = x" "owner s1 x = None"
    using Suc.prems(1) by (simp_all add: after_pairs_def)
  from Suc.IH [OF this(1,2) Suc.prems(3) this(3)] obtain s2
    where s2: "run DWCAS (pairs n t x) s1 = Some s2" "after_pairs n x s1 s2" by blast
  have "run DWCAS (pairs (Suc n) t x) s = Some s2"
    using run_then [OF s1(1) s2(1)] by (simp add: pairs_def)
  moreover have "after_pairs (Suc n) x s s2"
    using s1(2) s2(2) by (simp add: after_pairs_def)
  ultimately show ?case by blast
qed

section \<open>The execution\<close>

text \<open>
  Thread 0 pushes \<open>b\<close> and \<open>a\<close>; thread 1 pops up to its compare-and-swap, about to replace
  \<open>a\<close> by \<open>b\<close>; thread 0 takes both blocks, keeps \<open>b\<close>, pushes \<open>c\<close> and \<open>a\<close>, and goes on popping
  and pushing \<open>a\<close> until the counter has its old value again.
\<close>

definition before_turn :: "'w::len word \<Rightarrow> 'w word \<Rightarrow> 'w word \<Rightarrow> 'w word action list" where
  "before_turn a b c =
     push_call 0 b @ push_call 0 a @ [Begin_pop 1, Step 1 Whole, Step 1 Whole]
     @ pop_call 0 @ pop_call 0 @ push_call 0 c @ push_call 0 a"

definition turn_run :: "'w::len word \<Rightarrow> 'w word \<Rightarrow> 'w word \<Rightarrow> 'w word action list" where
  "turn_run a b c =
     before_turn a b c @ pairs ((2 ^ LENGTH('w) - 4) div 2) 0 a @ [Step 1 Whole]"

lemma before_turn_run:
  assumes "distinct [0, a, b, c]" and "own a = Some 0" "own b = Some 0" "own c = Some 0"
  shows "\<exists>s. run DWCAS (before_turn a b c) (ssys_init DWCAS links own) = Some s
    \<and> word0 s = a \<and> word1 s = 7 \<and> thr s 0 = None \<and> owner s a = None \<and> owner s b = Some 0
    \<and> thr s 1 = Some (Op_pop, M_cas a 3 b (Some a))
    \<and> spec_run [] (lins (hist s)) = Some [a, c]"
  using assms
  by (simp add: before_turn_def call_eval ssys_init_def aba_init_def) blast

text \<open>The counter has made a whole turn, so the compare-and-swap of thread 1 stores \<open>b\<close>.\<close>

lemma stale_commit:
  assumes "word0 s = d" "word1 s = k" "thr s t = Some (Op_pop, M_cas d k v (Some d))" "d \<noteq> 0"
  shows "\<exists>s'. run DWCAS [Step t Whole] s = Some s' \<and> word0 s' = v
    \<and> owner s' = (owner s)(d := Some t) \<and> lins (hist s') = lins (hist s) @ [Popped d]"
  using assms by (simp add: step_op_def modify_step_def ghost_step_def)

lemma turn_length:
  assumes "2 \<le> LENGTH('w)"
  shows "2 * ((2 ^ LENGTH('w::len) - 4) div 2) + 4 = (2 ^ LENGTH('w) :: nat)"
proof -
  have "4 dvd (2 ^ LENGTH('w) :: nat)"
    using assms le_imp_power_dvd [of 2 "LENGTH('w)" 2] by simp
  then obtain k where "2 ^ LENGTH('w) = 4 * (k :: nat)" by blast
  moreover have "0 < (2 ^ LENGTH('w) :: nat)" by simp
  ultimately show ?thesis by (cases k) simp_all
qed

lemma full_turn: "2 \<le> LENGTH('w) \<Longrightarrow>
    (7 :: 'w::len word) + of_nat (2 * ((2 ^ LENGTH('w) - 4) div 2)) = 3"
proof -
  assume "2 \<le> LENGTH('w)"
  from turn_length [OF this]
  have "(of_nat (2 * ((2 ^ LENGTH('w) - 4) div 2) + 4) :: 'w word) = of_nat (2 ^ LENGTH('w))"
    by (rule arg_cong)
  then have "(of_nat (2 * ((2 ^ LENGTH('w) - 4) div 2)) :: 'w word) + 4 = 0" by simp
  then show ?thesis by (simp add: algebra_simps)
qed

lemma turn_run_length: "2 \<le> LENGTH('w) \<Longrightarrow>
    length (turn_run (a :: 'w::len word) b c) = 5 * 2 ^ LENGTH('w) + 14"
  using turn_length [where 'w = 'w]
  by (simp add: turn_run_def before_turn_def pairs_def pop_call_def push_call_def
      length_concat sum_list_replicate)

section \<open>Properties\<close>

text \<open>C18. The bound is needed. For every counter width there is an execution with exactly
  \<open>2 ^ w\<close> modifications during one \<open>pop\<close>, of \<open>5 * 2 ^ w + 14\<close> actions, after which the stack
  is broken: the top of the list in memory is a block that a thread holds, and the list is
  not the stack that the completed operations have built.\<close>

theorem stack_breaks_after_turn:
  fixes a b c :: "'w::len word"
  assumes "2 \<le> LENGTH('w)" and "distinct [0, a, b, c]"
    and "own a = Some 0" "own b = Some 0" "own c = Some 0"
  shows "length (turn_run a b c) = 5 * 2 ^ LENGTH('w) + 14
    \<and> (\<exists>s. run DWCAS (turn_run a b c) (ssys_init DWCAS links own) = Some s
         \<and> word0 s = b \<and> owner s b = Some 0
         \<and> \<not> (\<exists>xs. spec_run [] (lins (hist s)) = Some xs \<and> chain (heap s) (word0 s) xs))"
proof
  show "length (turn_run a b c) = 5 * 2 ^ LENGTH('w) + 14" by (rule turn_run_length [OF assms(1)])
  obtain s1 where r1: "run DWCAS (before_turn a b c) (ssys_init DWCAS links own) = Some s1"
    and s1: "word0 s1 = a" "word1 s1 = 7" "thr s1 0 = None" "owner s1 a = None"
      "owner s1 b = Some 0" "thr s1 1 = Some (Op_pop, M_cas a 3 b (Some a))"
      "spec_run [] (lins (hist s1)) = Some [a, c]"
    using before_turn_run [OF assms(2-5), of links] by blast
  have a: "a \<noteq> 0" "b \<noteq> c" "a \<noteq> b" using assms(2) by auto
  obtain s2 where r2: "run DWCAS (pairs ((2 ^ LENGTH('w) - 4) div 2) 0 a) s1 = Some s2"
    and s2: "after_pairs ((2 ^ LENGTH('w) - 4) div 2) a s1 s2"
    using run_pairs [OF s1(3,1) a(1) s1(4)] by blast
  have "word1 s2 = 3" using s2 s1(2) full_turn [OF assms(1)] by (simp add: after_pairs_def)
  with s2 s1(6) stale_commit [of s2 a 3 1 b] a(1) obtain s3
    where r3: "run DWCAS [Step 1 Whole] s2 = Some s3" and s3: "word0 s3 = b"
      "owner s3 = (owner s2)(a := Some 1)" "lins (hist s3) = lins (hist s2) @ [Popped a]"
    by (auto simp: after_pairs_def)
  have "run DWCAS (turn_run a b c) (ssys_init DWCAS links own) = Some s3"
    unfolding turn_run_def by (rule run_then [OF r1 run_then [OF r2 r3]])
  moreover have "owner s3 b = Some 0" using s3(2) s2 s1(5) a(3) by (simp add: after_pairs_def)
  moreover have "spec_run [] (lins (hist s3)) = Some [c]"
    using s3(3) s2 s1(7) by (simp add: after_pairs_def)
  ultimately show "\<exists>s. run DWCAS (turn_run a b c) (ssys_init DWCAS links own) = Some s
      \<and> word0 s = b \<and> owner s b = Some 0
      \<and> \<not> (\<exists>xs. spec_run [] (lins (hist s)) = Some xs \<and> chain (heap s) (word0 s) xs)"
    using s3(1) a(2) by (intro exI [of _ s3]) simp
qed

theorem stack_breaks_after_turn_witness:
  "\<exists>s. run DWCAS (turn_run 16 32 48) (ssys_init DWCAS (\<lambda>_. 0) (\<lambda>x. if x = 0 then None else Some 0))
       = Some s
     \<and> word0 s = (32 :: u32) \<and> owner s 32 = Some 0
     \<and> \<not> (\<exists>xs. spec_run [] (lins (hist s)) = Some xs \<and> chain (heap s) (word0 s) xs)"
  using stack_breaks_after_turn [of "16 :: u32" 32 48 "\<lambda>x. if x = 0 then None else Some 0" "\<lambda>_. 0"]
  by simp

end
