(* ===== verification/Stack_Pool.thy ===== *)
theory Stack_Pool
  imports Stack_System
begin

text \<open>
  Several stacks in one memory, as in \<open>test_stack.cpp\<close>: every thread pops from one stack and
  pushes the block to another. The stacks share the blocks and therefore the memory that
  holds the links. Each of them is shown to be a stack on its own, to which everything that
  happens elsewhere looks like the writes and hand-overs of a client.
\<close>

section \<open>The pool\<close>

text \<open>
  Threads are numbered below \<open>n\<close>. Seen from one stack, the blocks in stack \<open>i\<close> are held by a
  keeper, a number that no thread has. The heap of all components is the one memory.
\<close>

type_synonym 'v pool = "nat \<Rightarrow> 'v ssys"

definition keeper :: "nat \<Rightarrow> nat \<Rightarrow> tid" where
  "keeper n i = n + i"

text \<open>How a change of the owners in stack \<open>i\<close> looks from another stack.\<close>

definition moved ::
    "nat \<Rightarrow> nat \<Rightarrow> ('v \<Rightarrow> tid option) \<Rightarrow> ('v \<Rightarrow> tid option) \<Rightarrow> ('v \<Rightarrow> tid option) \<Rightarrow> 'v \<Rightarrow> tid option"
    where
  "moved n i before after own b =
     (if after b = before b then own b
      else case after b of None \<Rightarrow> Some (keeper n i) | Some u \<Rightarrow> Some u)"

definition pool_update :: "nat \<Rightarrow> nat \<Rightarrow> 'v ssys \<Rightarrow> 'v pool \<Rightarrow> 'v pool" where
  "pool_update n i s' P =
     (\<lambda>j. if j = i then s'
          else (P j)\<lparr>heap := heap s', owner := moved n i (owner (P i)) (owner s') (owner (P j))\<rparr>)"

definition away :: "nat \<Rightarrow> tid \<Rightarrow> 'v pool \<Rightarrow> bool" where
  "away n t P \<longleftrightarrow> t < n \<and> (\<forall>j. thr (P j) t = None)"

text \<open>A thread begins an operation, writes and hands over outside of all operations.\<close>

fun allowed :: "nat \<Rightarrow> 'v action \<Rightarrow> 'v pool \<Rightarrow> bool" where
  "allowed n (Begin_push t b) P \<longleftrightarrow> away n t P"
| "allowed n (Begin_pop t) P \<longleftrightarrow> away n t P"
| "allowed n (Write t a v) P \<longleftrightarrow> away n t P"
| "allowed n (Hand_over t u a) P \<longleftrightarrow> away n t P \<and> u < n"
| "allowed n _ P \<longleftrightarrow> True"

inductive pool_reach ::
    "PlatformABASolution \<Rightarrow> nat \<Rightarrow> 'w::len word links \<Rightarrow> ('w word \<Rightarrow> tid option) \<Rightarrow> 'w word pool \<Rightarrow> bool"
  for sol n links own where
  init: "pool_reach sol n links own (\<lambda>_. ssys_init sol links own)"
| step: "pool_reach sol n links own P \<Longrightarrow> (\<And>j. sol = DWCAS \<Longrightarrow> fresh (P j)) \<Longrightarrow> allowed n a P \<Longrightarrow>
     act sol a (P i) = Some s' \<Longrightarrow> pool_reach sol n links own (pool_update n i s' P)"

fun pool_run ::
    "PlatformABASolution \<Rightarrow> nat \<Rightarrow> (nat \<times> 'w::len word action) list \<Rightarrow> 'w word pool \<Rightarrow>
     'w word pool option" where
  "pool_run sol n [] P = Some P"
| "pool_run sol n ((i, a) # as) P =
     (if allowed n a P
      then case act sol a (P i) of None \<Rightarrow> None | Some s' \<Rightarrow> pool_run sol n as (pool_update n i s' P)
      else None)"

section \<open>What an action changes\<close>

text \<open>Seen from elsewhere: nothing, a write to a block the thread holds, or one block that
  changes hands.\<close>

inductive outside_view ::
    "nat \<Rightarrow> ('w::len word \<Rightarrow> tid option) \<Rightarrow> tid \<Rightarrow> 'w word ssys \<Rightarrow> 'w word ssys \<Rightarrow> bool"
  for n own t s s' where
  same: "heap s' = heap s \<Longrightarrow> owner s' = owner s \<Longrightarrow> outside_view n own t s s'"
| wrote: "owner s b = Some t \<Longrightarrow> heap s' = (heap s)(b := v) \<Longrightarrow> owner s' = owner s \<Longrightarrow>
    outside_view n own t s s'"
| given: "owner s b = Some t \<Longrightarrow> heap s' = heap s \<Longrightarrow> owner s' = (owner s)(b := Some u) \<Longrightarrow> u < n \<Longrightarrow>
    outside_view n own t s s'"
| gone_in: "owner s b = Some t \<Longrightarrow> heap s' = heap s \<Longrightarrow> owner s' = (owner s)(b := None) \<Longrightarrow>
    outside_view n own t s s'"
| taken_out: "owner s b = None \<Longrightarrow> own b \<noteq> None \<Longrightarrow> heap s' = heap s \<Longrightarrow>
    owner s' = (owner s)(b := Some t) \<Longrightarrow> outside_view n own t s s'"

fun actor :: "'v action \<Rightarrow> tid" where
  "actor (Begin_push t b) = t"
| "actor (Begin_pop t) = t"
| "actor (Step t e) = t"
| "actor (End t) = t"
| "actor (Lose_monitor t) = t"
| "actor (Write t a v) = t"
| "actor (Hand_over t u a) = t"
| "actor (Stale_read t v) = t"

lemma push_call_write:
  assumes "stack_inv sol own s xs" and "thr s t = Some (q, pc)"
    and "modify_step sol (stack_ops q) t e pc s = (pc', s1)"
  shows "heap s1 = heap s \<or> (\<exists>b v. owner s b = Some t \<and> heap s1 = (heap s)(b := v)
    \<and> lin_point q pc pc' = None)"
proof (cases q)
  case (Op_push b)
  with assms stack_invD(7) [OF assms(1,2)] show ?thesis
    by (cases rule: modify_step_elim [OF assms(3)]) (auto simp: push_modifier_def)
next
  case Op_pop
  with assms show ?thesis
    by (cases rule: modify_step_elim [OF assms(3)]) (auto simp: pop_modifier_def Let_def split: if_splits)
qed

lemma step_outside_view:
  assumes inv: "stack_inv sol own s xs" and thr: "thr s t = Some (q, pc)"
    and fr: "sol = DWCAS \<Longrightarrow> fresh s"
    and step: "step_op sol stack_ops t e q pc s = (pc', s2)"
  shows "outside_view n own t s (ghost_step t (lin_point q pc pc') s2)"
proof -
  let ?l = "lin_point q pc pc'"
  obtain s1 where s1: "modify_step sol (stack_ops q) t e pc s = (pc', s1)"
    and s2: "s2 = s1\<lparr>thr := (thr s1)(t := Some (q, pc'))\<rparr>"
    using step by (rule step_op_parts)
  obtain ys where ls: "list_step t ?l s xs s1 ys"
    using step_list_step [OF inv thr fr s1] by blast
  have "owner s1 = owner s"
    using s1 by (cases sol; cases pc;
      auto simp: modify_step_def split: if_splits env.splits option.splits prod.splits)
  then have own: "owner (ghost_step t ?l s2) = owner_after t ?l (owner s)"
    and heap: "heap (ghost_step t ?l s2) = heap s1"
    by (simp_all add: ghost_step_def s2)
  show ?thesis
  proof (cases ?l)
    case None
    with push_call_write [OF inv thr s1] own heap show ?thesis
      by (auto intro: outside_view.intros)
  next
    case (Some r)
    with push_call_write [OF inv thr s1] have h: "heap s1 = heap s" by auto
    show ?thesis
    proof (cases r)
      case (Pushed b)
      with Some ls have "owner s b = Some t" by (auto simp: list_step_def)
      with Some Pushed own heap h show ?thesis by (auto intro: outside_view.gone_in)
    next
      case (Popped b)
      with Some ls have xs: "xs = b # ys" by (cases xs) (auto simp: list_step_def split: if_splits)
      then have "owner s b = None" using stack_invD(3) [OF inv, of b] by simp
      moreover have "own b \<noteq> None" using stack_invD(5) [OF inv] xs by auto
      ultimately show ?thesis
        using Some Popped own heap h by (intro outside_view.taken_out [of s b]) auto
    next
      case Found_empty
      with Some own heap h show ?thesis by (auto intro: outside_view.same)
    qed
  qed
qed

section \<open>The invariant of the pool\<close>

text \<open>Where a block is, given as its owner in each of the stacks: with a thread, in one of
  the stacks, or (an address that is no block) nowhere.\<close>

definition placed :: "nat \<Rightarrow> bool \<Rightarrow> (nat \<Rightarrow> tid option) \<Rightarrow> bool" where
  "placed n block f \<longleftrightarrow>
     (\<exists>u < n. \<forall>j. f j = Some u)
     \<or> (\<exists>i. \<forall>j. f j = (if j = i then None else Some (keeper n i)))
     \<or> \<not> block \<and> (\<forall>j. f j = None)"

definition pool_ok :: "nat \<Rightarrow> ('w::len word \<Rightarrow> tid option) \<Rightarrow> 'w word pool \<Rightarrow> bool" where
  "pool_ok n own P \<longleftrightarrow>
     (\<forall>i j. heap (P i) = heap (P j))
     \<and> (\<forall>i j t. thr (P i) t \<noteq> None \<longrightarrow> t < n \<and> (j \<noteq> i \<longrightarrow> thr (P j) t = None))
     \<and> (\<forall>b. placed n (own b \<noteq> None) (\<lambda>i. owner (P i) b))"

lemma keeper_simps [simp]: "\<not> keeper n i < n" "keeper n i = keeper n j \<longleftrightarrow> i = j"
  by (simp_all add: keeper_def)

lemma placedD:
  assumes "placed n block f"
  shows "f i = Some t \<Longrightarrow> t < n \<Longrightarrow> f j = Some t"
    and "f i = None \<Longrightarrow> block \<Longrightarrow> j \<noteq> i \<Longrightarrow> f j = Some (keeper n i)"
  using assms unfolding placed_def by (metis keeper_simps(1) option.inject option.distinct(1))+

lemma pool_okD:
  assumes "pool_ok n own P"
  shows "heap (P i) = heap (P j)"
    and "thr (P i) t \<noteq> None \<Longrightarrow> t < n"
    and "thr (P i) t \<noteq> None \<Longrightarrow> j \<noteq> i \<Longrightarrow> thr (P j) t = None"
    and "placed n (own b \<noteq> None) (\<lambda>i. owner (P i) b)"
  using assms unfolding pool_ok_def by blast+

lemma pool_owner:
  assumes "pool_ok n own P"
  shows "owner (P i) b = Some t \<Longrightarrow> t < n \<Longrightarrow> owner (P j) b = Some t"
    and "owner (P i) b = None \<Longrightarrow> own b \<noteq> None \<Longrightarrow> j \<noteq> i \<Longrightarrow> owner (P j) b = Some (keeper n i)"
  using placedD [OF pool_okD(4) [OF assms, of b]] by blast+

text \<open>An action that shows outside is one of a thread inside this stack or inside none.\<close>

lemma act_outside_view:
  assumes ok: "pool_ok n own P" and inv: "stack_inv sol own (P i) xs"
    and fr: "sol = DWCAS \<Longrightarrow> fresh (P i)" and al: "allowed n a P"
    and act: "act sol a (P i) = Some s'"
  shows "heap s' = heap (P i) \<and> owner s' = owner (P i)
    \<or> actor a < n \<and> (\<forall>j. j \<noteq> i \<longrightarrow> thr (P j) (actor a) = None)
      \<and> outside_view n own (actor a) (P i) s'"
  using act
proof (cases rule: act_elim)
  case (step t e q pc pc' s2)
  with step_outside_view [OF inv step(2) fr step(3), of n] pool_okD(2,3) [OF ok, of i t] show ?thesis
    by simp
next
  case (written t c v)
  with al show ?thesis by (auto simp: away_def intro: outside_view.wrote)
next
  case (handed t u c)
  with al show ?thesis by (auto simp: away_def intro: outside_view.given)
qed (simp_all add: step_defs)

lemma moved_same [simp]: "moved n i f f g = g"
  by (rule ext) (simp add: moved_def)

lemma moved_one:
  "moved n i f (f(b := x)) g =
     (if x = f b then g
      else g(b := (case x of None \<Rightarrow> Some (keeper n i) | Some u \<Rightarrow> Some u)))"
  by (rule ext) (auto simp: moved_def)

text \<open>The other stacks: the action shows there as one of a client, or not at all.\<close>

lemma elsewhere:
  assumes ok: "pool_ok n own P" and inv: "stack_inv sol own (P i) xs"
    and fr: "sol = DWCAS \<Longrightarrow> fresh (P i)" and al: "allowed n a P"
    and act: "act sol a (P i) = Some s'" and j: "j \<noteq> i"
  shows "pool_update n i s' P j = P j
    \<or> (\<exists>a'. act sol a' (P j) = Some (pool_update n i s' P j))"
  using act_outside_view [OF ok inv fr al act]
proof
  assume "heap s' = heap (P i) \<and> owner s' = owner (P i)"
  then show ?thesis using j pool_okD(1) [OF ok, of i j] by (simp add: pool_update_def)
next
  let ?t = "actor a"
  assume "?t < n \<and> (\<forall>j. j \<noteq> i \<longrightarrow> thr (P j) ?t = None) \<and> outside_view n own ?t (P i) s'"
  then have t: "?t < n" "thr (P j) ?t = None" and ov: "outside_view n own ?t (P i) s'"
    using j by auto
  note h = pool_okD(1) [OF ok, of i j] and own = pool_owner(1) [OF ok _ t(1), of i _ j]
  from ov show ?thesis
  proof (cases rule: outside_view.cases)
    case same
    then show ?thesis using j h by (simp add: pool_update_def)
  next
    case (wrote b v)
    then have "act sol (Write ?t b v) (P j) = Some (pool_update n i s' P j)"
      using j h own t(2) by (simp add: pool_update_def)
    then show ?thesis by blast
  next
    case (given b u)
    then have "act sol (Hand_over ?t u b) (P j) = Some (pool_update n i s' P j)"
      using j h own t(2) by (auto simp: pool_update_def moved_one fun_upd_idem)
    then show ?thesis by blast
  next
    case (gone_in b)
    then have "act sol (Hand_over ?t (keeper n i) b) (P j) = Some (pool_update n i s' P j)"
      using j h own t(2) by (simp add: pool_update_def moved_one)
    then show ?thesis by blast
  next
    case (taken_out b)
    have "thr (P j) (keeper n i) = None" using pool_okD(2) [OF ok, of j "keeper n i"] keeper_simps(1) by blast
    then have "act sol (Hand_over (keeper n i) ?t b) (P j) = Some (pool_update n i s' P j)"
      using taken_out j h pool_owner(2) [OF ok taken_out(1,2) j]
      by (simp add: pool_update_def moved_one)
    then show ?thesis by blast
  qed
qed

text \<open>A block gets to a thread, or into stack \<open>i\<close>.\<close>

lemma placed_held: "u < n \<Longrightarrow> placed n block (\<lambda>j. Some u)"
  by (auto simp: placed_def)

lemma placed_kept: "placed n block (\<lambda>j. if j = i then None else Some (keeper n i))"
  by (auto simp: placed_def)

lemma act_thr:
  assumes "pool_ok n own P" and "allowed n a P" and "act sol a (P i) = Some s'"
    and "thr s' t \<noteq> None"
  shows "t < n \<and> (j \<noteq> i \<longrightarrow> thr (P j) t = None)"
proof (cases "thr (P i) t = None")
  case False
  with pool_okD(2,3) [OF assms(1)] show ?thesis by blast
next
  case True
  with assms(2-4) have "away n t P"
    by (cases a)
      (auto simp: push_entry_def begin_op_def end_op_def lose_monitor_def step_op_def
        ghost_step_def simp del: not_None_eq
        split: if_splits option.splits mpc.splits prod.splits stack_op.splits
        dest: modify_step_thr)
  then show ?thesis by (simp add: away_def)
qed

lemma pool_ok_owner:
  assumes ok: "pool_ok n own P" and inv: "stack_inv sol own (P i) xs"
    and fr: "sol = DWCAS \<Longrightarrow> fresh (P i)" and al: "allowed n a P"
    and act: "act sol a (P i) = Some s'"
  shows "placed n (own b \<noteq> None) (\<lambda>j. owner (pool_update n i s' P j) b)"
proof -
  note old = pool_okD(4) [OF ok, of b]
  have upd: "owner (pool_update n i s' P j) =
      (if j = i then owner s' else moved n i (owner (P i)) (owner s') (owner (P j)))" for j
    by (simp add: pool_update_def)
  show ?thesis
    using act_outside_view [OF ok inv fr al act]
  proof
    assume "heap s' = heap (P i) \<and> owner s' = owner (P i)"
    then have "(\<lambda>j. owner (pool_update n i s' P j) b) = (\<lambda>j. owner (P j) b)"
      by (intro ext) (simp add: upd)
    with old show ?thesis by simp
  next
    let ?t = "actor a"
    assume "?t < n \<and> (\<forall>j. j \<noteq> i \<longrightarrow> thr (P j) ?t = None) \<and> outside_view n own ?t (P i) s'"
    then have t: "?t < n" and ov: "outside_view n own ?t (P i) s'" by auto
    have one: ?thesis
      if o: "owner s' = (owner (P i))(c := x)" and x: "x \<noteq> owner (P i) c"
        "case x of None \<Rightarrow> True | Some u \<Rightarrow> u < n" for c x
    proof (cases "b = c")
      case True
      with o x(1) have "(\<lambda>j. owner (pool_update n i s' P j) b)
          = (case x of None \<Rightarrow> \<lambda>j. if j = i then None else Some (keeper n i) | Some u \<Rightarrow> \<lambda>j. Some u)"
        by (intro ext) (auto simp: upd moved_one split: option.splits)
      with x(2) show ?thesis by (auto simp: placed_kept placed_held split: option.splits)
    next
      case False
      with o have "(\<lambda>j. owner (pool_update n i s' P j) b) = (\<lambda>j. owner (P j) b)"
        by (intro ext) (auto simp: upd moved_one)
      with old show ?thesis by simp
    qed
    have same: ?thesis if "owner s' = owner (P i)"
    proof -
      from that have "(\<lambda>j. owner (pool_update n i s' P j) b) = (\<lambda>j. owner (P j) b)"
        by (intro ext) (simp add: upd)
      with old show ?thesis by simp
    qed
    from ov show ?thesis
    proof (cases rule: outside_view.cases)
      case (given c u)
      then show ?thesis
        using one [of c "Some u"] same by (cases "u = ?t") (auto simp: fun_upd_idem)
    qed (use one same t in auto)
  qed
qed

lemma pool_ok_step:
  assumes ok: "pool_ok n own P" and inv: "stack_inv sol own (P i) xs"
    and fr: "sol = DWCAS \<Longrightarrow> fresh (P i)" and al: "allowed n a P"
    and act: "act sol a (P i) = Some s'"
  shows "pool_ok n own (pool_update n i s' P)"
proof -
  have heap: "heap (pool_update n i s' P j) = heap s'" for j by (simp add: pool_update_def)
  have thr: "thr (pool_update n i s' P j) = (if j = i then thr s' else thr (P j))" for j
    by (simp add: pool_update_def)
  note here = act_thr [OF ok al act] and there = pool_okD(2,3) [OF ok]
  have "t < n \<and> (k \<noteq> j \<longrightarrow> thr (pool_update n i s' P k) t = None)"
    if busy: "thr (pool_update n i s' P j) t \<noteq> None" for j k t
  proof (cases "j = i")
    case True
    with busy have "thr s' t \<noteq> None" by (simp add: thr)
    from here [OF this, of k] True show ?thesis by (simp add: thr)
  next
    case False
    with busy have j: "thr (P j) t \<noteq> None" by (simp add: thr)
    with here [of t j] False have "thr s' t = None" by blast
    with there(1) [OF j] there(2) [OF j, of k] show ?thesis by (simp add: thr)
  qed
  with pool_ok_owner [OF ok inv fr al act] show ?thesis
    unfolding pool_ok_def heap by blast
qed

section \<open>Every stack on its own\<close>

lemma pool_reach_stacks:
  assumes "pool_reach sol n links own P" and "own 0 = None" and "\<And>b t. own b = Some t \<Longrightarrow> t < n"
  shows "pool_ok n own P \<and> (\<forall>j. reach sol links own (P j))"
  using assms
proof (induction rule: pool_reach.induct)
  case init
  have "placed n (own b \<noteq> None) (\<lambda>i. own b)" for b
    using init.prems(2) [of b] by (cases "own b") (auto simp: placed_def)
  then have "pool_ok n own (\<lambda>_. ssys_init sol links own)"
    by (simp add: pool_ok_def ssys_init_def Let_def del: not_None_eq)
  then show ?case by (simp add: reach.init)
next
  case (step P a i s')
  then have ok: "pool_ok n own P" and r: "reach sol links own (P j)" for j by simp_all
  obtain xs where inv: "stack_inv sol own (P i) xs"
    using reach_stack_inv [OF r step.prems(1)] by blast
  have "pool_ok n own (pool_update n i s' P)"
    by (rule pool_ok_step [OF ok inv step.hyps(2,3,4)])
  moreover have "reach sol links own (pool_update n i s' P j)" for j
  proof (cases "j = i")
    case True
    with reach.step [OF r step.hyps(2,4)] show ?thesis by (simp add: pool_update_def)
  next
    case False
    from elsewhere [OF ok inv step.hyps(2,3,4) False] show ?thesis
      using r [of j] reach.step [OF r step.hyps(2)] by metis
  qed
  ultimately show ?case by blast
qed

lemma pool_run_reach:
  assumes "pool_run sol n as P = Some P'" and "pool_reach sol n links own P"
    and "\<And>j. sol = DWCAS \<Longrightarrow> version (P j) + length as \<le> 2 ^ LENGTH('w)"
  shows "pool_reach sol n links (own :: 'w::len word \<Rightarrow> tid option) P'"
  using assms
proof (induction "as" arbitrary: P)
  case Nil
  then show ?case by simp
next
  case (Cons ia as)
  obtain i a where ia: "ia = (i, a)" by fastforce
  with Cons.prems(1) obtain s' where al: "allowed n a P" and act: "act sol a (P i) = Some s'"
    and rest: "pool_run sol n as (pool_update n i s' P) = Some P'"
    by (auto split: if_splits option.splits)
  have "fresh (P j)" if "sol = DWCAS" for j
    using Cons.prems(3) [OF that, of j] by (intro fresh_small_version) simp
  then have "pool_reach sol n links own (pool_update n i s' P)"
    using pool_reach.step [OF Cons.prems(2) _ al act] by blast
  moreover have "version (pool_update n i s' P j) + length as \<le> 2 ^ LENGTH('w)"
    if "sol = DWCAS" for j
    using act_version [OF act] Cons.prems(3) [OF that, of i] Cons.prems(3) [OF that, of j]
    by (simp add: pool_update_def)
  ultimately show ?case using Cons.IH [OF rest] by blast
qed

section \<open>What the threads hold\<close>

text \<open>A thread inside an operation has in hand the block it is about to push or has popped; the
  rest of what it holds is its own business.\<close>

fun in_hand ::
    "('w::len word stack_op \<times> ('w word, 'w word option) mpc) option \<Rightarrow> 'w word set" where
  "in_hand (Some (Op_push b, M_done ok r)) = {}"
| "in_hand (Some (Op_push b, pc)) = {b}"
| "in_hand (Some (Op_pop, M_done ok (Some b))) = (if b = 0 then {} else {b})"
| "in_hand _ = {}"

definition held :: "'w::len word pool \<Rightarrow> tid \<Rightarrow> 'w word set" where
  "held P t = {b. owner (P 0) b = Some t}"

lemma held_in: "pool_ok n own P \<Longrightarrow> t < n \<Longrightarrow> held P t = {b. owner (P i) b = Some t}"
  using pool_owner(1) [of n own P 0 _ t i] pool_owner(1) [of n own P i _ t 0]
  by (auto simp: held_def)

lemma in_hand_owned:
  assumes "stack_inv sol own s xs"
  shows "in_hand (thr s t) \<subseteq> {b. owner s b = Some t}"
proof (cases "thr s t")
  case (Some op)
  obtain q pc where op: "op = (q, pc)" by fastforce
  from stack_invD(7) [OF assms Some [unfolded op]] show ?thesis
    by (cases "thr s t" rule: in_hand.cases) (auto simp: Some op)
qed simp

text \<open>A step of \<open>modify\<close> takes a block out of the hand or puts one into it, and leaves what
  other threads hold and the rest of the own blocks alone.\<close>

lemma step_hand:
  assumes inv: "stack_inv sol own s xs" and thr: "thr s t = Some (q, pc)"
    and fr: "sol = DWCAS \<Longrightarrow> fresh s"
    and step: "step_op sol stack_ops t e q pc s = (pc', s2)"
  defines "s' \<equiv> ghost_step t (lin_point q pc pc') s2"
  shows "{b. owner s' b = Some t} - in_hand (Some (q, pc')) = {b. owner s b = Some t} - in_hand (Some (q, pc))"
    and "u \<noteq> t \<Longrightarrow> owner s' b = Some u \<longleftrightarrow> owner s b = Some u"
proof -
  let ?l = "lin_point q pc pc'"
  obtain s1 where s1: "modify_step sol (stack_ops q) t e pc s = (pc', s1)"
    and s2: "s2 = s1\<lparr>thr := (thr s1)(t := Some (q, pc'))\<rparr>"
    using step by (rule step_op_parts)
  obtain ys where ls: "list_step t ?l s xs s1 ys"
    using step_list_step [OF inv thr fr s1] by blast
  have "owner s1 = owner s"
    using s1 by (cases sol; cases pc;
      auto simp: modify_step_def split: if_splits env.splits option.splits prod.splits)
  then have own: "owner s' = owner_after t ?l (owner s)"
    by (simp add: s'_def ghost_step_def s2)
  note ok = stack_invD(7) [OF inv thr]
  have popped: "owner s b = None" if "?l = Some (Popped b)" for b
    using ls that stack_invD(3) [OF inv, of b]
    by (cases xs) (auto simp: list_step_def split: if_splits)
  have pushed: "owner s b = Some t" if "?l = Some (Pushed b)" for b
    using ls that by (auto simp: list_step_def)
  show "u \<noteq> t \<Longrightarrow> owner s' b = Some u \<longleftrightarrow> owner s b = Some u"
    using popped [of b] pushed [of b] own by (cases "(t, ?l, owner s)" rule: owner_after.cases) auto
  show "{b. owner s' b = Some t} - in_hand (Some (q, pc')) = {b. owner s b = Some t} - in_hand (Some (q, pc))"
  proof (cases q)
    case (Op_push c)
    from s1 Op_push show ?thesis
      by (cases rule: modify_step_elim; cases pc; cases pc')
        (auto simp: own push_modifier_def)
  next
    case Op_pop
    from s1 Op_pop show ?thesis
      by (cases rule: modify_step_elim; insert ok popped; cases pc; cases pc')
        (auto simp: own pop_modifier_def Let_def split: if_splits option.splits)
  qed
qed

text \<open>The effect of an action on the threads and on what they hold.\<close>

lemma pool_update_here [simp]: "pool_update n i s' P i = s'"
  by (simp add: pool_update_def)

lemma pool_update_elsewhere [simp]:
  "j \<noteq> i \<Longrightarrow> thr (pool_update n i s' P j) = thr (P j)"
  "j \<noteq> i \<Longrightarrow> word0 (pool_update n i s' P j) = word0 (P j)"
  by (simp_all add: pool_update_def)

lemma act_other_thr: "act sol a s = Some s' \<Longrightarrow> u \<noteq> actor a \<Longrightarrow> thr s' u = thr s u"
  by (cases a)
    (auto simp: push_entry_def begin_op_def end_op_def lose_monitor_def step_op_def ghost_step_def
      split: if_splits option.splits mpc.splits prod.splits stack_op.splits dest: modify_step_thr)

text \<open>Actions that move no block.\<close>

fun still :: "'v action \<Rightarrow> bool" where
  "still (Step t e) \<longleftrightarrow> False"
| "still (Write t a v) \<longleftrightarrow> False"
| "still (Hand_over t u a) \<longleftrightarrow> False"
| "still _ \<longleftrightarrow> True"

lemma act_still: "act sol a s = Some s' \<Longrightarrow> still a \<Longrightarrow> owner s' = owner s \<and> word0 s' = word0 s"
  by (cases a)
    (auto simp: push_entry_def begin_op_def end_op_def lose_monitor_def
      split: if_splits option.splits mpc.splits prod.splits stack_op.splits)

lemma held_still:
  assumes "pool_ok n own P" and "pool_ok n own (pool_update n i s' P)"
    and "act sol a (P i) = Some s'" and "still a" and "u < n"
  shows "held (pool_update n i s' P) u = held P u"
  using held_in [OF assms(1,5), of i] held_in [OF assms(2,5), of i] act_still [OF assms(3,4)] by simp

lemma held_step:
  assumes ok: "pool_ok n own P" "pool_ok n own (pool_update n i s' P)"
    and inv: "stack_inv sol own (P i) xs" and fr: "sol = DWCAS \<Longrightarrow> fresh (P i)"
    and act: "act sol (Step t e) (P i) = Some s'" and u: "u < n"
  shows "u \<noteq> t \<Longrightarrow> held (pool_update n i s' P) u = held P u"
    and "u = t \<Longrightarrow> held (pool_update n i s' P) t - in_hand (thr s' t)
      = held P t - in_hand (thr (P i) t)"
proof -
  from act obtain q pc where thr: "thr (P i) t = Some (q, pc)" by (auto split: option.splits)
  obtain pc' s2 where step: "step_op sol stack_ops t e q pc (P i) = (pc', s2)" by fastforce
  with act thr have s': "s' = ghost_step t (lin_point q pc pc') s2" by simp
  have thr': "thr s' t = Some (q, pc')"
    using step by (auto simp: s' ghost_step_def elim!: step_op_parts)
  note h = held_in [OF ok(1) u, of i] held_in [OF ok(2) u, of i]
  show "u \<noteq> t \<Longrightarrow> held (pool_update n i s' P) u = held P u"
    using step_hand(2) [OF inv thr fr step, of u] h by (simp add: s')
  show "u = t \<Longrightarrow> held (pool_update n i s' P) t - in_hand (thr s' t)
      = held P t - in_hand (thr (P i) t)"
    using step_hand(1) [OF inv thr fr step] h by (simp add: thr thr' flip: s')
qed

lemma in_hand_held:
  assumes "pool_ok n own P" and "stack_inv sol own (P i) xs" and "t < n"
  shows "in_hand (thr (P i) t) \<subseteq> held P t"
  using in_hand_owned [OF assms(2), of t] held_in [OF assms(1,3), of i] by simp

text \<open>A step stays inside its operation.\<close>

lemma step_same_op:
  "act sol (Step t e) s = Some s' \<Longrightarrow> thr s t = Some (q, pc) \<Longrightarrow> \<exists>pc'. thr s' t = Some (q, pc')"
  by (auto simp: step_op_def ghost_step_def split: prod.splits)

section \<open>Properties\<close>

text \<open>Thread 0 pushes its block to stack 0; thread 1 pops it from there and pushes it to
  stack 5.\<close>

definition pool_demo1 :: "(nat \<times> u32 action) list" where
  "pool_demo1 =
     [(0, Begin_push 0 16), (0, Step 0 Whole), (0, Step 0 Whole), (0, Step 0 Whole), (0, End 0)]"

definition pool_demo2 :: "(nat \<times> u32 action) list" where
  "pool_demo2 =
     [(0, Begin_pop 1), (0, Step 1 Whole), (0, Step 1 Whole), (0, Step 1 Whole), (0, End 1)]"

definition pool_demo3 :: "(nat \<times> u32 action) list" where
  "pool_demo3 =
     [(5, Begin_push 1 16), (5, Step 1 Whole), (5, Step 1 Whole), (5, Step 1 Whole)]"

lemma pool_update_apply:
  "pool_update n i s' P j =
     (if j = i then s'
      else (P j)\<lparr>heap := heap s', owner := moved n i (owner (P i)) (owner s') (owner (P j))\<rparr>)"
  by (simp add: pool_update_def)

lemmas pool_eval = away_def stack_eval pool_update_apply moved_one keeper_def

lemma pool_demo1_run:
  "\<exists>P. pool_run DWCAS 2 pool_demo1 (\<lambda>_. ssys_init DWCAS (\<lambda>_. 0) demo_owner) = Some P
     \<and> word0 (P 0) = 16 \<and> owner (P 0) 16 = None \<and> (\<forall>j. thr (P j) 1 = None)"
  by (simp add: pool_demo1_def pool_eval)

lemma pool_demo2_run:
  assumes "word0 (P 0) = 16" and "owner (P 0) 16 = None" and "\<forall>j. thr (P j) 1 = None"
  shows "\<exists>P'. pool_run DWCAS 2 pool_demo2 P = Some P' \<and> owner (P' 5) 16 = Some 1
     \<and> (\<forall>j. thr (P' j) 1 = None)"
  using assms by (simp add: pool_demo2_def pool_eval)

lemma pool_demo3_run:
  assumes "owner (P 5) 16 = Some 1" and "\<forall>j. thr (P j) 1 = None"
  shows "\<exists>P'. pool_run DWCAS 2 pool_demo3 P = Some P' \<and> word0 (P' 5) = 16"
  using assms by (simp add: pool_demo3_def pool_eval)

lemma pool_run_append:
  "pool_run sol n as P = Some P1 \<Longrightarrow> pool_run sol n bs P1 = Some P2 \<Longrightarrow>
   pool_run sol n (as @ bs) P = Some P2"
  by (induction sol n as P rule: pool_run.induct) (auto split: if_splits option.splits)

lemma pool_demo_run:
  "\<exists>P. pool_run DWCAS 2 (pool_demo1 @ pool_demo2 @ pool_demo3)
       (\<lambda>_. ssys_init DWCAS (\<lambda>_. 0) demo_owner) = Some P
     \<and> word0 (P 5) = 16"
  using pool_demo1_run pool_demo2_run pool_demo3_run by (meson pool_run_append)

text \<open>C10. Stacks do not interfere. Any number of threads move blocks between any number of
  stacks that share the memory of the blocks. Each stack is linearizable on its own and its
  list is intact; no block is in two lists; and every block is at every moment either in
  exactly one list or with one thread. On DWCAS the executions are those in which no stack's
  counter makes a whole turn during an attempt in progress.\<close>

theorem stack_pool_linearizable:
  assumes "pool_reach sol n links own P" and "own 0 = None" and "\<And>b t. own b = Some t \<Longrightarrow> t < n"
  shows "\<exists>xs. (\<forall>i. spec_run [] (lins (hist (P i))) = Some (xs i)
        \<and> chain (heap (P 0)) (word0 (P i)) (xs i))
    \<and> (\<forall>i j. i \<noteq> j \<longrightarrow> set (xs i) \<inter> set (xs j) = {})
    \<and> (\<forall>b. own b \<noteq> None \<longrightarrow>
         (\<exists>t < n. \<forall>i. owner (P i) b = Some t) \<noteq> (\<exists>i. b \<in> set (xs i)))"
proof -
  have ok: "pool_ok n own P" and r: "reach sol links own (P j)" for j
    using pool_reach_stacks [OF assms(1,2)] assms(3) by blast+
  have "\<exists>xs. stack_inv sol own (P i) xs" for i
    by (rule reach_stack_inv [OF r assms(2)])
  then obtain xs where inv: "stack_inv sol own (P i) (xs i)" for i by metis
  have unowned: "owner (P i) b = None \<and> own b \<noteq> None" if "b \<in> set (xs i)" for i b
    using stack_invD(3,5) [OF inv] that by blast
  have listed: "b \<in> set (xs i)" if "owner (P i) b = None" "own b \<noteq> None" for i b
    using stack_invD(5) [OF inv, of i] that by blast
  have "set (xs i) \<inter> set (xs j) = {}" if "i \<noteq> j" for i j
  proof -
    have "b \<notin> set (xs j)" if "b \<in> set (xs i)" for b
      using pool_owner(2) [OF ok, of i b j] unowned [OF that] unowned [of b j] \<open>i \<noteq> j\<close> by auto
    then show ?thesis by blast
  qed
  moreover have "(\<exists>t < n. \<forall>i. owner (P i) b = Some t) \<noteq> (\<exists>i. b \<in> set (xs i))"
    if b: "own b \<noteq> None" for b
  proof (cases "\<exists>i. b \<in> set (xs i)")
    case True
    with unowned show ?thesis by (metis option.distinct(1))
  next
    case False
    then have "owner (P i) b \<noteq> None" for i using listed [OF _ b] by blast
    with pool_okD(4) [OF ok, of b] b have "\<exists>t < n. \<forall>i. owner (P i) b = Some t"
      unfolding placed_def by metis
    with False show ?thesis by blast
  qed
  moreover have "chain (heap (P 0)) (word0 (P i)) (xs i)" for i
    using stack_invD(2) [OF inv, of i] pool_okD(1) [OF ok, of i 0] by simp
  ultimately show ?thesis using stack_invD(6) [OF inv] by blast
qed

theorem stack_pool_linearizable_witness:
  "\<exists>P xs. pool_reach DWCAS 2 (\<lambda>_. 0) demo_owner P \<and> word0 (P 5) = 16
     \<and> chain (heap (P 0)) (16 :: u32) (xs (5 :: nat)) \<and> set (xs 0) \<inter> set (xs 5) = {}"
proof -
  obtain P where run: "pool_run DWCAS 2 (pool_demo1 @ pool_demo2 @ pool_demo3)
      (\<lambda>_. ssys_init DWCAS (\<lambda>_. 0) demo_owner) = Some P"
    and P: "word0 (P 5) = 16"
    using pool_demo_run by blast
  have r: "pool_reach DWCAS 2 (\<lambda>_. 0) demo_owner P"
    by (rule pool_run_reach [OF run pool_reach.init])
      (simp add: pool_demo1_def pool_demo2_def pool_demo3_def ssys_init_def aba_init_def)
  have "demo_owner 0 = None" by (simp add: demo_owner_def)
  moreover have "demo_owner b = Some t \<Longrightarrow> t < 2" for b t
    by (auto simp: demo_owner_def split: if_splits)
  ultimately obtain xs where xs: "\<forall>i. spec_run [] (lins (hist (P i))) = Some (xs i)
        \<and> chain (heap (P 0)) (word0 (P i)) (xs i)" "\<forall>i j. i \<noteq> j \<longrightarrow> set (xs i) \<inter> set (xs j) = {}"
    using stack_pool_linearizable [OF r] by blast
  have "chain (heap (P 0)) 16 (xs 5)" using xs(1) P by metis
  moreover have "set (xs 0) \<inter> set (xs 5) = {}" using xs(2) by simp
  ultimately show ?thesis using r P by blast
qed

end
