(* ===== verification/Concurrent_Ptr.thy ===== *)
theory Concurrent_Ptr
  imports Aba_System
begin

text \<open>
  The class template \<open>Concurrent_Ptr\<close> of \<open>concurrent_ptr.hpp\<close>: one pointer in an
  \<open>ABA_Wrapper\<close> with \<open>set\<close>, \<open>get\<close> and \<open>get_counter\<close>, used by any number of threads. It
  is shown to be linearizable to a register that counts its writes. Unlike the stack it
  needs no assumption on the ABA counter, since the modifier of \<open>set\<close> ignores the cached
  pointer.
\<close>

section \<open>The operations\<close>

text \<open>The member \<open>aba_ptr\<close> is the whole state. The heap of the wrapper is not used.\<close>

definition cptr_init ::
    "PlatformABASolution \<Rightarrow> 'w::len word \<Rightarrow> ('w word, unit) aba" where
  "cptr_init sol init = aba_init sol init ()"

definition set_modifier :: "'v \<Rightarrow> ('v, 'h, unit) modifier" where
  "set_modifier ptr h ptr_cached = (Some ptr, h, ())"

definition cptr_set ::
    "PlatformABASolution \<Rightarrow> tid \<Rightarrow> 'w::len word \<Rightarrow> ('w word, 'h, 'z) aba_scheme \<Rightarrow>
     ('w word, 'h, 'z) aba_scheme option" where
  "cptr_set sol t ptr s =
     map_option (\<lambda>(success, captured, s'). s') (modify_run 6 sol (set_modifier ptr) t M_load s)"

definition cptr_get :: "('v, 'h, 'z) aba_scheme \<Rightarrow> 'v" where
  "cptr_get s = aba_get s"

definition cptr_get_counter ::
    "PlatformABASolution \<Rightarrow> ('w::len word, 'h, 'z) aba_scheme \<Rightarrow> 'w word" where
  "cptr_get_counter sol s = aba_get_counter sol s"

section \<open>Threads\<close>

text \<open>
  The log holds the calls and returns of \<open>set\<close> and the values read; \<open>Wrote\<close> is a ghost,
  the moment a \<open>set\<close> takes effect. The two reads are single accesses: \<open>get\<close> uses the data
  half of the double word only and \<open>get_counter\<close> the counter half only.
\<close>

datatype 'v cptr_event =
    Set_called tid 'v
  | Wrote tid 'v
  | Set_returned tid 'v
  | Got tid 'v
  | Counted tid 'v

record 'v csys = "('v, unit, 'v, unit) asys" +
  clog :: "'v cptr_event list"

datatype 'v cptr_action =
    Call_set tid 'v
  | Step_set tid env
  | Return_set tid
  | Do_get tid
  | Do_get_counter tid
  | Switch tid

definition csys_init :: "PlatformABASolution \<Rightarrow> 'w::len word \<Rightarrow> 'w word csys" where
  "csys_init sol init =
     (let s = cptr_init sol init in
      \<lparr>word0 = word0 s, word1 = word1 s, excl = excl s, heap = heap s, version = version s,
       snap = snap s, thr = (\<lambda>_. None), clog = []\<rparr>)"

fun wrote :: "tid \<Rightarrow> 'v \<Rightarrow> ('v, unit) mpc \<Rightarrow> ('v, unit) mpc \<Rightarrow> 'v cptr_event list" where
  "wrote t p (M_cas d k v r) (M_done ok r') = [Wrote t p]"
| "wrote t p _ _ = []"

fun cptr_act ::
    "PlatformABASolution \<Rightarrow> 'w::len word cptr_action \<Rightarrow> 'w word csys \<Rightarrow> 'w word csys option" where
  "cptr_act sol (Call_set t p) s =
     (if thr s t \<noteq> None then None
      else Some ((begin_op t p s)\<lparr>clog := clog s @ [Set_called t p]\<rparr>))"
| "cptr_act sol (Step_set t e) s =
     (case thr s t of
        None \<Rightarrow> None
      | Some (p, pc) \<Rightarrow>
          (case step_op sol set_modifier t e p pc s of
             (pc', s') \<Rightarrow> Some (s'\<lparr>clog := clog s @ wrote t p pc pc'\<rparr>)))"
| "cptr_act sol (Return_set t) s =
     (case thr s t of
        Some (p, M_done ok r) \<Rightarrow> Some ((end_op t s)\<lparr>clog := clog s @ [Set_returned t p]\<rparr>)
      | _ \<Rightarrow> None)"
| "cptr_act sol (Do_get t) s =
     (if thr s t \<noteq> None then None else Some (s\<lparr>clog := clog s @ [Got t (cptr_get s)]\<rparr>))"
| "cptr_act sol (Do_get_counter t) s =
     (if thr s t \<noteq> None then None
      else Some (s\<lparr>clog := clog s @ [Counted t (cptr_get_counter sol s)]\<rparr>))"
| "cptr_act sol (Switch t) s = Some (lose_monitor t s)"

inductive creach :: "PlatformABASolution \<Rightarrow> 'w::len word \<Rightarrow> 'w word csys \<Rightarrow> bool"
  for sol init where
  init: "creach sol init (csys_init sol init)"
| step: "creach sol init s \<Longrightarrow> cptr_act sol a s = Some s' \<Longrightarrow> creach sol init s'"

section \<open>The abstract register\<close>

text \<open>A register with the number of its writes; \<open>None\<close> for an illegal history.\<close>

fun register_step ::
    "PlatformABASolution \<Rightarrow> 'w::len word \<times> nat \<Rightarrow> 'w word cptr_event \<Rightarrow>
     ('w word \<times> nat) option" where
  "register_step sol (x, n) (Wrote t p) = Some (p, Suc n)"
| "register_step sol (x, n) (Got t v) = (if v = x then Some (x, n) else None)"
| "register_step sol (x, n) (Counted t c) =
     (if c = (if sol = DWCAS then of_nat (Suc n) else 0) then Some (x, n) else None)"
| "register_step sol (x, n) _ = Some (x, n)"

fun register_run ::
    "PlatformABASolution \<Rightarrow> 'w::len word \<times> nat \<Rightarrow> 'w word cptr_event list \<Rightarrow>
     ('w word \<times> nat) option" where
  "register_run sol r [] = Some r"
| "register_run sol r (e # es) =
     (case register_step sol r e of None \<Rightarrow> None | Some r' \<Rightarrow> register_run sol r' es)"

lemma register_run_append [simp]:
  "register_run sol r (xs @ ys) =
     (case register_run sol r xs of None \<Rightarrow> None | Some r' \<Rightarrow> register_run sol r' ys)"
  by (induction xs arbitrary: r) (auto split: option.splits)

text \<open>What a thread has done so far in its current call, read off the log.\<close>

datatype 'v set_phase = Set_idle | Set_pending 'v | Set_written 'v | Set_wrong

fun set_phase_step :: "tid \<Rightarrow> 'v set_phase \<Rightarrow> 'v cptr_event \<Rightarrow> 'v set_phase" where
  "set_phase_step t ph (Set_called u p) =
     (if u \<noteq> t then ph else if ph = Set_idle then Set_pending p else Set_wrong)"
| "set_phase_step t ph (Wrote u p) =
     (if u \<noteq> t then ph else if ph = Set_pending p then Set_written p else Set_wrong)"
| "set_phase_step t ph (Set_returned u p) =
     (if u \<noteq> t then ph else if ph = Set_written p then Set_idle else Set_wrong)"
| "set_phase_step t ph e = ph"

definition set_phase :: "'v cptr_event list \<Rightarrow> tid \<Rightarrow> 'v set_phase" where
  "set_phase es t = foldl (set_phase_step t) Set_idle es"

fun expected_phase :: "('v \<times> ('v, unit) mpc) option \<Rightarrow> 'v set_phase" where
  "expected_phase None = Set_idle"
| "expected_phase (Some (p, M_done ok r)) = (if ok then Set_written p else Set_wrong)"
| "expected_phase (Some (p, M_cas d k v r)) = (if v = p then Set_pending p else Set_wrong)"
| "expected_phase (Some (p, pc)) = Set_pending p"

lemma set_phase_simps [simp]:
  "set_phase [] t = Set_idle"
  "set_phase (es @ [e]) t = set_phase_step t (set_phase es t) e"
  by (simp_all add: set_phase_def)

section \<open>The invariant\<close>

definition cptr_inv :: "PlatformABASolution \<Rightarrow> 'w::len word \<Rightarrow> 'w word csys \<Rightarrow> bool" where
  "cptr_inv sol init s \<longleftrightarrow>
     counter_ok sol s
     \<and> register_run sol (init, 0) (clog s) = Some (word0 s, version s)
     \<and> (\<forall>t. set_phase (clog s) t = expected_phase (thr s t) \<and> expected_phase (thr s t) \<noteq> Set_wrong)"

lemma cptr_invD:
  "cptr_inv sol init s \<Longrightarrow> counter_ok sol s"
  "cptr_inv sol init s \<Longrightarrow> register_run sol (init, 0) (clog s) = Some (word0 s, version s)"
  "cptr_inv sol init s \<Longrightarrow> set_phase (clog s) t = expected_phase (thr s t)"
  "cptr_inv sol init s \<Longrightarrow> expected_phase (thr s t) \<noteq> Set_wrong"
  by (simp_all add: cptr_inv_def)

lemma cptr_inv_init: "cptr_inv sol init (csys_init sol init)"
  by (simp add: cptr_inv_def csys_init_def cptr_init_def aba_init_def counter_ok_def Let_def)

text \<open>A step of \<open>set\<close> either leaves the double word alone or is the one that writes it.\<close>

lemma set_step_cases:
  assumes "modify_step sol (set_modifier p) t e pc s = (pc', s')"
    and "expected_phase (Some (p, pc)) \<noteq> Set_wrong" and "counter_ok sol s"
  shows "counter_ok sol s' \<and> expected_phase (Some (p, pc')) \<noteq> Set_wrong
    \<and> (wrote t p pc pc' = [] \<and> word0 s' = word0 s \<and> version s' = version s
         \<and> expected_phase (Some (p, pc')) = expected_phase (Some (p, pc))
       \<or> wrote t p pc pc' = [Wrote t p] \<and> word0 s' = p \<and> version s' = Suc (version s)
         \<and> expected_phase (Some (p, pc)) = Set_pending p
         \<and> expected_phase (Some (p, pc')) = Set_written p)"
  using assms
  by (cases sol; cases pc)
    (auto simp: modify_step_def set_modifier_def counter_ok_def split: if_splits env.splits)

lemma cptr_inv_step:
  assumes inv: "cptr_inv sol init s" and pc: "thr s t = Some (p, pc)"
    and step: "step_op sol set_modifier t e p pc s = (pc', s')"
  shows "cptr_inv sol init (s'\<lparr>clog := clog s @ wrote t p pc pc'\<rparr>)"
proof -
  from step obtain s1 where s1: "modify_step sol (set_modifier p) t e pc s = (pc', s1)"
    and s': "s' = s1\<lparr>thr := (thr s1)(t := Some (p, pc'))\<rparr>"
    by (rule step_op_parts)
  note d = set_step_cases [OF s1 cptr_invD(4) [OF inv, of t, unfolded pc] cptr_invD(1) [OF inv]]
  have "counter_ok sol (s'\<lparr>clog := clog s @ wrote t p pc pc'\<rparr>)"
    using d by (simp add: s' counter_ok_def)
  moreover have "register_run sol (init, 0) (clog s @ wrote t p pc pc')
      = Some (word0 s', version s')"
    using d cptr_invD(2) [OF inv] by (auto simp: s')
  moreover have "set_phase (clog s @ wrote t p pc pc') u = expected_phase (thr s' u)
      \<and> expected_phase (thr s' u) \<noteq> Set_wrong" for u
    using d cptr_invD(3,4) [OF inv, of u] pc modify_step_thr [OF s1]
    by (cases "u = t") (auto simp: s')
  ultimately show ?thesis by (simp add: cptr_inv_def s')
qed

lemma cptr_inv_act:
  assumes inv: "cptr_inv sol init s" and act: "cptr_act sol a s = Some s'"
  shows "cptr_inv sol init s'"
proof (cases a)
  case (Step_set t e)
  with act inv show ?thesis
    by (auto split: option.splits prod.splits intro: cptr_inv_step)
next
  case (Return_set t)
  with act obtain p ok r where pc: "thr s t = Some (p, M_done ok r)"
    and s': "s' = (end_op t s)\<lparr>clog := clog s @ [Set_returned t p]\<rparr>"
    by (auto split: option.splits mpc.splits)
  have "ok" using cptr_invD(4) [OF inv, of t] pc by (auto split: if_splits)
  then show ?thesis
    using inv cptr_invD(3) [OF inv, of t] pc
    by (auto simp: s' cptr_inv_def end_op_def counter_ok_def)
next
  case (Call_set t p)
  with act cptr_invD(3) [OF inv, of t] inv show ?thesis
    by (auto simp: cptr_inv_def begin_op_def counter_ok_def simp del: not_None_eq
        split: if_splits)
next
  case (Do_get t)
  with act inv show ?thesis
    by (auto simp: cptr_inv_def counter_ok_def cptr_get_def aba_get_def split: if_splits)
next
  case (Do_get_counter t)
  with act inv show ?thesis
    by (auto simp: cptr_inv_def counter_ok_def cptr_get_counter_def aba_get_counter_def
        split: if_splits)
next
  case (Switch t)
  with act inv show ?thesis
    by (auto simp: cptr_inv_def counter_ok_def lose_monitor_def)
qed

lemma creach_inv: "creach sol init s \<Longrightarrow> cptr_inv sol init s"
  by (induction rule: creach.induct) (auto intro: cptr_inv_init cptr_inv_act)

section \<open>Properties\<close>

text \<open>Sequential \<open>set\<close>: it returns, \<open>get\<close> then returns the pointer that was set, and the
  counter has moved on by one with DWCAS and stays 0 with LL/SC.\<close>

lemma set_then_get:
  "\<exists>s'. cptr_set sol t p s = Some s' \<and> cptr_get s' = p
     \<and> cptr_get_counter sol s' = cptr_get_counter sol s + (if sol = DWCAS then 1 else 0)"
proof -
  obtain res where run: "modify_run 6 sol (set_modifier p) t M_load s = Some res"
    and eff: "modified sol (set_modifier p) s res"
    using modify_run_alone [of 3 sol "set_modifier p" t s] by auto
  then show ?thesis
    by (cases res)
      (auto simp: cptr_set_def cptr_get_def cptr_get_counter_def aba_get_def aba_get_counter_def
        modified_def set_modifier_def)
qed

text \<open>C13. Linearizability. In every execution of any number of threads, on both kinds of
  platform and however often the ABA counter wraps around, the writes and reads in their
  order are a legal history of a register that counts its writes modulo the word width;
  the register ends with what \<open>get\<close> returns now, and each call of \<open>set\<close> writes its own
  pointer exactly once between its call and its return.\<close>

theorem concurrent_ptr_linearizable:
  assumes "creach sol init s"
  shows "register_run sol (init, 0) (clog s) = Some (cptr_get s, version s)
    \<and> (sol = DWCAS \<longrightarrow> cptr_get_counter sol s = of_nat (Suc (version s)))
    \<and> (\<forall>t. set_phase (clog s) t = expected_phase (thr s t)
         \<and> set_phase (clog s) t \<noteq> Set_wrong)"
  using creach_inv [OF assms]
  by (simp add: cptr_inv_def counter_ok_def cptr_get_def aba_get_def cptr_get_counter_def
      aba_get_counter_def)

fun crun ::
    "PlatformABASolution \<Rightarrow> 'w::len word cptr_action list \<Rightarrow> 'w word csys \<Rightarrow> 'w word csys option"
    where
  "crun sol [] s = Some s"
| "crun sol (a # as) s = (case cptr_act sol a s of None \<Rightarrow> None | Some s' \<Rightarrow> crun sol as s')"

lemma crun_creach: "crun sol as s = Some s' \<Longrightarrow> creach sol init s \<Longrightarrow> creach sol init s'"
  by (induction as arbitrary: s) (auto split: option.splits intro: creach.step)

text \<open>Two threads set, the first one's compare-and-swap fails once, a third one reads.\<close>

definition ptr_demo :: "u32 cptr_action list" where
  "ptr_demo =
     [Call_set 1 16, Call_set 2 32, Step_set 1 Whole, Step_set 1 Whole, Step_set 2 Whole,
      Step_set 2 Whole, Step_set 2 Whole, Do_get 3, Step_set 1 Whole, Step_set 1 Whole,
      Step_set 1 Whole, Return_set 1, Do_get 3, Do_get_counter 1]"

lemmas ptr_eval =
  ptr_demo_def csys_init_def cptr_init_def aba_init_def begin_op_def end_op_def step_op_def
  modify_step_def set_modifier_def cptr_get_def cptr_get_counter_def aba_get_def
  aba_get_counter_def

lemma ptr_demo_run:
  "\<exists>s. crun DWCAS ptr_demo (csys_init DWCAS 0) = Some s
     \<and> clog s = [Set_called 1 16, Set_called 2 32, Wrote 2 32, Got 3 32, Wrote 1 16,
        Set_returned 1 16, Got 3 16, Counted 1 3]"
  by (simp add: ptr_eval)

theorem concurrent_ptr_linearizable_witness:
  "\<exists>s :: u32 csys. creach DWCAS 0 s \<and> cptr_get s = 16 \<and> cptr_get_counter DWCAS s = 3"
proof -
  obtain s where run: "crun DWCAS ptr_demo (csys_init DWCAS 0) = Some s"
    and log: "clog s = [Set_called 1 16, Set_called 2 32, Wrote 2 32, Got 3 32, Wrote 1 16,
        Set_returned 1 16, Got 3 16, Counted 1 3]"
    using ptr_demo_run by blast
  have r: "creach DWCAS 0 s" by (rule crun_creach [OF run creach.init])
  note lin = concurrent_ptr_linearizable [OF r]
  then have "cptr_get s = 16" and "version s = 2" by (auto simp: log)
  with lin r show ?thesis by (intro exI [of _ s]) simp
qed

end
