(* ===== verification/Ptr_Views.thy ===== *)
theory Ptr_Views
  imports Concurrent_Ptr Aba_Views
begin

text \<open>
  What \<open>Concurrent_Ptr\<close> hands on with a pointer: a thread that prepares an object and sets
  the pointer to it, and a thread that gets the pointer and uses the object.
\<close>

section \<open>The pointer with views\<close>

text \<open>\<open>stored\<close> holds, newest first, each pointer that was set with the view its setter had
  when the store took effect.\<close>

record 'v ptr_views =
  pviews :: "tid \<Rightarrow> tview"
  pcarried :: "unit cell"
  stored :: "('v \<times> view) list"

definition ptr_views_init :: "'v ptr_views" where
  "ptr_views_init =
     \<lparr>pviews = (\<lambda>_. tview_init), pcarried = \<lparr>atomic = (), heads = []\<rparr>, stored = []\<rparr>"

datatype 'v ptr_action = Ptr "'v cptr_action" | Prepare tid nat

definition prepare :: "tid \<Rightarrow> nat \<Rightarrow> 'v ptr_views \<Rightarrow> 'v ptr_views" where
  "prepare t e p =
     p\<lparr>pviews := (pviews p)(t := (pviews p t)\<lparr>v_cur := insert e (v_cur (pviews p t)),
                                            v_acq := insert e (v_acq (pviews p t))\<rparr>)\<rparr>"

definition ptr_sync :: "tid \<Rightarrow> (sync \<Rightarrow> sync) \<Rightarrow> 'v ptr_views \<Rightarrow> 'v ptr_views" where
  "ptr_sync t f p =
     (case f (pviews p t, pcarried p) of
        (tv', c') \<Rightarrow> p\<lparr>pviews := (pviews p)(t := tv'), pcarried := c'\<rparr>)"

text \<open>A thread prepares its object before it calls \<open>set\<close>; the events of the log tell what
  the other actions have done.\<close>

definition ptr_publish ::
    "variant \<Rightarrow> 'w::len word cptr_action \<Rightarrow> 'w word csys \<Rightarrow> 'w word csys \<Rightarrow> 'w word ptr_views \<Rightarrow>
     'w word ptr_views" where
  "ptr_publish V a s s' p =
     (case a of
        Step_set t e \<Rightarrow>
          (case (thr s t, thr s' t) of
             (Some (q, pc), Some (q', pc')) \<Rightarrow>
               (ptr_sync t (modify_sync V t pc pc') p)
                 \<lparr>stored := (if wrote t q pc pc' = [] then [] else [(q, v_cur (pviews p t))])
                            @ stored p\<rparr>
           | _ \<Rightarrow> p)
      | Do_get t \<Rightarrow> ptr_sync t (get_sync V) p
      | Do_get_counter t \<Rightarrow> if solution V = DWCAS then ptr_sync t (load_sync V) p else p
      | _ \<Rightarrow> p)"

fun ptr_act ::
    "variant \<Rightarrow> 'w::len word ptr_action \<Rightarrow> 'w word csys \<times> 'w word ptr_views \<Rightarrow>
     ('w word csys \<times> 'w word ptr_views) option" where
  "ptr_act V (Ptr a) (s, p) =
     map_option (\<lambda>s'. (s', ptr_publish V a s s' p)) (cptr_act (solution V) a s)"
| "ptr_act V (Prepare t e) (s, p) = (if thr s t = None then Some (s, prepare t e p) else None)"

inductive ptr_reach ::
    "variant \<Rightarrow> 'w::len word \<Rightarrow> 'w word csys \<times> 'w word ptr_views \<Rightarrow> bool"
  for V init where
  init: "ptr_reach V init (csys_init (solution V) init, ptr_views_init)"
| step: "ptr_reach V init sp \<Longrightarrow> ptr_act V a sp = Some sp' \<Longrightarrow> ptr_reach V init sp'"

fun ptr_run ::
    "variant \<Rightarrow> 'w::len word ptr_action list \<Rightarrow> 'w word csys \<times> 'w word ptr_views \<Rightarrow>
     ('w word csys \<times> 'w word ptr_views) option" where
  "ptr_run V [] sp = Some sp"
| "ptr_run V (a # as) sp = (case ptr_act V a sp of None \<Rightarrow> None | Some sp' \<Rightarrow> ptr_run V as sp')"

lemma ptr_run_reach: "ptr_run V as sp = Some sp' \<Longrightarrow> ptr_reach V init sp \<Longrightarrow> ptr_reach V init sp'"
  by (induction "as" arbitrary: sp) (auto split: option.splits intro: ptr_reach.step)

section \<open>The invariant\<close>

text \<open>
  The double word carries every view that came with a store, and the newest entry is the
  pointer \<open>get\<close> reads.
\<close>

definition newest :: "'v \<Rightarrow> ('v \<times> view) list \<Rightarrow> 'v" where
  "newest init es = (case es of [] \<Rightarrow> init | (q, v) # _ \<Rightarrow> q)"

definition stored_inv :: "'w \<Rightarrow> 'w csys \<Rightarrow> 'w ptr_views \<Rightarrow> bool" where
  "stored_inv init s p \<longleftrightarrow>
     (\<forall>t. tview_ok (pviews p t))
     \<and> (\<forall>e \<in> set (stored p). snd e \<subseteq> joined (heads (pcarried p)))
     \<and> word0 s = newest init (stored p)"

lemma ptr_reach_creach: "ptr_reach V init sp \<Longrightarrow> creach (solution V) init (fst sp)"
proof (induction rule: ptr_reach.induct)
  case init
  then show ?case by (simp add: creach.init)
next
  case (step sp a sp')
  then show ?case by (cases "(V, a, sp)" rule: ptr_act.cases) (auto intro: creach.step split: if_splits)
qed

text \<open>An access that keeps what the word carries and does not forget.\<close>

lemma stored_inv_sync:
  assumes "stored_inv init s p"
    and "\<And>a. tview_ok (fst a) \<Longrightarrow>
      tview_ok (fst (f a)) \<and> joined (heads (snd a)) \<subseteq> joined (heads (snd (f a)))"
    and "word0 s' = word0 s"
  shows "stored_inv init s' (ptr_sync t f p)"
proof -
  obtain tv' c' where f: "f (pviews p t, pcarried p) = (tv', c')" by fastforce
  have "tview_ok (fst (pviews p t, pcarried p))" using assms(1) by (simp add: stored_inv_def)
  from assms(2) [OF this] f have "tview_ok tv'" "joined (heads (pcarried p)) \<subseteq> joined (heads c')"
    by simp_all
  then show ?thesis
    using assms(1,3) f by (fastforce simp: stored_inv_def ptr_sync_def)
qed

lemma wrote_cases:
  "wrote t q pc pc' \<noteq> [] \<Longrightarrow> \<exists>d k v r ok r'. pc = M_cas d k v r \<and> pc' = M_done ok r'"
  by (cases "(t, q, pc, pc')" rule: wrote.cases) auto

lemma stored_inv_step:
  assumes inv: "cptr_inv (solution V) init s" and st: "stored_inv init s p"
    and thr: "thr s t = Some (q, pc)"
    and step: "step_op (solution V) set_modifier t e q pc s = (pc', s2)"
  shows "stored_inv init (s2\<lparr>clog := es\<rparr>)
    ((ptr_sync t (modify_sync V t pc pc') p)
      \<lparr>stored := (if wrote t q pc pc' = [] then [] else [(q, v_cur (pviews p t))]) @ stored p\<rparr>)"
proof -
  obtain s1 where s1: "modify_step (solution V) (set_modifier q) t e pc s = (pc', s1)"
    and s2: "s2 = s1\<lparr>thr := (thr s1)(t := Some (q, pc'))\<rparr>"
    using step by (rule step_op_parts)
  note d = set_step_cases [OF s1 cptr_invD(4) [OF inv, of t, unfolded thr] cptr_invD(1) [OF inv]]
  let ?p = "ptr_sync t (modify_sync V t pc pc') p"
  have mono: "tview_ok (fst a) \<Longrightarrow> tview_ok (fst (modify_sync V t pc pc' a))
      \<and> joined (heads (snd a)) \<subseteq> joined (heads (snd (modify_sync V t pc pc' a)))" for a
    using modify_sync_mono [of a V t pc pc'] by simp
  have kept: "stored_inv init s ?p" by (rule stored_inv_sync [OF st mono refl])
  have stored: "stored ?p = stored p" by (simp add: ptr_sync_def split: prod.splits)
  show ?thesis
  proof (cases "wrote t q pc pc' = []")
    case True
    with d kept stored show ?thesis by (simp add: stored_inv_def s2)
  next
    case False
    from wrote_cases [OF False] obtain d0 k v r ok r'
      where pc: "pc = M_cas d0 k v r" "pc' = M_done ok r'" by blast
    have "tview_ok (fst (pviews p t, pcarried p))" using st by (simp add: stored_inv_def)
    from sync.st_publishes [OF this, of V t]
    have "v_cur (pviews p t) \<subseteq> joined (heads (pcarried ?p))"
      by (auto simp: ptr_sync_def pc split: prod.splits)
    with False d kept stored show ?thesis by (simp add: stored_inv_def s2 newest_def)
  qed
qed

lemma stored_inv_cong:
  "stored_inv init s p \<Longrightarrow> word0 s' = word0 s \<Longrightarrow> stored_inv init s' p"
  by (simp add: stored_inv_def)

lemma stored_inv_act:
  assumes inv: "cptr_inv (solution V) init s" and st: "stored_inv init s p"
    and act: "cptr_act (solution V) a s = Some s'"
  shows "stored_inv init s' (ptr_publish V a s s' p)"
proof (cases a)
  case (Step_set t e)
  with act obtain q pc where thr: "thr s t = Some (q, pc)" by (auto split: option.splits)
  obtain pc' s2 where step: "step_op (solution V) set_modifier t e q pc s = (pc', s2)" by fastforce
  with act Step_set thr have s': "s' = s2\<lparr>clog := clog s @ wrote t q pc pc'\<rparr>" by simp
  have "thr s' t = Some (q, pc')" using step by (auto simp: s' elim!: step_op_parts)
  with stored_inv_step [OF inv st thr step] s' thr Step_set show ?thesis
    by (simp add: ptr_publish_def)
next
  case (Do_get t)
  with act have w: "word0 s' = word0 s" by (auto split: if_splits)
  show ?thesis
    using stored_inv_sync [OF st _ w, of "get_sync V" t] get_sync_acquires [of _ V] Do_get
    by (simp add: ptr_publish_def)
next
  case (Do_get_counter t)
  with act have w: "word0 s' = word0 s" by (auto split: if_splits)
  show ?thesis
    using stored_inv_sync [OF st _ w, of "load_sync V" t] sync.ld_acquires [of _ V]
      sync.ld_keeps [of V] stored_inv_cong [OF st w] Do_get_counter
    by (simp add: ptr_publish_def)
next
  case (Return_set t)
  with act have "word0 s' = word0 s"
    by (auto simp: end_op_def split: option.splits mpc.splits)
  with stored_inv_cong [OF st] Return_set show ?thesis by (simp add: ptr_publish_def)
qed (use act st in \<open>auto simp: ptr_publish_def begin_op_def lose_monitor_def
      intro: stored_inv_cong split: if_splits\<close>)

lemma stored_inv_prepare: "stored_inv init s p \<Longrightarrow> stored_inv init s (prepare t e p)"
  by (auto simp: stored_inv_def prepare_def tview_ok_def)

lemma ptr_reach_inv: "ptr_reach V init sp \<Longrightarrow> stored_inv init (fst sp) (snd sp)"
proof (induction rule: ptr_reach.induct)
  case init
  show ?case
    by (simp add: stored_inv_def ptr_views_init_def csys_init_def cptr_init_def aba_init_def
        newest_def tview_ok_def tview_init_def Let_def)
next
  case (step sp a sp')
  note inv = creach_inv [OF ptr_reach_creach [OF step.hyps(1)]]
  from step.hyps(2) step.IH inv show ?case
    by (cases "(V, a, sp)" rule: ptr_act.cases)
      (auto intro: stored_inv_act stored_inv_prepare split: if_splits)
qed

section \<open>Properties\<close>

text \<open>Thread 1 prepares an object (write 7) and sets the pointer to it, thread 2 gets it.\<close>

definition handing_demo :: "u32 ptr_action list" where
  "handing_demo =
     Prepare 1 7 # map Ptr [Call_set 1 16, Step_set 1 Whole, Step_set 1 Whole, Step_set 1 Whole,
       Return_set 1]"

lemmas ptr_view_eval =
  ptr_eval handing_demo_def ptr_views_init_def prepare_def ptr_sync_def ptr_publish_def
  get_sync_def fenced_def sse_load_sync_def locked_load_sync_def dw_cas_sync_def
  store_ex_sync_def ldaxr_sync_def stlxr_sync_def ldrex_dmb_sync_def dmb_strex_sync_def load_def
  rmw_def after_read_def acquires_def releases_def published_def atomic_thread_fence_def
  tview_init_def

lemma handing_run:
  "\<exists>s p. ptr_run V handing_demo (csys_init (solution V) 0, ptr_views_init) = Some (s, p)
     \<and> stored p = [(16, {7})] \<and> thr s 2 = None"
  by (cases V) (simp_all add: ptr_view_eval)

text \<open>C14. Safe publication through a \<open>Concurrent_Ptr\<close>. On every platform and under every
  interleaving, \<open>get\<close> returns the pointer of the last \<open>set\<close> that took effect, and everything
  that the thread which set it, or any earlier pointer, had done or learnt before happens
  before what the getting thread does next: it sees the object fully constructed.\<close>

theorem concurrent_ptr_publishes:
  assumes "ptr_reach V init (s, p)" and "ptr_act V (Ptr (Do_get t)) (s, p) = Some (s', p')"
  shows "cptr_get s = newest init (stored p) \<and> stored p' = stored p
    \<and> (\<forall>(q, v) \<in> set (stored p). v \<subseteq> v_cur (pviews p' t))"
proof -
  have inv: "stored_inv init s p" using ptr_reach_inv [OF assms(1)] by simp
  then have tv: "tview_ok (fst (pviews p t, pcarried p))" by (simp add: stored_inv_def)
  have p': "p' = ptr_sync t (get_sync V) p"
    using assms(2) by (auto simp: ptr_publish_def split: if_splits)
  have "joined (heads (pcarried p)) \<subseteq> v_cur (pviews p' t)" "stored p' = stored p"
    using get_sync_acquires [OF tv, of V] by (auto simp: p' ptr_sync_def split: prod.splits)
  with inv show ?thesis by (fastforce simp: stored_inv_def cptr_get_def aba_get_def)
qed

theorem concurrent_ptr_publishes_witness:
  "\<exists>s p s' p'. ptr_reach A64 0 (s, p) \<and> ptr_act A64 (Ptr (Do_get 2)) (s, p) = Some (s', p')
     \<and> cptr_get s = (16 :: u32) \<and> 7 \<in> v_cur (pviews p' 2)"
proof -
  obtain s p where run: "ptr_run A64 handing_demo (csys_init (solution A64) 0, ptr_views_init)
      = Some (s, p)" and s: "stored p = [(16, {7})]" "thr s 2 = None"
    using handing_run by blast
  have r: "ptr_reach A64 0 (s, p)" by (rule ptr_run_reach [OF run ptr_reach.init])
  obtain s' p' where act: "ptr_act A64 (Ptr (Do_get 2)) (s, p) = Some (s', p')"
    using s(2) by simp
  from concurrent_ptr_publishes [OF r act] s r act show ?thesis by (fastforce simp: newest_def)
qed

end
