(* ===== verification/Asm_X86.thy ===== *)
theory Asm_X86
  imports Platform
begin

text \<open>
  The inline assembler of \<open>atomic_asm_x86.hpp\<close>: the state of the registers an assembler
  block names, the instructions it uses, and the six functions (double-word load, store
  and compare-and-swap, for 64-bit and for 32-bit halves) in all the variants the
  preprocessor selects between. The contract \<open>dwcas\<close> says what the ABA wrapper relies
  on; every variant is shown to fulfil it.
\<close>

section \<open>Machine state and instructions\<close>

text \<open>
  \<open>'r\<close> is the type of the registers, \<open>'w\<close> of one half of the double word at \<open>ptr\<close>:
  \<open>(u64, u64)\<close> for the 64-bit functions on x86\_64, \<open>(u64, u32)\<close> for the 32-bit ones
  on x86\_64, \<open>(u32, u32)\<close> on i686. The SSE register is its two quadwords. \<open>sse_load\<close> is a
  property of the processor that no instruction changes: whether a 16-byte SSE load is one
  access to the memory, which the manufacturers promise with AVX only, or two accesses to the
  quadwords, in either order (\<open>CMakeLists.txt\<close>: ``probably needs AVX to be atomic'').
\<close>

datatype sse_load = At_once | Low_half_first | High_half_first

record ('r, 'w) x86 =
  rax :: 'r
  rbx :: 'r
  rcx :: 'r
  rdx :: 'r
  sse_lo :: 'r
  sse_hi :: 'r
  zf :: bool
  sse_load :: sse_load
  m0 :: 'w
  m1 :: 'w

definition mem :: "('r, 'w) x86 \<Rightarrow> 'w \<times> 'w" where
  "mem s = (m0 s, m1 s)"

definition set_mem :: "'w \<times> 'w \<Rightarrow> ('r, 'w) x86 \<Rightarrow> ('r, 'w) x86" where
  "set_mem m s = s\<lparr>m0 := fst m, m1 := snd m\<rparr>"

text \<open>A 32-bit operand in a 64-bit register leaves the upper half as it was.\<close>

definition put_low :: "'r::len word \<Rightarrow> 'w::len word \<Rightarrow> 'r word" where
  "put_low r w = (r AND NOT (mask LENGTH('w))) OR ucast w"

text \<open>\<open>lock cmpxchg16b (ptr)\<close> and \<open>lock cmpxchg8b (ptr)\<close>: one atomic action.\<close>

definition lock_cmpxchg ::
    "('r::len word, 'w::len word) x86 \<Rightarrow> ('r word, 'w word) x86" where
  "lock_cmpxchg s =
     (if m0 s = ucast (rax s) \<and> m1 s = ucast (rdx s)
      then s\<lparr>zf := True, m0 := ucast (rbx s), m1 := ucast (rcx s)\<rparr>
      else s\<lparr>zf := False, rax := ucast (m0 s), rdx := ucast (m1 s)\<rparr>)"

definition mov_rbx_rax :: "('r, 'w) x86 \<Rightarrow> ('r, 'w) x86" where
  "mov_rbx_rax s = s\<lparr>rax := rbx s\<rparr>"

definition mov_rcx_rdx :: "('r, 'w) x86 \<Rightarrow> ('r, 'w) x86" where
  "mov_rcx_rdx s = s\<lparr>rdx := rcx s\<rparr>"

definition mov_0ptr_rax :: "('r::len word, 'w::len word) x86 \<Rightarrow> ('r word, 'w word) x86" where
  "mov_0ptr_rax s = s\<lparr>rax := ucast (m0 s)\<rparr>"

definition mov_hiptr_rdx :: "('r::len word, 'w::len word) x86 \<Rightarrow> ('r word, 'w word) x86" where
  "mov_hiptr_rdx s = s\<lparr>rdx := ucast (m1 s)\<rparr>"

text \<open>
  The SSE instructions of the fast 64-bit variants. The load is two steps, between which other
  threads may write; where it is one access the second step does nothing. The store, which
  only the constructor of \<open>ABA_Wrapper\<close> uses, when no other thread knows the object, is one.
\<close>

definition movdqa_load1 :: "(u64, u64) x86 \<Rightarrow> (u64, u64) x86" where
  "movdqa_load1 s =
     (case sse_load s of
        At_once \<Rightarrow> s\<lparr>sse_lo := m0 s, sse_hi := m1 s\<rparr>
      | Low_half_first \<Rightarrow> s\<lparr>sse_lo := m0 s\<rparr>
      | High_half_first \<Rightarrow> s\<lparr>sse_hi := m1 s\<rparr>)"

definition movdqa_load2 :: "(u64, u64) x86 \<Rightarrow> (u64, u64) x86" where
  "movdqa_load2 s =
     (case sse_load s of
        At_once \<Rightarrow> s
      | Low_half_first \<Rightarrow> s\<lparr>sse_hi := m1 s\<rparr>
      | High_half_first \<Rightarrow> s\<lparr>sse_lo := m0 s\<rparr>)"

definition movdqa_store :: "(u64, u64) x86 \<Rightarrow> (u64, u64) x86" where
  "movdqa_store s = s\<lparr>m0 := sse_lo s, m1 := sse_hi s\<rparr>"

definition movq_sse_rax :: "(u64, u64) x86 \<Rightarrow> (u64, u64) x86" where
  "movq_sse_rax s = s\<lparr>rax := sse_lo s\<rparr>"

definition movq_sse_rdx :: "(u64, u64) x86 \<Rightarrow> (u64, u64) x86" where
  "movq_sse_rdx s = s\<lparr>rdx := sse_lo s\<rparr>"

definition punpckhqdq :: "(u64, u64) x86 \<Rightarrow> (u64, u64) x86" where
  "punpckhqdq s = s\<lparr>sse_lo := sse_hi s, sse_hi := sse_hi s\<rparr>"

definition movq_rbx_sse :: "(u64, u64) x86 \<Rightarrow> (u64, u64) x86" where
  "movq_rbx_sse s = s\<lparr>sse_lo := rbx s, sse_hi := 0\<rparr>"

definition pinsrq_1_rcx :: "(u64, u64) x86 \<Rightarrow> (u64, u64) x86" where
  "pinsrq_1_rcx s = s\<lparr>sse_hi := rcx s\<rparr>"

text \<open>The 64-bit accesses and shifts of the 32-bit functions on x86\_64.\<close>

definition movq_ptr_rax :: "(u64, u32) x86 \<Rightarrow> (u64, u32) x86" where
  "movq_ptr_rax s = s\<lparr>rax := word_cat (m1 s) (m0 s)\<rparr>"

definition movq_rcx_ptr :: "(u64, u32) x86 \<Rightarrow> (u64, u32) x86" where
  "movq_rcx_ptr s = s\<lparr>m0 := ucast (rcx s), m1 := ucast (drop_bit 32 (rcx s))\<rparr>"

definition shldq_32_rax_rdx :: "(u64, u32) x86 \<Rightarrow> (u64, u32) x86" where
  "shldq_32_rax_rdx s = s\<lparr>rdx := push_bit 32 (rdx s) OR drop_bit 32 (rax s)\<rparr>"

definition shlq_32_rbx :: "(u64, u32) x86 \<Rightarrow> (u64, u32) x86" where
  "shlq_32_rbx s = s\<lparr>rbx := push_bit 32 (rbx s)\<rparr>"

definition shldq_32_rbx_rcx :: "(u64, u32) x86 \<Rightarrow> (u64, u32) x86" where
  "shldq_32_rbx_rcx s = s\<lparr>rcx := push_bit 32 (rcx s) OR drop_bit 32 (rbx s)\<rparr>"

lemmas [asm_defs] =
  lock_cmpxchg_def mov_rbx_rax_def mov_rcx_rdx_def mov_0ptr_rax_def mov_hiptr_rdx_def
  movdqa_load1_def movdqa_load2_def movdqa_store_def movq_sse_rax_def movq_sse_rdx_def
  punpckhqdq_def movq_rbx_sse_def pinsrq_1_rcx_def movq_ptr_rax_def movq_rcx_ptr_def
  shldq_32_rax_rdx_def shlq_32_rbx_def shldq_32_rbx_rcx_def mem_def set_mem_def

section \<open>Assembler blocks under interference\<close>

text \<open>
  Other threads run between two instructions. The list \<open>ms\<close> holds, for each instruction,
  the memory content the other threads have left when it executes; after its end there is
  no more interference.
\<close>

fun exec_block ::
    "(('r, 'w) x86 \<Rightarrow> ('r, 'w) x86) list \<Rightarrow> ('w \<times> 'w) list \<Rightarrow> ('r, 'w) x86 \<Rightarrow> ('r, 'w) x86" where
  "exec_block [] ms s = s"
| "exec_block (i # is) [] s = exec_block is [] (i s)"
| "exec_block (i # is) (m # ms) s = exec_block is ms (i (set_mem m s))"

text \<open>The loop \<open>1: lock cmpxchg (ptr); jne 1b\<close>, with a bound on its iterations.\<close>

fun cmpxchg_loop ::
    "nat \<Rightarrow> ('w word \<times> 'w word) list \<Rightarrow> ('r::len word, 'w::len word) x86 \<Rightarrow>
     ('r word, 'w word) x86 option" where
  "cmpxchg_loop 0 ms s = None"
| "cmpxchg_loop (Suc n) ms s =
     (let s' = lock_cmpxchg (case ms of [] \<Rightarrow> s | m # _ \<Rightarrow> set_mem m s) in
      if zf s' then Some s' else cmpxchg_loop n (tl ms) s')"

section \<open>The functions of the header\<close>

text \<open>Output operands: \<open>target[0]\<close> is read from \<open>a\<close>, \<open>target[1]\<close> from \<open>d\<close>.\<close>

definition out_ad :: "('r::len word, 'w) x86 \<Rightarrow> 'v::len word \<times> 'v word" where
  "out_ad s = (ucast (rax s), ucast (rdx s))"

definition in_bc ::
    "'v::len word \<times> 'v word \<Rightarrow> ('r::len word, 'w) x86 \<Rightarrow> ('r word, 'w) x86" where
  "in_bc d s = s\<lparr>rbx := put_low (rbx s) (fst d), rcx := put_low (rcx s) (snd d)\<rparr>"

definition in_ad ::
    "'v::len word \<times> 'v word \<Rightarrow> ('r::len word, 'w) x86 \<Rightarrow> ('r word, 'w) x86" where
  "in_ad e s = s\<lparr>rax := put_low (rax s) (fst e), rdx := put_low (rdx s) (snd e)\<rparr>"

text \<open>64-bit halves on x86\_64: the \<open>X86_64_FAST_DW_LOAD\<close> variant and the other one.\<close>

definition dw_load64_fast ::
    "(u64 \<times> u64) list \<Rightarrow> (u64, u64) x86 \<Rightarrow> (u64 \<times> u64) \<times> (u64, u64) x86" where
  "dw_load64_fast ms s =
     (let s' = exec_block
                 [movdqa_load1, movdqa_load2, movq_sse_rax, punpckhqdq, movq_sse_rdx] ms s
      in (out_ad s', s'))"

definition dw_load64_slow ::
    "(u64 \<times> u64) list \<Rightarrow> (u64, u64) x86 \<Rightarrow> (u64 \<times> u64) \<times> (u64, u64) x86" where
  "dw_load64_slow ms s =
     (let s' = exec_block [mov_rbx_rax, mov_rcx_rdx, lock_cmpxchg] ms s in (out_ad s', s'))"

definition dw_store64_fast ::
    "u64 \<times> u64 \<Rightarrow> (u64 \<times> u64) list \<Rightarrow> (u64, u64) x86 \<Rightarrow> (u64, u64) x86" where
  "dw_store64_fast d ms s =
     exec_block [movq_rbx_sse, pinsrq_1_rcx, movdqa_store] ms (in_bc d s)"

definition dw_store64_slow ::
    "nat \<Rightarrow> u64 \<times> u64 \<Rightarrow> (u64 \<times> u64) list \<Rightarrow> (u64, u64) x86 \<Rightarrow> (u64, u64) x86 option" where
  "dw_store64_slow fuel d ms s =
     cmpxchg_loop fuel (drop 2 ms) (exec_block [mov_0ptr_rax, mov_hiptr_rdx] ms (in_bc d s))"

definition dw_cas64 ::
    "u64 \<times> u64 \<Rightarrow> u64 \<times> u64 \<Rightarrow> (u64, u64) x86 \<Rightarrow> bool \<times> (u64 \<times> u64) \<times> (u64, u64) x86" where
  "dw_cas64 expected desired s =
     (let s' = lock_cmpxchg (in_bc desired (in_ad expected s)) in (zf s', out_ad s', s'))"

text \<open>32-bit halves: the x86\_64 variants and the i686 ones.\<close>

definition dw_load32_x64 ::
    "(u32 \<times> u32) list \<Rightarrow> (u64, u32) x86 \<Rightarrow> (u32 \<times> u32) \<times> (u64, u32) x86" where
  "dw_load32_x64 ms s =
     (let s' = exec_block [movq_ptr_rax, shldq_32_rax_rdx] ms s in (out_ad s', s'))"

definition dw_load32_i686 ::
    "(u32 \<times> u32) list \<Rightarrow> (u32, u32) x86 \<Rightarrow> (u32 \<times> u32) \<times> (u32, u32) x86" where
  "dw_load32_i686 ms s =
     (let s' = exec_block [mov_rbx_rax, mov_rcx_rdx, lock_cmpxchg] ms s in (out_ad s', s'))"

definition dw_store32_x64 ::
    "u32 \<times> u32 \<Rightarrow> (u32 \<times> u32) list \<Rightarrow> (u64, u32) x86 \<Rightarrow> (u64, u32) x86" where
  "dw_store32_x64 d ms s =
     exec_block [shlq_32_rbx, shldq_32_rbx_rcx, movq_rcx_ptr] ms (in_bc d s)"

definition dw_store32_i686 ::
    "nat \<Rightarrow> u32 \<times> u32 \<Rightarrow> (u32 \<times> u32) list \<Rightarrow> (u32, u32) x86 \<Rightarrow> (u32, u32) x86 option" where
  "dw_store32_i686 fuel d ms s =
     cmpxchg_loop fuel (drop 2 ms) (exec_block [mov_0ptr_rax, mov_hiptr_rdx] ms (in_bc d s))"

definition dw_cas32 ::
    "u32 \<times> u32 \<Rightarrow> u32 \<times> u32 \<Rightarrow> ('r::len word, u32) x86 \<Rightarrow>
     bool \<times> (u32 \<times> u32) \<times> ('r word, u32) x86" where
  "dw_cas32 expected desired s =
     (let s' = lock_cmpxchg (in_bc desired (in_ad expected s)) in (zf s', out_ad s', s'))"

section \<open>Lemmas\<close>

lemma ucast_put_low [simp]:
  assumes "LENGTH('w::len) \<le> LENGTH('r::len)"
  shows "(ucast (put_low (r :: 'r word) (w :: 'w word)) :: 'w word) = w"
  using assms by (intro bit_word_eqI) (auto simp: put_low_def bit_simps)

lemma put_low_full [simp]: "put_low (r :: 'r::len word) (w :: 'r word) = w"
  by (rule bit_word_eqI) (auto simp: put_low_def bit_simps)

lemma ucast_ucast_up [simp]:
  assumes "LENGTH('w::len) \<le> LENGTH('r::len)"
  shows "(ucast (ucast (w :: 'w word) :: 'r word) :: 'w word) = w"
  using assms by (intro bit_word_eqI) (auto simp: bit_simps)

lemma mem_set_mem [simp]: "mem (set_mem m s) = m"
  by (simp add: asm_defs)

text \<open>The memory an instruction sees, when the block itself has not written.\<close>

definition mem_at :: "nat \<Rightarrow> 'm list \<Rightarrow> 'm \<Rightarrow> 'm" where
  "mem_at k ms m = (if k < length ms then ms ! k else last (m # ms))"

lemma mem_at_Nil [simp]: "mem_at k [] m = m"
  by (simp add: mem_at_def)

lemma mem_at_0_Cons [simp]: "mem_at 0 (m' # ms) m = m'"
  by (simp add: mem_at_def)

lemma mem_at_Suc_Cons [simp]: "mem_at (Suc k) (m' # ms) m = mem_at k ms m'"
  by (simp add: mem_at_def)

lemma mem_at_numeral_Cons [simp]:
  "mem_at (numeral n) (m' # ms) m = mem_at (pred_numeral n) ms m'"
  by (simp add: numeral_eq_Suc)

text \<open>
  An instruction that leaves the memory alone commutes with what the other threads write,
  so a block is executed from the memory its first instruction sees.
\<close>

lemma exec_block_cases:
  "exec_block (i # is) ms s =
     exec_block is (drop (Suc 0) ms) (i (set_mem (mem_at 0 ms (mem s)) s))"
  by (cases ms) (simp_all add: set_mem_def mem_def)

lemma mem_at_drop [simp]:
  "mem_at k (drop (Suc j) ms) (mem_at j ms m) = mem_at (Suc j + k) ms m"
proof (induction j arbitrary: ms m)
  case 0
  then show ?case by (cases ms) simp_all
next
  case (Suc j)
  then show ?case by (cases ms) simp_all
qed

lemma exec_block_single: "exec_block [i] ms s = i (set_mem (mem_at 0 ms (mem s)) s)"
  by (cases ms) (simp_all add: set_mem_def mem_def)

lemma lock_cmpxchg_loads:
  assumes "LENGTH('w::len) \<le> LENGTH('r::len)"
    and "ucast (rax s) = (ucast (rbx s) :: 'w word)" and "ucast (rdx s) = (ucast (rcx s) :: 'w word)"
  shows "out_ad (lock_cmpxchg (s :: ('r word, 'w word) x86)) = mem s
     \<and> mem (lock_cmpxchg s) = mem s"
  using assms by (auto simp: out_ad_def asm_defs)

text \<open>The exact effect of a compare-and-swap block on the memory and its outputs.\<close>

lemma dw_cas64_eq:
  "fst (dw_cas64 e d s) \<longleftrightarrow> mem s = e"
  "fst (snd (dw_cas64 e d s)) = mem s"
  "mem (snd (snd (dw_cas64 e d s))) = (if mem s = e then d else mem s)"
  by (cases e; cases d; auto simp: dw_cas64_def in_bc_def in_ad_def out_ad_def asm_defs Let_def)+

lemma dw_cas32_eq:
  assumes "32 \<le> LENGTH('r::len)"
  shows "fst (dw_cas32 e d (s :: ('r word, u32) x86)) \<longleftrightarrow> mem s = e"
    and "fst (snd (dw_cas32 e d s)) = mem s"
    and "mem (snd (snd (dw_cas32 e d s))) = (if mem s = e then d else mem s)"
  using assms
  by (cases e; cases d; auto simp: dw_cas32_def in_bc_def in_ad_def out_ad_def asm_defs Let_def)+

subsection \<open>The compare-and-swap loop\<close>

lemma lock_cmpxchg_keeps_bc [simp]:
  "rbx (lock_cmpxchg s) = rbx s" "rcx (lock_cmpxchg s) = rcx s"
  by (simp_all add: lock_cmpxchg_def)

lemma set_mem_regs [simp]:
  "rax (set_mem m s) = rax s" "rbx (set_mem m s) = rbx s" "rcx (set_mem m s) = rcx s"
  "rdx (set_mem m s) = rdx s"
  by (simp_all add: set_mem_def)

lemma lock_cmpxchg_zf:
  "zf (lock_cmpxchg s) \<longleftrightarrow> m0 s = ucast (rax s) \<and> m1 s = ucast (rdx s)"
  by (simp add: lock_cmpxchg_def)

lemma lock_cmpxchg_written:
  "zf (lock_cmpxchg s) \<Longrightarrow> mem (lock_cmpxchg s) = (ucast (rbx s), ucast (rcx s))"
  by (auto simp: lock_cmpxchg_def mem_def split: if_splits)

lemma lock_cmpxchg_retry:
  assumes "LENGTH('w::len) \<le> LENGTH('r::len)"
    and "\<not> zf (lock_cmpxchg (s :: ('r word, 'w word) x86))"
  shows "zf (lock_cmpxchg (lock_cmpxchg s))"
  using assms by (auto simp: lock_cmpxchg_def split: if_splits)

lemma cmpxchg_loop_writes:
  "cmpxchg_loop n ms s = Some s' \<Longrightarrow> mem s' = (ucast (rbx s), ucast (rcx s))"
proof (induction n ms s rule: cmpxchg_loop.induct)
  case (2 n ms s)
  let ?s = "case ms of [] \<Rightarrow> s | m # _ \<Rightarrow> set_mem m s"
  have regs: "rbx ?s = rbx s" "rcx ?s = rcx s"
    by (simp_all split: list.splits)
  show ?case
  proof (cases "zf (lock_cmpxchg ?s)")
    case True
    with "2.prems" lock_cmpxchg_written [OF True] regs show ?thesis by (simp add: Let_def)
  next
    case False
    with "2.prems" have "cmpxchg_loop n (tl ms) (lock_cmpxchg ?s) = Some s'"
      by (simp add: Let_def)
    with "2.IH" [OF refl] False regs show ?thesis by simp
  qed
qed simp

lemma cmpxchg_loop_terminates:
  assumes "LENGTH('w::len) \<le> LENGTH('r::len)"
  shows "length ms + 2 \<le> n \<Longrightarrow>
    \<exists>s'. cmpxchg_loop n ms (s :: ('r word, 'w word) x86) = Some s'"
proof (induction ms arbitrary: n s)
  case Nil
  then obtain k where "n = Suc (Suc k)"
    by (metis One_nat_def Suc_1 add_0 le_Suc_ex list.size(3) add_Suc)
  with lock_cmpxchg_retry [OF assms] show ?case by (auto simp: Let_def)
next
  case (Cons m ms)
  then obtain k where "n = Suc k" "length ms + 2 \<le> k"
    by (cases n) auto
  with Cons.IH show ?case by (auto simp: Let_def)
qed

section \<open>Atomicity of the blocks\<close>

lemma ucast_shld [simp]:
  "(ucast (push_bit 32 (r :: u64) OR x) :: u32) = ucast x"
  "(ucast (drop_bit 32 (push_bit 32 (r :: u64) OR drop_bit 32 x)) :: u32) = ucast r"
  by (rule bit_word_eqI; auto simp: bit_simps)+

lemma ucast_drop_push [simp]: "(ucast (drop_bit 32 (push_bit 32 (r :: u64))) :: u32) = ucast r"
  by (rule bit_word_eqI) (auto simp: bit_simps)

lemma dw_load64_fast_eq:
  "fst (dw_load64_fast ms s) =
     (case sse_load s of
        At_once \<Rightarrow> mem_at 0 ms (mem s)
      | Low_half_first \<Rightarrow> (fst (mem_at 0 ms (mem s)), snd (mem_at 1 ms (mem s)))
      | High_half_first \<Rightarrow> (fst (mem_at 1 ms (mem s)), snd (mem_at 0 ms (mem s))))"
  "mem (snd (dw_load64_fast ms s)) = mem_at 4 ms (mem s)"
  by (cases "sse_load s";
      simp add: dw_load64_fast_def exec_block_cases Let_def out_ad_def movdqa_load1_def
        movdqa_load2_def movq_sse_rax_def movq_sse_rdx_def punpckhqdq_def set_mem_def mem_def
        numeral_eq_Suc)+

lemma dw_load64_fast_alone:
  "fst (dw_load64_fast [] s) = mem s" "mem (snd (dw_load64_fast [] s)) = mem s"
  by (simp_all add: dw_load64_fast_eq split: sse_load.split)

lemma dw_load64_slow_eq:
  "fst (dw_load64_slow ms s) = mem_at 2 ms (mem s)"
  "mem (snd (dw_load64_slow ms s)) = mem_at 2 ms (mem s)"
  by (auto simp: dw_load64_slow_def exec_block_cases Let_def lock_cmpxchg_def out_ad_def
      mov_rbx_rax_def mov_rcx_rdx_def set_mem_def mem_def numeral_2_eq_2 prod_eq_iff)

lemma dw_load32_i686_eq:
  "fst (dw_load32_i686 ms s) = mem_at 2 ms (mem s)"
  "mem (snd (dw_load32_i686 ms s)) = mem_at 2 ms (mem s)"
  by (auto simp: dw_load32_i686_def exec_block_cases Let_def lock_cmpxchg_def out_ad_def
      mov_rbx_rax_def mov_rcx_rdx_def set_mem_def mem_def numeral_2_eq_2 prod_eq_iff)

lemma dw_load32_x64_eq:
  "fst (dw_load32_x64 ms s) = mem_at 0 ms (mem s)"
  "mem (snd (dw_load32_x64 ms s)) = mem_at 1 ms (mem s)"
  by (simp_all add: dw_load32_x64_def exec_block_cases Let_def out_ad_def
      movq_ptr_rax_def shldq_32_rax_rdx_def set_mem_def mem_def)

lemma dw_store64_fast_eq: "mem (dw_store64_fast d ms s) = d"
  by (simp add: dw_store64_fast_def exec_block_cases in_bc_def
      movq_rbx_sse_def pinsrq_1_rcx_def movdqa_store_def set_mem_def mem_def)

lemma dw_store32_x64_eq: "mem (dw_store32_x64 d ms s) = d"
  by (simp add: dw_store32_x64_def exec_block_cases in_bc_def
      shlq_32_rbx_def shldq_32_rbx_rcx_def movq_rcx_ptr_def set_mem_def mem_def)

lemma slow_store_regs:
  "rbx (exec_block [mov_0ptr_rax, mov_hiptr_rdx] ms s) = rbx s"
  "rcx (exec_block [mov_0ptr_rax, mov_hiptr_rdx] ms s) = rcx s"
  by (simp_all add: exec_block_cases mov_0ptr_rax_def mov_hiptr_rdx_def)

lemma slow_store_loop:
  assumes "LENGTH('w::len) \<le> LENGTH('r::len)"
  shows "\<exists>s'. cmpxchg_loop (length ms + 2 + k) (drop 2 ms) (s :: ('r word, 'w word) x86) = Some s'
     \<and> mem s' = (ucast (rbx s), ucast (rcx s))"
proof -
  have "length (drop 2 ms) + 2 \<le> length ms + 2 + k" by simp
  from cmpxchg_loop_terminates [OF assms this] obtain s'
    where "cmpxchg_loop (length ms + 2 + k) (drop 2 ms) s = Some s'" by blast
  with cmpxchg_loop_writes [OF this] show ?thesis by blast
qed

lemma dw_store64_slow_eq:
  "\<exists>s'. dw_store64_slow (length ms + 2 + k) d ms s = Some s' \<and> mem s' = d"
  using slow_store_loop [of ms k "exec_block [mov_0ptr_rax, mov_hiptr_rdx] ms (in_bc d s)"]
  unfolding dw_store64_slow_def slow_store_regs by (simp add: in_bc_def del: cmpxchg_loop.simps)

lemma dw_store32_i686_eq:
  "\<exists>s'. dw_store32_i686 (length ms + 2 + k) d ms s = Some s' \<and> mem s' = d"
  using slow_store_loop [of ms k "exec_block [mov_0ptr_rax, mov_hiptr_rdx] ms (in_bc d s)"]
  unfolding dw_store32_i686_def slow_store_regs by (simp add: in_bc_def del: cmpxchg_loop.simps)

section \<open>The contract of the double-word operations\<close>

text \<open>
  What the ABA wrapper relies on, for an uninterrupted call: \<open>dw_load\<close> returns the double
  word, \<open>dw_store\<close> replaces it, \<open>dw_cas\<close> replaces it when it is the expected value and
  otherwise reports the current one in its argument \<open>expected\<close>.
\<close>

locale dwcas =
  fixes content :: "'s \<Rightarrow> 'v \<times> 'v"
    and dw_load :: "'s \<Rightarrow> ('v \<times> 'v) \<times> 's"
    and dw_store :: "'v \<times> 'v \<Rightarrow> 's \<Rightarrow> 's"
    and dw_cas :: "'v \<times> 'v \<Rightarrow> 'v \<times> 'v \<Rightarrow> 's \<Rightarrow> bool \<times> ('v \<times> 'v) \<times> 's"
  assumes load_value: "fst (dw_load s) = content s"
    and load_keeps: "content (snd (dw_load s)) = content s"
    and store_content: "content (dw_store d s) = d"
    and cas_flag: "fst (dw_cas e d s) \<longleftrightarrow> content s = e"
    and cas_expected: "fst (snd (dw_cas e d s)) = content s"
    and cas_content: "content (snd (snd (dw_cas e d s))) = (if content s = e then d else content s)"
begin

lemma store_load: "fst (dw_load (dw_store d s)) = d"
  by (simp add: load_value store_content)

text \<open>The body of the modify loop, run alone: the value just loaded is still there.\<close>

lemma load_then_cas:
  assumes "dw_load s = (c, s1)" and "dw_cas c d s1 = (ok, c', s2)"
  shows "ok \<and> content s2 = d \<and> c = content s"
proof -
  have "c = content s" "content s1 = content s"
    using load_value [of s] load_keeps [of s] assms(1) by simp_all
  then show ?thesis
    using cas_flag [of c d s1] cas_content [of c d s1] assms(2) by simp
qed

text \<open>A failed attempt refreshes \<open>expected\<close>, so the next one needs no new load.\<close>

lemma failed_cas_refreshes:
  assumes "dw_cas e d s = (False, e', s1)" and "dw_cas e' d' s1 = (ok, e'', s2)"
  shows "ok \<and> content s1 = content s \<and> content s2 = d'"
proof -
  have "content s1 = content s" "e' = content s"
    using cas_flag [of e d s] cas_content [of e d s] cas_expected [of e d s] assms(1)
    by simp_all
  then show ?thesis
    using cas_flag [of e' d' s1] cas_content [of e' d' s1] assms(2) by simp
qed

end

text \<open>The slow stores, run alone: two iterations are enough.\<close>

definition run_alone :: "'s option \<Rightarrow> 's \<Rightarrow> 's" where
  "run_alone r s = (case r of Some s' \<Rightarrow> s' | None \<Rightarrow> s)"

lemma run_alone_store64: "mem (run_alone (dw_store64_slow 2 d [] s) s') = d"
  using dw_store64_slow_eq [of "[]" 0 d s] by (auto simp: run_alone_def numeral_2_eq_2)

lemma run_alone_store32: "mem (run_alone (dw_store32_i686 2 d [] s) s') = d"
  using dw_store32_i686_eq [of "[]" 0 d s] by (auto simp: run_alone_def numeral_2_eq_2)

interpretation x64_fast: dwcas mem "dw_load64_fast []" "\<lambda>d. dw_store64_fast d []" dw_cas64
  by unfold_locales (simp_all add: dw_load64_fast_alone dw_store64_fast_eq dw_cas64_eq)

interpretation x64_slow: dwcas mem "dw_load64_slow []"
    "\<lambda>d s. run_alone (dw_store64_slow 2 d [] s) s" dw_cas64
  by unfold_locales (simp_all add: dw_load64_slow_eq run_alone_store64 dw_cas64_eq)

interpretation x64_half: dwcas mem "dw_load32_x64 []" "\<lambda>d. dw_store32_x64 d []" dw_cas32
  by unfold_locales (simp_all add: dw_load32_x64_eq dw_store32_x64_eq dw_cas32_eq)

interpretation i686: dwcas mem "dw_load32_i686 []"
    "\<lambda>d s. run_alone (dw_store32_i686 2 d [] s) s" dw_cas32
  by unfold_locales (simp_all add: dw_load32_i686_eq run_alone_store32 dw_cas32_eq)

section \<open>Properties\<close>

text \<open>C28. What a double-word load returns, whatever other threads write before, during and after
  it: the compare-and-swap with an arbitrary expected value, on x86\_64 and i686, and the
  64-bit access for 32-bit halves return both halves as they were at one instant, and every
  variant leaves the memory as the other threads have it. The SSE load does so where the
  processor loads 16 bytes at once. Elsewhere it returns the halves as they were at its two
  accesses: it is still atomic if nothing is written in between, and there is an execution in
  which it returns a double word the memory never held.\<close>

theorem dw_load_atomic:
  "fst (dw_load64_slow ms s) = mem_at 2 ms (mem s)
     \<and> mem (snd (dw_load64_slow ms s)) = mem_at 2 ms (mem s)
   \<and> fst (dw_load32_x64 ns r) = mem_at 0 ns (mem r)
     \<and> mem (snd (dw_load32_x64 ns r)) = mem_at 1 ns (mem r)
   \<and> fst (dw_load32_i686 ns q) = mem_at 2 ns (mem q)
     \<and> mem (snd (dw_load32_i686 ns q)) = mem_at 2 ns (mem q)
   \<and> fst (dw_load64_fast ms s) =
       (case sse_load s of
          At_once \<Rightarrow> mem_at 0 ms (mem s)
        | Low_half_first \<Rightarrow> (fst (mem_at 0 ms (mem s)), snd (mem_at 1 ms (mem s)))
        | High_half_first \<Rightarrow> (fst (mem_at 1 ms (mem s)), snd (mem_at 0 ms (mem s))))
     \<and> mem (snd (dw_load64_fast ms s)) = mem_at 4 ms (mem s)
   \<and> (sse_load s = At_once \<or> mem_at 0 ms (mem s) = mem_at 1 ms (mem s)
        \<longrightarrow> fst (dw_load64_fast ms s) = mem_at 0 ms (mem s))
   \<and> (sse_load s \<noteq> At_once
        \<longrightarrow> (\<exists>ms'. \<forall>k. fst (dw_load64_fast ms' s) \<noteq> mem_at k ms' (mem s)))"
proof -
  have "fst (dw_load64_fast ms s) = mem_at 0 ms (mem s)"
    if "sse_load s = At_once \<or> mem_at 0 ms (mem s) = mem_at 1 ms (mem s)"
    using that by (auto simp: dw_load64_fast_eq split: sse_load.split)
  moreover have "\<forall>k. fst (dw_load64_fast [(1, 1), (2, 2)] s) \<noteq> mem_at k [(1, 1), (2, 2)] (mem s)"
    if "sse_load s \<noteq> At_once"
    using that by (auto simp: dw_load64_fast_eq mem_at_def nth_Cons split: sse_load.split nat.split)
  ultimately show ?thesis
    by (simp add: dw_load64_slow_eq dw_load32_x64_eq dw_load32_i686_eq) (auto simp: dw_load64_fast_eq)
qed

theorem dw_load_atomic_witness:
  "let s = (\<lambda>how. \<lparr>rax = 0, rbx = 0, rcx = 0, rdx = 0, sse_lo = 0, sse_hi = 0, zf = False,
       sse_load = how, m0 = 5, m1 = 6\<rparr>)
   in fst (dw_load64_fast [(3, 4), (7, 8)] (s At_once)) = (3, 4)
      \<and> fst (dw_load64_fast [(3, 4), (7, 8)] (s High_half_first)) = (7, 4)
      \<and> (\<exists>ms. \<forall>k. fst (dw_load64_fast ms (s Low_half_first)) \<noteq> mem_at k ms (5, 6))"
proof -
  define s :: "sse_load \<Rightarrow> (u64, u64) x86"
    where "s = (\<lambda>how. \<lparr>rax = 0, rbx = 0, rcx = 0, rdx = 0, sse_lo = 0, sse_hi = 0, zf = False,
       sse_load = how, m0 = 5, m1 = 6\<rparr>)"
  have s: "sse_load (s how) = how" "mem (s how) = (5, 6)" for how
    by (simp_all add: s_def mem_def)
  have "fst (dw_load64_fast [(3, 4), (7, 8)] (s At_once)) = (3, 4)"
    "fst (dw_load64_fast [(3, 4), (7, 8)] (s High_half_first)) = (7, 4)"
    using dw_load_atomic [of "[(3, 4), (7, 8)]" "s At_once"]
      dw_load_atomic [of "[(3, 4), (7, 8)]" "s High_half_first"]
    by (simp_all add: s)
  moreover have "\<exists>ms. \<forall>k. fst (dw_load64_fast ms (s Low_half_first)) \<noteq> mem_at k ms (5, 6)"
    using dw_load_atomic [of "[]" "s Low_half_first"] by (simp add: s)
  ultimately show ?thesis unfolding Let_def s_def [symmetric] by simp
qed


text \<open>The double-word compare-and-swap reports success exactly when the memory holds the
  expected double word, then stores the desired one, and otherwise leaves the memory alone
  and returns its content in \<open>expected\<close>; for 64-bit and for 32-bit halves.\<close>

lemma dw_cas_correct:
  "fst (dw_cas64 e d s) = (mem s = e)
   \<and> fst (snd (dw_cas64 e d s)) = mem s
   \<and> mem (snd (snd (dw_cas64 e d s))) = (if mem s = e then d else mem s)
   \<and> fst (dw_cas32 e' d' (r :: (u64, u32) x86)) = (mem r = e')
   \<and> fst (snd (dw_cas32 e' d' r)) = mem r
   \<and> mem (snd (snd (dw_cas32 e' d' r))) = (if mem r = e' then d' else mem r)
   \<and> fst (dw_cas32 e' d' (q :: (u32, u32) x86)) = (mem q = e')
   \<and> fst (snd (dw_cas32 e' d' q)) = mem q
   \<and> mem (snd (snd (dw_cas32 e' d' q))) = (if mem q = e' then d' else mem q)"
  by (simp add: dw_cas64_eq dw_cas32_eq)

text \<open>The fast and the slow variants are interchangeable: run alone from any two machine
  states with the same memory they load the same double word and store the same one.\<close>

lemma dw_fast_slow_equivalent:
  "fst (dw_load64_fast [] s) = fst (dw_load64_slow [] (set_mem (mem s) r))
   \<and> mem (dw_store64_fast d [] s) = mem (run_alone (dw_store64_slow 2 d [] r) r')"
  by (simp add: dw_load64_fast_alone dw_load64_slow_eq dw_store64_fast_eq run_alone_store64)

end
