(* ===== verification/Asm_Arm.thy ===== *)
theory Asm_Arm
  imports Platform
begin

text \<open>
  The inline assembler of \<open>atomic_asm_arm.hpp\<close>: load-exclusive, store-exclusive and
  \<open>clrex\<close> with the exclusive monitor they work on, for single words and for pairs, on
  AArch64, on 32-bit ARMv8 and on ARMv7. The contract \<open>llsc\<close> says what the ABA wrapper
  relies on; every variant is shown to fulfil it.
\<close>

section \<open>Machine state and instructions\<close>

text \<open>
  \<open>p0\<close> and \<open>p1\<close> are the two words at the address (the single-word functions use \<open>p0\<close>
  only). \<open>monitor\<close> says that this thread's exclusive monitor is armed for the address. The
  architecture lets a store-exclusive fail without a reason: \<open>spurious\<close> lists, for the
  coming store-exclusives, which ones do (none after its end).
\<close>

record 'w arm =
  p0 :: 'w
  p1 :: 'w
  monitor :: bool
  spurious :: "bool list"

definition ldx :: "'w arm \<Rightarrow> 'w \<times> 'w arm" where
  "ldx s = (p0 s, s\<lparr>monitor := True\<rparr>)"

definition ldxp :: "'w arm \<Rightarrow> ('w \<times> 'w) \<times> 'w arm" where
  "ldxp s = ((p0 s, p1 s), s\<lparr>monitor := True\<rparr>)"

text \<open>The status register of a store-exclusive: 0 for stored, 1 for failed.\<close>

definition stx_ok :: "'w arm \<Rightarrow> bool" where
  "stx_ok s \<longleftrightarrow> monitor s \<and> (case spurious s of [] \<Rightarrow> True | b # _ \<Rightarrow> \<not> b)"

definition stx_spent :: "'w arm \<Rightarrow> 'w arm" where
  "stx_spent s = s\<lparr>monitor := False, spurious := tl (spurious s)\<rparr>"

definition stx :: "'w \<Rightarrow> 'w arm \<Rightarrow> u32 \<times> 'w arm" where
  "stx v s = (if stx_ok s then (0, (stx_spent s)\<lparr>p0 := v\<rparr>) else (1, stx_spent s))"

definition stxp :: "'w \<times> 'w \<Rightarrow> 'w arm \<Rightarrow> u32 \<times> 'w arm" where
  "stxp v s =
     (if stx_ok s then (0, (stx_spent s)\<lparr>p0 := fst v, p1 := snd v\<rparr>) else (1, stx_spent s))"

definition clrex :: "'w arm \<Rightarrow> 'w arm" where
  "clrex s = s\<lparr>monitor := False\<rparr>"

text \<open>A memory barrier has no effect on this state.\<close>

definition dmb :: "'w arm \<Rightarrow> 'w arm" where
  "dmb s = s"

text \<open>A store of another thread to the address opens this thread's monitor.\<close>

definition other_store :: "'w \<times> 'w \<Rightarrow> 'w arm \<Rightarrow> 'w arm" where
  "other_store m s = s\<lparr>p0 := fst m, p1 := snd m, monitor := False\<rparr>"

lemmas [asm_defs] =
  ldx_def ldxp_def stx_ok_def stx_spent_def stx_def stxp_def clrex_def dmb_def other_store_def

section \<open>AArch64\<close>

definition atomic_exclusive_abort :: "'w arm \<Rightarrow> 'w arm" where
  "atomic_exclusive_abort s = clrex s"

definition atomic_exclusive_load_aquire :: "'w arm \<Rightarrow> 'w \<times> 'w arm" where
  "atomic_exclusive_load_aquire s = ldx s"

definition atomic_exclusive_load_pair_aquire :: "'w arm \<Rightarrow> ('w \<times> 'w) \<times> 'w arm" where
  "atomic_exclusive_load_pair_aquire s = ldxp s"

definition atomic_exclusive_store_release :: "'w \<Rightarrow> 'w arm \<Rightarrow> bool \<times> 'w arm" where
  "atomic_exclusive_store_release transfer s =
     (case stx transfer s of (failed, s') \<Rightarrow> (failed = 0, s'))"

definition atomic_exclusive_store_pair_release :: "'w \<times> 'w \<Rightarrow> 'w arm \<Rightarrow> bool \<times> 'w arm" where
  "atomic_exclusive_store_pair_release transfer s =
     (case stxp transfer s of (failed, s') \<Rightarrow> (failed = 0, s'))"

section \<open>32-bit ARM\<close>

text \<open>
  ARMv8 uses \<open>ldaex\<close> and \<open>stlex\<close>; ARMv7 has no acquiring or releasing exclusives and
  puts a barrier after the load and before the store.
\<close>

definition armv8_load_aquire :: "u32 arm \<Rightarrow> u32 \<times> u32 arm" where
  "armv8_load_aquire s = ldx s"

definition armv8_store_release :: "u32 \<Rightarrow> u32 arm \<Rightarrow> bool \<times> u32 arm" where
  "armv8_store_release transfer s = (case stx transfer s of (failed, s') \<Rightarrow> (failed = 0, s'))"

definition armv7_load_aquire :: "u32 arm \<Rightarrow> u32 \<times> u32 arm" where
  "armv7_load_aquire s = (case ldx s of (v, s') \<Rightarrow> (v, dmb s'))"

definition armv7_store_release :: "u32 \<Rightarrow> u32 arm \<Rightarrow> bool \<times> u32 arm" where
  "armv7_store_release transfer s =
     (case stx transfer (dmb s) of (failed, s') \<Rightarrow> (failed = 0, s'))"

text \<open>
  The pair functions move the two words through one 64-bit variable: \<open>%Q0\<close> is its low
  register, loaded from and stored to the lower address, \<open>%R0\<close> its high one.
\<close>

definition pair_in :: "u32 \<times> u32 \<Rightarrow> u64" where
  "pair_in w = word_cat (snd w) (fst w)"

definition pair_out :: "u64 \<Rightarrow> u32 \<times> u32" where
  "pair_out pair = (ucast pair, ucast (drop_bit 32 pair))"

definition armv8_load_pair_aquire :: "u32 arm \<Rightarrow> (u32 \<times> u32) \<times> u32 arm" where
  "armv8_load_pair_aquire s =
     (case ldxp s of (w, s') \<Rightarrow>
       let pair = pair_in w in ((ucast pair, ucast (drop_bit 32 pair)), s'))"

definition armv8_store_pair_release :: "u32 \<times> u32 \<Rightarrow> u32 arm \<Rightarrow> bool \<times> u32 arm" where
  "armv8_store_pair_release transfer s =
     (let pair = (ucast (fst transfer) :: u64) OR push_bit 32 (ucast (snd transfer)) in
      case stxp (pair_out pair) s of (failed, s') \<Rightarrow> (failed = 0, s'))"

definition armv7_load_pair_aquire :: "u32 arm \<Rightarrow> (u32 \<times> u32) \<times> u32 arm" where
  "armv7_load_pair_aquire s =
     (case ldxp s of (w, s') \<Rightarrow>
       let pair = pair_in w in ((ucast pair, ucast (drop_bit 32 pair)), dmb s'))"

definition armv7_store_pair_release :: "u32 \<times> u32 \<Rightarrow> u32 arm \<Rightarrow> bool \<times> u32 arm" where
  "armv7_store_pair_release transfer s =
     (let pair = (ucast (fst transfer) :: u64) OR push_bit 32 (ucast (snd transfer)) in
      case stxp (pair_out pair) (dmb s) of (failed, s') \<Rightarrow> (failed = 0, s'))"

lemmas [asm_defs] =
  atomic_exclusive_abort_def atomic_exclusive_load_aquire_def
  atomic_exclusive_load_pair_aquire_def atomic_exclusive_store_release_def
  atomic_exclusive_store_pair_release_def armv8_load_aquire_def armv8_store_release_def
  armv7_load_aquire_def armv7_store_release_def armv8_load_pair_aquire_def
  armv8_store_pair_release_def armv7_load_pair_aquire_def armv7_store_pair_release_def

section \<open>Lemmas\<close>

lemma pair_out_shifted [simp]:
  "pair_out ((ucast (lo :: u32) :: u64) OR push_bit 32 (ucast (hi :: u32))) = (lo, hi)"
  by (auto simp: pair_out_def intro!: bit_word_eqI) (auto simp: bit_simps dest: bit_imp_le_length)

lemma pair_out_in [simp]: "pair_out (pair_in w) = w"
  by (simp add: pair_out_def pair_in_def)

definition pair :: "'w arm \<Rightarrow> 'w \<times> 'w" where
  "pair s = (p0 s, p1 s)"

section \<open>The contract of the exclusive operations\<close>

text \<open>
  A store-exclusive succeeds only while the monitor of the last load-exclusive is armed,
  and a write of another thread disarms it whatever it writes. This is what makes the
  LL/SC loop immune to the ABA problem without a counter.
\<close>

locale llsc =
  fixes content :: "'s \<Rightarrow> 'v"
    and armed :: "'s \<Rightarrow> bool"
    and load_ex :: "'s \<Rightarrow> 'v \<times> 's"
    and store_ex :: "'v \<Rightarrow> 's \<Rightarrow> bool \<times> 's"
    and abort_ex :: "'s \<Rightarrow> 's"
    and interfere :: "'v \<Rightarrow> 's \<Rightarrow> 's"
  assumes load_value: "fst (load_ex s) = content s"
    and load_keeps: "content (snd (load_ex s)) = content s"
    and load_arms: "armed (snd (load_ex s))"
    and store_needs_monitor: "fst (store_ex v s) \<Longrightarrow> armed s"
    and store_content: "content (snd (store_ex v s)) = (if fst (store_ex v s) then v else content s)"
    and store_disarms: "\<not> armed (snd (store_ex v s))"
    and abort_keeps: "content (abort_ex s) = content s"
    and abort_disarms: "\<not> armed (abort_ex s)"
    and interfere_content: "content (interfere v s) = v"
    and interfere_disarms: "\<not> armed (interfere v s)"
begin

text \<open>A write in between is never overwritten, even if it wrote the value just loaded.\<close>

lemma no_lost_update:
  assumes "load_ex s = (v, s1)" and "store_ex w (interfere u s1) = (ok, s2)"
  shows "\<not> ok \<and> content s2 = u"
proof -
  have "\<not> fst (store_ex w (interfere u s1))"
    using store_needs_monitor interfere_disarms by blast
  then show ?thesis
    using store_content [of w "interfere u s1"] interfere_content [of u s1] assms(2) by simp
qed

lemma load_store_pair:
  assumes "load_ex s = (v, s1)" and "store_ex w s1 = (ok, s2)"
  shows "v = content s \<and> content s2 = (if ok then w else content s)"
  using load_value [of s] load_keeps [of s] store_content [of w s1] assms by simp

lemma store_after_abort: "\<not> fst (store_ex v (abort_ex s))"
  using store_needs_monitor abort_disarms by blast

end

interpretation aarch64: llsc p0 monitor atomic_exclusive_load_aquire
    atomic_exclusive_store_release atomic_exclusive_abort "\<lambda>v s. other_store (v, p1 s) s"
  by unfold_locales (auto simp: asm_defs split: if_splits)

interpretation aarch64_pair: llsc pair monitor atomic_exclusive_load_pair_aquire
    atomic_exclusive_store_pair_release atomic_exclusive_abort other_store
  by unfold_locales (auto simp: asm_defs pair_def split: if_splits)

interpretation armv8: llsc p0 monitor armv8_load_aquire armv8_store_release
    atomic_exclusive_abort "\<lambda>v s. other_store (v, p1 s) s"
  by unfold_locales (auto simp: asm_defs split: if_splits)

interpretation armv8_pair: llsc pair monitor armv8_load_pair_aquire armv8_store_pair_release
    atomic_exclusive_abort other_store
  by unfold_locales (auto simp: asm_defs pair_def pair_in_def Let_def split: if_splits)

interpretation armv7: llsc p0 monitor armv7_load_aquire armv7_store_release
    atomic_exclusive_abort "\<lambda>v s. other_store (v, p1 s) s"
  by unfold_locales (auto simp: asm_defs split: if_splits)

interpretation armv7_pair: llsc pair monitor armv7_load_pair_aquire armv7_store_pair_release
    atomic_exclusive_abort other_store
  by unfold_locales (auto simp: asm_defs pair_def pair_in_def Let_def split: if_splits)

section \<open>Properties\<close>

text \<open>The pair functions of 32-bit ARM put each half where the load takes it from: after
  a successful store of a pair, through the 64-bit variable and its register pair, both the
  ARMv8 and the ARMv7 load return that pair.\<close>

lemma arm_pair_roundtrip:
  assumes "stx_ok s"
  shows "fst (armv8_load_pair_aquire (snd (armv8_store_pair_release w s))) = w
    \<and> fst (armv7_load_pair_aquire (snd (armv7_store_pair_release w s))) = w
    \<and> fst (armv7_load_pair_aquire (snd (armv8_store_pair_release w s))) = w"
  using assms by (cases w) (simp add: asm_defs Let_def pair_in_def)

text \<open>Immunity to the ABA problem without a counter: if another thread writes between the
  load-exclusive and the store-exclusive, the store fails and the other thread's value
  stays, even if it is the value that was loaded; on AArch64, ARMv8 and ARMv7.\<close>

lemma llsc_no_lost_update:
  "let s1 = snd (atomic_exclusive_load_aquire s);
       (ok, s2) = atomic_exclusive_store_release w (other_store (u, p1 s1) s1);
       r1 = snd (armv8_load_aquire r);
       (ok', r2) = armv8_store_release w' (other_store (u', p1 r1) r1);
       q1 = snd (armv7_load_aquire q);
       (ok'', q2) = armv7_store_release w'' (other_store (u'', p1 q1) q1)
   in \<not> ok \<and> p0 s2 = u \<and> \<not> ok' \<and> p0 r2 = u' \<and> \<not> ok'' \<and> p0 q2 = u''"
  using aarch64.no_lost_update [OF prod.collapse [symmetric] prod.collapse [symmetric]]
    armv8.no_lost_update [OF prod.collapse [symmetric] prod.collapse [symmetric]]
    armv7.no_lost_update [OF prod.collapse [symmetric] prod.collapse [symmetric]]
  by (simp add: Let_def case_prod_beta)

end
