(* ===== verification/Aba_Asm.thy ===== *)
theory Aba_Asm
  imports Aba_System Asm_X86 Asm_Arm
begin

text \<open>
  The loop of \<open>ABA_Wrapper::modify\<close> over the operations of the assembler headers, and its
  refinement of the step machine of \<open>Aba_Wrapper\<close>: one attempt after the other, with writes
  of other threads before each compare-and-swap or store-exclusive. This is where the
  contracts \<open>dwcas\<close> and \<open>llsc\<close> meet the code that relies on them.
\<close>

section \<open>The step machine under interference\<close>

text \<open>\<open>ms\<close> holds, for each attempt, what other threads have left in the double word before
  the attempt's compare-and-swap, \<open>None\<close> when they have not written.\<close>

definition overwrite ::
    "('v \<times> 'v) option list \<Rightarrow> ('v, 'h, 'z) aba_scheme \<Rightarrow> ('v, 'h, 'z) aba_scheme" where
  "overwrite ms s =
     (case ms of Some (a, b) # _ \<Rightarrow> s\<lparr>word0 := a, word1 := b\<rparr> | _ \<Rightarrow> s)"

fun modify_under ::
    "nat \<Rightarrow> ('w::len word, 'h, 'r) modifier \<Rightarrow> tid \<Rightarrow> ('w word \<times> 'w word) option list \<Rightarrow>
     ('w word, 'r) mpc \<Rightarrow> ('w word, 'h, 'z) aba_scheme \<Rightarrow>
     (bool \<times> 'r \<times> ('w word, 'h, 'z) aba_scheme) option" where
  "modify_under n f t ms (M_done ok r) s = Some (ok, r, s)"
| "modify_under 0 f t ms pc s = None"
| "modify_under (Suc n) f t ms (M_cas d k v r) s =
     (case modify_step DWCAS f t Whole (M_cas d k v r) (overwrite ms s) of
        (pc', s') \<Rightarrow> modify_under n f t (tl ms) pc' s')"
| "modify_under (Suc n) f t ms pc s =
     (case modify_step DWCAS f t Whole pc s of (pc', s') \<Rightarrow> modify_under n f t ms pc' s')"

section \<open>The loop over double-word operations\<close>

text \<open>The state is the machine; \<open>cache\<close> is the local variable of that name, which a failed
  compare-and-swap refreshes; at most \<open>n\<close> iterations.\<close>

definition disturbed :: "('c \<Rightarrow> 's \<Rightarrow> 's) \<Rightarrow> 'c option list \<Rightarrow> 's \<Rightarrow> 's" where
  "disturbed interfere ms s = (case ms of Some m # _ \<Rightarrow> interfere m s | _ \<Rightarrow> s)"

fun dw_loop ::
    "nat \<Rightarrow> ('v::len word \<times> 'v word \<Rightarrow> 'v word \<times> 'v word \<Rightarrow> 's \<Rightarrow>
        bool \<times> ('v word \<times> 'v word) \<times> 's) \<Rightarrow>
     ('v word \<times> 'v word \<Rightarrow> 's \<Rightarrow> 's) \<Rightarrow> ('v word, 'h, 'r) modifier \<Rightarrow>
     ('v word \<times> 'v word) option list \<Rightarrow> 'v word \<times> 'v word \<Rightarrow> 'h \<Rightarrow> 's \<Rightarrow>
     (bool \<times> 'r \<times> 'h \<times> 's) option" where
  "dw_loop 0 cas interfere f ms cache h s = None"
| "dw_loop (Suc n) cas interfere f ms cache h s =
     (case f h (fst cache) of
        (None, h', r) \<Rightarrow> Some (False, r, h', s)
      | (Some v, h', r) \<Rightarrow>
          (case cas cache (v, snd cache + 1) (disturbed interfere ms s) of
             (stored, cache', s') \<Rightarrow>
               if stored then Some (True, r, h', s')
               else dw_loop n cas interfere f (tl ms) cache' h' s'))"

definition dw_modify ::
    "nat \<Rightarrow> ('s \<Rightarrow> ('v::len word \<times> 'v word) \<times> 's) \<Rightarrow>
     ('v word \<times> 'v word \<Rightarrow> 'v word \<times> 'v word \<Rightarrow> 's \<Rightarrow> bool \<times> ('v word \<times> 'v word) \<times> 's) \<Rightarrow>
     ('v word \<times> 'v word \<Rightarrow> 's \<Rightarrow> 's) \<Rightarrow> ('v word, 'h, 'r) modifier \<Rightarrow>
     ('v word \<times> 'v word) option list \<Rightarrow> 'h \<Rightarrow> 's \<Rightarrow> (bool \<times> 'r \<times> 'h \<times> 's) option" where
  "dw_modify n ld cas interfere f ms h s =
     (case ld s of (cache, s') \<Rightarrow> dw_loop n cas interfere f ms cache h s')"

text \<open>What can be compared: the results, the client's heap, and the double word.\<close>

definition asm_result ::
    "('s \<Rightarrow> 'c) \<Rightarrow> (bool \<times> 'r \<times> 'h \<times> 's) option \<Rightarrow> (bool \<times> 'r \<times> 'h \<times> 'c) option" where
  "asm_result content res = map_option (\<lambda>(ok, r, h, s). (ok, r, h, content s)) res"

definition aba_result ::
    "(bool \<times> 'r \<times> ('v, 'h, 'z) aba_scheme) option \<Rightarrow> (bool \<times> 'r \<times> 'h \<times> 'v \<times> 'v) option" where
  "aba_result res = map_option (\<lambda>(ok, r, s). (ok, r, heap s, word0 s, word1 s)) res"

text \<open>The contract with the other threads in it: they can put anything into the double word.\<close>

locale shared_dwcas = dwcas content dw_load dw_store dw_cas
  for content :: "'s \<Rightarrow> 'v::len word \<times> 'v word"
    and dw_load :: "'s \<Rightarrow> ('v word \<times> 'v word) \<times> 's"
    and dw_store :: "'v word \<times> 'v word \<Rightarrow> 's \<Rightarrow> 's"
    and dw_cas :: "'v word \<times> 'v word \<Rightarrow> 'v word \<times> 'v word \<Rightarrow> 's \<Rightarrow>
        bool \<times> ('v word \<times> 'v word) \<times> 's" +
  fixes interfere :: "'v word \<times> 'v word \<Rightarrow> 's \<Rightarrow> 's"
  assumes interfere_content: "content (interfere d s) = d"
begin

lemma content_disturbed:
  assumes "content m = (word0 s, word1 s)"
  shows "content (disturbed interfere ms m) = (word0 (overwrite ms s), word1 (overwrite ms s))"
  using assms interfere_content
  by (auto simp: disturbed_def overwrite_def split: list.splits option.splits)

lemma loop_refines:
  assumes "content m = (word0 s, word1 s)"
  shows "asm_result content (dw_loop n dw_cas interfere f ms (d, k) (heap s) m)
    = aba_result (modify_under (2 * n) f t ms (M_call d k) s)"
  using assms
proof (induction n arbitrary: ms d k m s)
  case 0
  then show ?case by (simp add: asm_result_def aba_result_def)
next
  case (Suc n)
  obtain vo h r where f: "f (heap s) d = (vo, h, r)" by (metis prod.collapse)
  show ?case
  proof (cases vo)
    case None
    with f Suc.prems show ?thesis by (simp add: asm_result_def aba_result_def modify_step_def)
  next
    case (Some v)
    let ?m = "disturbed interfere ms m" and ?s = "overwrite ms (s\<lparr>heap := h\<rparr>)"
    have c: "content ?m = (word0 ?s, word1 ?s)"
      by (rule content_disturbed) (simp add: Suc.prems)
    have h: "heap ?s = h" by (simp add: overwrite_def split: list.splits option.splits)
    obtain ok e m' where cas: "dw_cas (d, k) (v, k + 1) ?m = (ok, e, m')" by (metis prod.collapse)
    have ok: "ok \<longleftrightarrow> word0 ?s = d \<and> word1 ?s = k" and e: "e = (word0 ?s, word1 ?s)"
      and m': "content m' = (if ok then (v, k + 1) else (word0 ?s, word1 ?s))"
      using cas_flag [of "(d, k)" "(v, k + 1)" ?m] cas_expected [of "(d, k)" "(v, k + 1)" ?m]
        cas_content [of "(d, k)" "(v, k + 1)" ?m] c by (auto simp: cas)
    show ?thesis
    proof (cases ok)
      case True
      with f Some cas ok m' h show ?thesis
        by (simp add: asm_result_def aba_result_def modify_step_def)
    next
      case False
      let ?s' = "?s\<lparr>snap := (snap ?s)(t := version ?s)\<rparr>"
      have "content m' = (word0 ?s', word1 ?s')" using m' False by simp
      from Suc.IH [OF this, of "tl ms" "word0 ?s" "word1 ?s"]
      show ?thesis
        using f Some cas ok e h False by (auto simp: modify_step_def)
    qed
  qed
qed

lemma modify_refines:
  assumes "content m = (word0 s, word1 s)"
  shows "asm_result content (dw_modify n dw_load dw_cas interfere f ms (heap s) m)
    = aba_result (modify_under (Suc (2 * n)) f t ms M_load s)"
proof -
  obtain c m' where ld: "dw_load m = (c, m')" by (metis prod.collapse)
  with load_value [of m] load_keeps [of m] assms
  have "c = (word0 s, word1 s)" "content m' = (word0 s, word1 s)" by simp_all
  with loop_refines [of m' "s\<lparr>snap := (snap s)(t := version s)\<rparr>" n f ms "word0 s" "word1 s" t] ld
  show ?thesis by (simp add: dw_modify_def modify_step_def)
qed

end

interpretation x64_fast_shared: shared_dwcas mem "dw_load64_fast []"
    "\<lambda>d. dw_store64_fast d []" dw_cas64 set_mem
  by unfold_locales simp

interpretation x64_slow_shared: shared_dwcas mem "dw_load64_slow []"
    "\<lambda>d s. run_alone (dw_store64_slow 2 d [] s) s" dw_cas64 set_mem
  by unfold_locales simp

interpretation x64_half_shared: shared_dwcas mem "dw_load32_x64 []"
    "\<lambda>d. dw_store32_x64 d []" dw_cas32 set_mem
  by unfold_locales simp

interpretation i686_shared: shared_dwcas mem "dw_load32_i686 []"
    "\<lambda>d s. run_alone (dw_store32_i686 2 d [] s) s" dw_cas32 set_mem
  by unfold_locales simp

text \<open>Where an SSE load is two accesses, what it returns under interference is what the step
  machine has cached after its two steps, in either order of the halves.\<close>

lemma torn_load_refines:
  assumes "fst (dw_load64_fast [(a, b), (a', b')] m) = (d, k)"
  shows "sse_load m = Low_half_first \<Longrightarrow>
      fst (modify_step DWCAS f t Low_first M_load (s\<lparr>word0 := a, word1 := b\<rparr>)) = M_half0 a
      \<and> fst (modify_step DWCAS f t e (M_half0 a) (s'\<lparr>word0 := a', word1 := b'\<rparr>)) = M_call d k"
    and "sse_load m = High_half_first \<Longrightarrow>
      fst (modify_step DWCAS f t High_first M_load (s\<lparr>word0 := a, word1 := b\<rparr>)) = M_half1 b
      \<and> fst (modify_step DWCAS f t e (M_half1 b) (s'\<lparr>word0 := a', word1 := b'\<rparr>)) = M_call d k"
  using assms by (auto simp: dw_load64_fast_eq modify_step_def)

section \<open>The loop over exclusive operations\<close>

text \<open>On the LL/SC platforms a write of another thread between load-exclusive and
  store-exclusive also opens the monitor; \<open>es\<close> says which attempts fail spuriously.\<close>

definition overwrite_ex ::
    "tid \<Rightarrow> 'v option list \<Rightarrow> ('v, 'h, 'z) aba_scheme \<Rightarrow> ('v, 'h, 'z) aba_scheme" where
  "overwrite_ex t ms s =
     (case ms of Some a # _ \<Rightarrow> s\<lparr>word0 := a, excl := (excl s)(t := False)\<rparr> | _ \<Rightarrow> s)"

fun modify_under_ex ::
    "nat \<Rightarrow> ('w::len word, 'h, 'r) modifier \<Rightarrow> tid \<Rightarrow> 'w word option list \<Rightarrow> env list \<Rightarrow>
     ('w word, 'r) mpc \<Rightarrow> ('w word, 'h, 'z) aba_scheme \<Rightarrow>
     (bool \<times> 'r \<times> ('w word, 'h, 'z) aba_scheme) option" where
  "modify_under_ex n f t ms es (M_done ok r) s = Some (ok, r, s)"
| "modify_under_ex 0 f t ms es pc s = None"
| "modify_under_ex (Suc n) f t ms es (M_cas d k v r) s =
     (case modify_step LLSC f t (case es of [] \<Rightarrow> Whole | e # _ \<Rightarrow> e) (M_cas d k v r)
             (overwrite_ex t ms s) of
        (pc', s') \<Rightarrow> modify_under_ex n f t (tl ms) (tl es) pc' s')"
| "modify_under_ex (Suc n) f t ms es pc s =
     (case modify_step LLSC f t Whole pc s of (pc', s') \<Rightarrow> modify_under_ex n f t ms es pc' s')"

fun ex_loop ::
    "nat \<Rightarrow> ('s \<Rightarrow> 'v \<times> 's) \<Rightarrow> ('v \<Rightarrow> 's \<Rightarrow> bool \<times> 's) \<Rightarrow> ('s \<Rightarrow> 's) \<Rightarrow> ('v \<Rightarrow> 's \<Rightarrow> 's) \<Rightarrow>
     ('v, 'h, 'r) modifier \<Rightarrow> 'v option list \<Rightarrow> 'h \<Rightarrow> 's \<Rightarrow> (bool \<times> 'r \<times> 'h \<times> 's) option" where
  "ex_loop 0 ld st ab interfere f ms h s = None"
| "ex_loop (Suc n) ld st ab interfere f ms h s =
     (case ld s of
        (cache, s1) \<Rightarrow>
          (case f h cache of
             (None, h', r) \<Rightarrow> Some (False, r, h', ab s1)
           | (Some v, h', r) \<Rightarrow>
               (case st v (disturbed interfere ms s1) of
                  (stored, s2) \<Rightarrow>
                    if stored then Some (True, r, h', s2)
                    else ex_loop n ld st ab interfere f (tl ms) h' s2)))"

definition aba_result_ex ::
    "(bool \<times> 'r \<times> ('v, 'h, 'z) aba_scheme) option \<Rightarrow> (bool \<times> 'r \<times> 'h \<times> 'v) option" where
  "aba_result_ex res = map_option (\<lambda>(ok, r, s). (ok, r, heap s, word0 s)) res"

context llsc
begin

lemma disturbed_content:
  "content (disturbed interfere ms m) = (case ms of Some a # _ \<Rightarrow> a | _ \<Rightarrow> content m)"
  "armed (disturbed interfere ms m) \<Longrightarrow> \<forall>a ms'. ms \<noteq> Some a # ms'"
  using interfere_content interfere_disarms
  by (auto simp: disturbed_def split: list.splits option.splits)

end

text \<open>The machine word the wrapper uses makes the contract concrete enough to compare with.\<close>

locale word_llsc = llsc content armed load_ex store_ex abort_ex interfere
  for content :: "'s \<Rightarrow> 'v::len word"
    and armed :: "'s \<Rightarrow> bool"
    and load_ex :: "'s \<Rightarrow> 'v word \<times> 's"
    and store_ex :: "'v word \<Rightarrow> 's \<Rightarrow> bool \<times> 's"
    and abort_ex :: "'s \<Rightarrow> 's"
    and interfere :: "'v word \<Rightarrow> 's \<Rightarrow> 's"
begin

lemma ex_loop_refines:
  assumes "content m = word0 s"
  shows "\<exists>es. asm_result content (ex_loop n load_ex store_ex abort_ex interfere f ms (heap s) m)
    = aba_result_ex (modify_under_ex (3 * n) f t ms es M_load s)"
  using assms
proof (induction n arbitrary: ms m s)
  case 0
  then show ?case by (simp add: asm_result_def aba_result_ex_def)
next
  case (Suc n)
  have fuel: "3 * Suc n = Suc (Suc (Suc (3 * n)))" by simp
  obtain c m1 where ld: "load_ex m = (c, m1)" by (metis prod.collapse)
  with load_value [of m] load_keeps [of m] Suc.prems
  have c: "c = word0 s" and m1: "content m1 = word0 s" by simp_all
  obtain vo h r where f: "f (heap s) (word0 s) = (vo, h, r)" by (metis prod.collapse)
  show ?case
  proof (cases vo)
    case None
    with f ld c m1 abort_keeps [of m1] show ?thesis
      unfolding fuel by (simp add: asm_result_def aba_result_ex_def modify_step_def)
  next
    case (Some v)
    let ?m = "disturbed interfere ms m1"
    obtain ok m2 where st: "store_ex v ?m = (ok, m2)" by (metis prod.collapse)
    have m2: "content m2 = (if ok then v else content ?m)"
      using store_content [of v ?m] by (simp add: st)
    let ?s = "overwrite_ex t ms (s\<lparr>excl := (excl s)(t := True),
      snap := (snap s)(t := version s), heap := h\<rparr>)"
    show ?thesis
    proof (cases ok)
      case True
      with store_needs_monitor [of v ?m] st have "armed ?m" by simp
      from disturbed_content(2) [OF this] have "excl ?s t"
        by (auto simp: overwrite_ex_def split: list.splits option.splits)
      moreover have "heap ?s = h"
        by (simp add: overwrite_ex_def split: list.splits option.splits)
      ultimately show ?thesis
        using True f ld c Some st m2 unfolding fuel
        by (intro exI [of _ "[]"])
          (simp add: asm_result_def aba_result_ex_def modify_step_def)
    next
      case False
      let ?s' = "?s\<lparr>excl := (excl ?s)(t := False)\<rparr>"
      have "content m2 = word0 ?s'"
        using m2 False m1 disturbed_content(1) [of ms m1]
        by (simp add: overwrite_ex_def split: list.splits option.splits)
      from Suc.IH [OF this, of "tl ms"] obtain es
        where es: "asm_result content
            (ex_loop n load_ex store_ex abort_ex interfere f (tl ms) (heap ?s') m2)
          = aba_result_ex (modify_under_ex (3 * n) f t (tl ms) es M_load ?s')" by blast
      have "heap ?s' = h"
        by (simp add: overwrite_ex_def split: list.splits option.splits)
      with es False f ld c Some st show ?thesis
        unfolding fuel by (intro exI [of _ "Spurious # es"]) (simp add: modify_step_def)
    qed
  qed
qed

end

interpretation aarch64_word: word_llsc p0 monitor atomic_exclusive_load_aquire
    atomic_exclusive_store_release atomic_exclusive_abort "\<lambda>v s. other_store (v, p1 s) s"
  by unfold_locales

interpretation armv8_word: word_llsc p0 monitor armv8_load_aquire armv8_store_release
    atomic_exclusive_abort "\<lambda>v s. other_store (v, p1 s) s"
  by unfold_locales

interpretation armv7_word: word_llsc p0 monitor armv7_load_aquire armv7_store_release
    atomic_exclusive_abort "\<lambda>v s. other_store (v, p1 s) s"
  by unfold_locales

section \<open>Properties\<close>

text \<open>C15. On x86 the modify loop, executed with the assembler functions of the platform, does
  exactly what the step machine does, for every modifier function, every number of attempts
  and whatever other threads write before each compare-and-swap: same result, same captured
  variables, same heap, same double word; for both 64-bit variants, the 32-bit functions of
  x86\_64 and those of i686.\<close>

theorem modify_on_x86:
  "asm_result mem (dw_modify n (dw_load64_fast []) dw_cas64 set_mem f ms h m)
      = aba_result (modify_under (Suc (2 * n)) f t ms M_load
          (s\<lparr>word0 := m0 m, word1 := m1 m, heap := h\<rparr>))
   \<and> asm_result mem (dw_modify n (dw_load64_slow []) dw_cas64 set_mem f ms h m)
      = aba_result (modify_under (Suc (2 * n)) f t ms M_load
          (s\<lparr>word0 := m0 m, word1 := m1 m, heap := h\<rparr>))
   \<and> asm_result mem (dw_modify n (dw_load32_x64 []) dw_cas32 set_mem f' ms' h m')
      = aba_result (modify_under (Suc (2 * n)) f' t ms' M_load
          (s'\<lparr>word0 := m0 m', word1 := m1 m', heap := h\<rparr>))
   \<and> asm_result mem (dw_modify n (dw_load32_i686 []) dw_cas32 set_mem f' ms' h m'')
      = aba_result (modify_under (Suc (2 * n)) f' t ms' M_load
          (s'\<lparr>word0 := m0 m'', word1 := m1 m'', heap := h\<rparr>))"
  using
    x64_fast_shared.modify_refines [of m "s\<lparr>word0 := m0 m, word1 := m1 m, heap := h\<rparr>" n f ms t]
    x64_slow_shared.modify_refines [of m "s\<lparr>word0 := m0 m, word1 := m1 m, heap := h\<rparr>" n f ms t]
    x64_half_shared.modify_refines [of m' "s'\<lparr>word0 := m0 m', word1 := m1 m', heap := h\<rparr>" n f' ms' t]
    i686_shared.modify_refines [of m'' "s'\<lparr>word0 := m0 m'', word1 := m1 m'', heap := h\<rparr>" n f' ms' t]
  by (simp add: mem_def del: modify_under.simps)

text \<open>C16. On ARM every execution of the modify loop with the exclusive load and store of the
  platform, with writes of other threads between the two and with spurious failures, is one
  of the step machine's; on AArch64, ARMv8 and ARMv7.\<close>

theorem modify_on_arm:
  "(\<exists>es. asm_result p0 (ex_loop n atomic_exclusive_load_aquire atomic_exclusive_store_release
        atomic_exclusive_abort (\<lambda>v s. other_store (v, p1 s) s) f ms h m)
      = aba_result_ex (modify_under_ex (3 * n) f t ms es M_load
          (s\<lparr>word0 := (p0 m :: u64), heap := h\<rparr>)))
   \<and> (\<exists>es. asm_result p0 (ex_loop n armv8_load_aquire armv8_store_release
        atomic_exclusive_abort (\<lambda>v s. other_store (v, p1 s) s) f' ms' h m')
      = aba_result_ex (modify_under_ex (3 * n) f' t ms' es M_load
          (s'\<lparr>word0 := p0 m', heap := h\<rparr>)))
   \<and> (\<exists>es. asm_result p0 (ex_loop n armv7_load_aquire armv7_store_release
        atomic_exclusive_abort (\<lambda>v s. other_store (v, p1 s) s) f' ms' h m')
      = aba_result_ex (modify_under_ex (3 * n) f' t ms' es M_load
          (s'\<lparr>word0 := p0 m', heap := h\<rparr>)))"
  using
    aarch64_word.ex_loop_refines [of m "s\<lparr>word0 := p0 m, heap := h\<rparr>" n f ms t]
    armv8_word.ex_loop_refines [of m' "s'\<lparr>word0 := p0 m', heap := h\<rparr>" n f' ms' t]
    armv7_word.ex_loop_refines [of m' "s'\<lparr>word0 := p0 m', heap := h\<rparr>" n f' ms' t]
  by simp

end
