(* ===== verification/Build.thy ===== *)
theory Build
  imports Aba_Views
begin

text \<open>
  What the preprocessor makes of the headers: which functions the assembler headers define
  for a target and its compiler options, and when it stops with an \<open>#error\<close>. The functions
  themselves are those of \<open>Asm_X86\<close> and \<open>Asm_Arm\<close>, their effect on other threads is
  that of \<open>Aba_Views\<close>; this theory shows that \<open>ABA_Wrapper\<close> finds the ones it needs.
\<close>

section \<open>Configurations\<close>

text \<open>
  The macros the headers test: the architecture, \<open>__ARM_ARCH\<close>,
  \<open>__GCC_ASM_FLAG_OUTPUTS__\<close>, \<open>X86_64_FAST_DW_LOAD\<close> and \<open>X86_64_FAST_DW_STORE\<close>.
\<close>

record config =
  arch :: target
  arm_arch :: nat
  flag_outputs :: bool
  fast_load :: bool
  fast_store :: bool

datatype build_error = No_flag_outputs | ARMv7_needed | ARMv6K_missing | Unsupported_platform

text \<open>The instruction a function is built around.\<close>

datatype instruction =
    Movdqa | Cmpxchg16b | Movq | Cmpxchg8b | Ldaxr | Stlxr | Ldaex | Stlex | Ldrex_dmb | Dmb_strex
  | Clrex

text \<open>The overloads a header defines, by the width of their word; \<open>atomic_dw_load\<close> or
  \<open>atomic_exclusive_load_aquire\<close>, \<open>atomic_dw_store\<close>, \<open>atomic_dw_cas\<close> or
  \<open>atomic_exclusive_store_release\<close>, and \<open>atomic_exclusive_abort\<close>.\<close>

record overloads =
  loads :: "PlatformWidth \<Rightarrow> instruction option"
  stores :: "PlatformWidth \<Rightarrow> instruction option"
  commits :: "PlatformWidth \<Rightarrow> instruction option"
  aborts :: "PlatformWidth \<Rightarrow> instruction option"
  aba_solution :: PlatformABASolution

section \<open>The headers\<close>

definition x86_overloads :: "config \<Rightarrow> overloads" where
  "x86_overloads c =
     \<lparr>loads = (\<lambda>w. case w of
          WIDTH_64 \<Rightarrow> if arch c = X86_64 then Some (if fast_load c then Movdqa else Cmpxchg16b) else None
        | WIDTH_32 \<Rightarrow> Some (if arch c = X86_64 then Movq else Cmpxchg8b)),
      stores = (\<lambda>w. case w of
          WIDTH_64 \<Rightarrow> if arch c = X86_64 then Some (if fast_store c then Movdqa else Cmpxchg16b) else None
        | WIDTH_32 \<Rightarrow> Some (if arch c = X86_64 then Movq else Cmpxchg8b)),
      commits = (\<lambda>w. case w of
          WIDTH_64 \<Rightarrow> if arch c = X86_64 then Some Cmpxchg16b else None
        | WIDTH_32 \<Rightarrow> Some Cmpxchg8b),
      aborts = (\<lambda>w. None),
      aba_solution = DWCAS\<rparr>"

text \<open>An included header of another architecture is empty.\<close>

definition x86_header :: "config \<Rightarrow> build_error + overloads option" where
  "x86_header c =
     (if arch c = X86_64 \<or> arch c = I686
      then if \<not> flag_outputs c then Inl No_flag_outputs else Inr (Some (x86_overloads c))
      else Inr None)"

definition arm_overloads :: "config \<Rightarrow> build_error + overloads" where
  "arm_overloads c =
     (let both = (\<lambda>i w. Some i);
          word = (\<lambda>i w. case w of WIDTH_64 \<Rightarrow> None | WIDTH_32 \<Rightarrow> Some i);
          abort = (\<lambda>w. case w of WIDTH_64 \<Rightarrow> if arch c = AARCH64 then Some Clrex else None
                          | WIDTH_32 \<Rightarrow> Some Clrex);
          make = (\<lambda>l s. \<lparr>loads = l, stores = (\<lambda>_. None), commits = s, aborts = abort,
                          aba_solution = LLSC\<rparr>) in
      if arch c = AARCH64 then Inr (make (both Ldaxr) (both Stlxr))
      else if arm_arch c \<ge> 8 then Inr (make (word Ldaex) (word Stlex))
      else if arm_arch c \<ge> 7 then Inr (make (word Ldrex_dmb) (word Dmb_strex))
      else Inl ARMv6K_missing)"

definition arm_header :: "config \<Rightarrow> build_error + overloads option" where
  "arm_header c =
     (if arch c = ARM32 \<or> arch c = AARCH64
      then if \<not> flag_outputs c then Inl No_flag_outputs
           else if arm_arch c < 7 then Inl ARMv7_needed
           else map_sum id Some (arm_overloads c)
      else Inr None)"

definition dwcas_llsc_header :: "config \<Rightarrow> build_error + overloads option" where
  "dwcas_llsc_header c =
     (if arch c = X86_64 \<or> arch c = I686 then x86_header c
      else if arch c = ARM32 \<or> arch c = AARCH64 then arm_header c
      else Inl Unsupported_platform)"

text \<open>The version constants, braced into \<open>uint16_t\<close>: a value that does not fit is rejected.\<close>

record Version =
  MAJOR :: "16 word"
  MINOR :: "16 word"
  PATCH :: "16 word"

definition braced16 :: "int \<Rightarrow> 16 word option" where
  "braced16 n = (if 0 \<le> n \<and> n < 2 ^ 16 then Some (word_of_int n) else None)"

definition version_of :: "int \<Rightarrow> int \<Rightarrow> int \<Rightarrow> Version option" where
  "version_of major minor patch =
     (case (braced16 major, braced16 minor, braced16 patch) of
        (Some a, Some b, Some c) \<Rightarrow> Some \<lparr>MAJOR = a, MINOR = b, PATCH = c\<rparr>
      | _ \<Rightarrow> None)"

lemma version_of_values:
  "version_of a b c = Some v \<Longrightarrow> uint (MAJOR v) = a \<and> uint (MINOR v) = b \<and> uint (PATCH v) = c"
  by (auto simp: version_of_def braced16_def uint_word_of_int split: option.splits if_splits)

section \<open>The variants\<close>

text \<open>Which of the synchronisation variants the load and the conditional store of a width
  belong to.\<close>

fun variant_of :: "instruction \<Rightarrow> instruction \<Rightarrow> variant option" where
  "variant_of Movdqa Cmpxchg16b = Some X64"
| "variant_of Movq Cmpxchg8b = Some X64"
| "variant_of Cmpxchg16b Cmpxchg16b = Some X64_slow"
| "variant_of Cmpxchg8b Cmpxchg8b = Some I686_cmpxchg8b"
| "variant_of Ldaxr Stlxr = Some A64"
| "variant_of Ldaex Stlex = Some ARMv8"
| "variant_of Ldrex_dmb Dmb_strex = Some ARMv7"
| "variant_of _ _ = None"

definition width_of :: "nat \<Rightarrow> PlatformWidth" where
  "width_of sizeof_T = (if sizeof_T = 8 then WIDTH_64 else WIDTH_32)"

text \<open>What \<open>ABA_Wrapper\<close> uses: a load and a conditional store; with DWCAS the store of the
  constructor (with LL/SC that is a builtin); with LL/SC the abort of \<open>modify\<close>.\<close>

definition usable :: "overloads \<Rightarrow> nat \<Rightarrow> variant \<Rightarrow> bool" where
  "usable fs sizeof_T V \<longleftrightarrow>
     (\<exists>l s. loads fs (width_of sizeof_T) = Some l \<and> commits fs (width_of sizeof_T) = Some s
        \<and> variant_of l s = Some V)
     \<and> (aba_solution fs = DWCAS \<longrightarrow> stores fs (width_of sizeof_T) \<noteq> None)
     \<and> (aba_solution fs = LLSC \<longrightarrow> aborts fs (width_of sizeof_T) = Some Clrex)
     \<and> solution V = aba_solution fs"

lemmas header_defs =
  dwcas_llsc_header_def x86_header_def arm_header_def x86_overloads_def arm_overloads_def Let_def

lemma header_accepts:
  "(\<exists>fs. dwcas_llsc_header c = Inr fs) \<longleftrightarrow>
     flag_outputs c
     \<and> (arch c = X86_64 \<or> arch c = I686 \<or> (arch c = AARCH64 \<or> arch c = ARM32) \<and> 7 \<le> arm_arch c)"
  by (cases "arch c") (auto simp: header_defs)

section \<open>Properties\<close>

text \<open>C24. A configuration is accepted exactly if the compiler has flag outputs and the target is
  x86 or ARM from version 7 on. Then, for every type \<open>ABA_Wrapper\<close> accepts, the headers
  define all functions it uses at the width of the type (the load, the conditional store, the
  store of the constructor on x86 and the abort on ARM); load and store belong to one variant of
  \<open>Aba_Views\<close>, whose ABA protection is the one the constants of the headers announce. The
  \<open>#error\<close> for ARMv6K is never reached.\<close>

theorem build_complete:
  shows "((\<exists>fs. dwcas_llsc_header c = Inr fs) \<longleftrightarrow>
      flag_outputs c
      \<and> (arch c = X86_64 \<or> arch c = I686 \<or> (arch c = AARCH64 \<or> arch c = ARM32) \<and> 7 \<le> arm_arch c))
    \<and> dwcas_llsc_header c \<noteq> Inl ARMv6K_missing
    \<and> (\<forall>fs k n. dwcas_llsc_header c = Inr fs \<and> aba_assertions (arch c) k n \<longrightarrow>
         (\<exists>g V. fs = Some g \<and> PLATFORM_ABA_SOLUTION (arch c) = Some (aba_solution g) \<and> usable g n V))"
proof (intro conjI allI impI)
  show "dwcas_llsc_header c \<noteq> Inl ARMv6K_missing"
    by (cases "arch c") (auto simp: header_defs)
  fix fs k n
  assume "dwcas_llsc_header c = Inr fs \<and> aba_assertions (arch c) k n"
  then have fs: "dwcas_llsc_header c = Inr fs" and "n = 4 \<or> n = 8 \<and> PLATFORM_WIDTH (arch c) = Some WIDTH_64"
    by (auto simp: aba_size_defs split: if_splits)
  then consider "n = 4" | "n = 8" "arch c = X86_64 \<or> arch c = AARCH64"
    by (auto simp: PLATFORM_WIDTH_def split: if_splits)
  then show "\<exists>g V. fs = Some g \<and> PLATFORM_ABA_SOLUTION (arch c) = Some (aba_solution g) \<and> usable g n V"
    using fs by cases
      (cases "arch c"; auto simp: header_defs usable_def width_of_def PLATFORM_ABA_SOLUTION_def
        split: if_splits)+
qed (rule header_accepts)

theorem build_complete_witness:
  "\<exists>g V. dwcas_llsc_header \<lparr>arch = ARM32, arm_arch = 7, flag_outputs = True, fast_load = False,
        fast_store = False\<rparr> = Inr (Some g) \<and> usable g 4 V"
  using build_complete [of "\<lparr>arch = ARM32, arm_arch = 7, flag_outputs = True, fast_load = False,
        fast_store = False\<rparr>"]
  by (auto simp: header_defs aba_size_defs PLATFORM_WIDTH_def PLATFORM_ABA_SOLUTION_def)

end
