(* ===== verification/Futex.thy ===== *)
theory Futex
  imports Atomic
begin

text \<open>
  The class \<open>Futex\<close> of \<open>futex.hpp\<close> and \<open>futex.cpp\<close>: a mutex whose uncontended operations
  stay in user space. Each access to the atomic member \<open>value\<close> and each system call is one
  step of a thread; any number of threads interleave. The kernel is a parameter: what it
  does with a wait and with a wake is given by \<open>futex_kernel\<close>, and the errors, signals and
  timeouts it reports are labels of the transition system.
\<close>

section \<open>The futex system call\<close>

text \<open>The argument \<open>const struct timespec*\<close> of a wait: what it points to, or \<open>None\<close> for the null
  pointer.\<close>

record timespec =
  tv_sec :: int
  tv_nsec :: int

text \<open>
  \<open>wait_blocks\<close> decides from the value in memory, the expected value and the timeout whether
  \<open>FUTEX\_WAIT\<close> suspends the caller; \<open>wake_picks\<close> names the threads \<open>FUTEX\_WAKE\<close> takes out
  of the wait queue, at most the given number.
\<close>

record futex_kernel =
  wait_blocks :: "u32 \<Rightarrow> u32 \<Rightarrow> timespec option \<Rightarrow> bool"
  wake_picks :: "nat \<Rightarrow> tid list \<Rightarrow> tid list"

text \<open>What the manual page futex(2) promises: the caller is suspended if and only if the
  value is the expected one, the timeout only ends the suspension, and a wake takes as many waiters as it may, each once.\<close>

definition futex_manual :: "futex_kernel \<Rightarrow> bool" where
  "futex_manual K \<longleftrightarrow>
     (\<forall>v e timeout. wait_blocks K v e timeout \<longleftrightarrow> v = e)
     \<and> (\<forall>n q. distinct q \<longrightarrow>
          set (wake_picks K n q) \<subseteq> set q \<and> distinct (wake_picks K n q)
          \<and> length (wake_picks K n q) = min n (length q))"

text \<open>One kernel that keeps this promise; nothing below depends on its order.\<close>

definition fifo_kernel :: futex_kernel where
  "fifo_kernel = \<lparr>wait_blocks = (\<lambda>v e timeout. v = e), wake_picks = (\<lambda>n q. take n q)\<rparr>"

lemma fifo_kernel_manual [simp]: "futex_manual fifo_kernel"
  by (auto simp: futex_manual_def fifo_kernel_def dest: in_set_takeD)

datatype errno = EAGAIN | EINTR | ETIMEDOUT | Other_errno nat

text \<open>The result of \<open>futex_wait\<close>: 0, or -1 with the value of \<open>errno\<close>.\<close>

datatype wait_result = Woken | Failed errno

section \<open>State\<close>

text \<open>The enumeration \<open>State\<close>; its underlying type is \<open>int\<close>, 32 bits wide.\<close>

abbreviation UNLOCKED :: u32 where "UNLOCKED \<equiv> 0"
abbreviation LOCKED_NOWAITERS :: u32 where "LOCKED_NOWAITERS \<equiv> 1"
abbreviation LOCKED_WAITERS :: u32 where "LOCKED_WAITERS \<equiv> 2"

text \<open>
  Where a thread is. \<open>Xchg\<close>: before the exchange in \<open>wait\<close> or \<open>wait_timeout\<close>; \<open>Syscall\<close>:
  before \<open>futex_wait\<close>; \<open>Blocked\<close>: suspended by it; \<open>Locked\<close>: the call that acquires the
  futex has returned (true); \<open>Wake_store\<close> and \<open>Wake_call\<close>: before the two statements of
  \<open>wake\<close>; \<open>Idle\<close>, \<open>Refused\<close> and \<open>Threw\<close>: outside, the last call having returned, having
  returned false, or having thrown a \<open>std::system_error\<close>.
\<close>

text \<open>A thread that waits does so in \<open>wait\<close>, or in \<open>wait_timeout\<close> with the timeout given to
  \<open>trylock_timeout\<close>.\<close>

datatype waiter = By_wait | By_wait_timeout "timespec option"


datatype fpc =
    Idle
  | Refused
  | Threw errno
  | Xchg waiter
  | Syscall waiter
  | Blocked waiter
  | Locked
  | Wake_store
  | Wake_call

text \<open>
  \<open>value\<close> is the atomic member; \<open>tv\<close> the view of each thread; \<open>queue\<close> the kernel's wait
  queue for the address of \<open>value\<close>. Ghosts: \<open>protected\<close> is the set of plain writes made in
  critical sections so far, \<open>wake_failed\<close> whether a \<open>futex_wake\<close> has reported an error.
\<close>

record futex_sys =
  "value" :: "u32 cell"
  tv :: "tid \<Rightarrow> tview"
  pc :: "tid \<Rightarrow> fpc"
  queue :: "tid list"
  protected :: view
  wake_failed :: bool

text \<open>The constructors: an unlocked futex, or one locked by the thread \<open>owner\<close>.\<close>

definition futex_init :: "cxx_std \<Rightarrow> tid option \<Rightarrow> futex_sys" where
  "futex_init std own =
     \<lparr>value = snd (Atomic_init std (case own of None \<Rightarrow> 0 | Some t \<Rightarrow> t)
                (if own = None then UNLOCKED else LOCKED_NOWAITERS)
                (tview_init, \<lparr>atomic = 0, heads = []\<rparr>)),
      tv = (\<lambda>_. tview_init),
      pc = (\<lambda>t. if own = Some t then Locked else Idle),
      queue = [], protected = {}, wake_failed = False\<rparr>"

section \<open>The operations\<close>

text \<open>The result of an access by thread \<open>t\<close> put back into the state, with its next position.\<close>

definition access :: "tid \<Rightarrow> u32 astate \<Rightarrow> fpc \<Rightarrow> futex_sys \<Rightarrow> futex_sys" where
  "access t r p s =
     s\<lparr>value := snd r, tv := (tv s)(t := fst r), pc := (pc s)(t := p)\<rparr>"

text \<open>The test of the while loop of \<open>wait\<close> and \<open>wait_timeout\<close>, and the test before it.\<close>

definition wait_loop :: "waiter \<Rightarrow> u32 \<Rightarrow> fpc" where
  "wait_loop w cached_state = (if cached_state \<noteq> UNLOCKED then Syscall w else Locked)"

definition wait_entry :: "waiter \<Rightarrow> u32 \<Rightarrow> fpc" where
  "wait_entry w cached_state =
     (if cached_state \<noteq> LOCKED_WAITERS then Xchg w else wait_loop w cached_state)"

definition lock :: "tid \<Rightarrow> futex_sys \<Rightarrow> futex_sys" where
  "lock t s =
     (case compare_exchange_strong ACQUIRE RELAXED t UNLOCKED LOCKED_NOWAITERS (tv s t, value s) of
        (ok, expected_found, r) \<Rightarrow>
          access t r (if ok = False then wait_entry By_wait expected_found else Locked) s)"

definition trylock :: "tid \<Rightarrow> futex_sys \<Rightarrow> futex_sys" where
  "trylock t s =
     (case compare_exchange_strong ACQUIRE RELAXED t UNLOCKED LOCKED_NOWAITERS (tv s t, value s) of
        (ok, expected, r) \<Rightarrow> access t r (if ok then Locked else Refused) s)"

definition trylock_timeout ::
    "timespec option \<Rightarrow> tid \<Rightarrow> futex_sys \<Rightarrow> futex_sys" where
  "trylock_timeout timeout t s =
     (case compare_exchange_strong ACQUIRE RELAXED t UNLOCKED LOCKED_NOWAITERS (tv s t, value s) of
        (ok, expected_found, r) \<Rightarrow>
          access t r (if ok = False then wait_entry (By_wait_timeout timeout) expected_found else Locked) s)"

definition wait_exchange :: "waiter \<Rightarrow> tid \<Rightarrow> futex_sys \<Rightarrow> futex_sys" where
  "wait_exchange w t s =
     (case exchange ACQUIRE t LOCKED_WAITERS (tv s t, value s) of
        (cached_state, r) \<Rightarrow> access t r (wait_loop w cached_state) s)"

text \<open>What \<open>wait\<close> and \<open>wait_timeout\<close> do with the result of \<open>futex_wait\<close>.\<close>

definition wait_continue :: "waiter \<Rightarrow> wait_result \<Rightarrow> fpc" where
  "wait_continue w r =
     (case r of
        Woken \<Rightarrow> Xchg w
      | Failed e \<Rightarrow>
          if e \<noteq> EAGAIN \<and> e \<noteq> EINTR
          then (case w of
                  By_wait \<Rightarrow> Threw e
                | By_wait_timeout timeout \<Rightarrow> if e = ETIMEDOUT then Refused else Threw e)
          else Xchg w)"

text \<open>The call of \<open>futex_wait\<close>: \<open>wait\<close> leaves the timeout at its default, the null pointer, and
  \<open>wait_timeout\<close> passes the one it was given.\<close>

definition wait_timeout_arg :: "waiter \<Rightarrow> timespec option" where
  "wait_timeout_arg w =
     (case w of By_wait \<Rightarrow> None | By_wait_timeout timeout \<Rightarrow> timeout)"

definition wait_syscall :: "futex_kernel \<Rightarrow> waiter \<Rightarrow> tid \<Rightarrow> futex_sys \<Rightarrow> futex_sys" where
  "wait_syscall K w t s =
     (if wait_blocks K (atomic (value s)) LOCKED_WAITERS (wait_timeout_arg w)
      then s\<lparr>pc := (pc s)(t := Blocked w), queue := queue s @ [t]\<rparr>
      else s\<lparr>pc := (pc s)(t := wait_continue w (Failed EAGAIN))\<rparr>)"

text \<open>The system call of thread \<open>t\<close> returns: woken, interrupted, timed out or refused.\<close>

definition wait_return :: "waiter \<Rightarrow> tid \<Rightarrow> wait_result \<Rightarrow> futex_sys \<Rightarrow> futex_sys" where
  "wait_return w t r s =
     s\<lparr>pc := (pc s)(t := wait_continue w r), queue := filter (\<lambda>u. u \<noteq> t) (queue s)\<rparr>"

definition unlock :: "tid \<Rightarrow> futex_sys \<Rightarrow> futex_sys" where
  "unlock t s =
     (case fetch_sub RELEASE t 1 (tv s t, value s) of
        (old, r) \<Rightarrow> access t r (if old = LOCKED_WAITERS then Wake_store else Idle) s)"

definition wake_store :: "cxx_std \<Rightarrow> tid \<Rightarrow> futex_sys \<Rightarrow> futex_sys" where
  "wake_store std t s = access t (store std RELAXED t UNLOCKED (tv s t, value s)) Wake_call s"

fun woken :: "fpc \<Rightarrow> fpc" where
  "woken (Blocked w) = wait_continue w Woken"
| "woken p = p"

definition wake_call :: "futex_kernel \<Rightarrow> tid \<Rightarrow> futex_sys \<Rightarrow> futex_sys" where
  "wake_call K t s =
     (let picked = set (wake_picks K 1 (queue s)) in
      s\<lparr>pc := (\<lambda>u. if u = t then Idle else if u \<in> picked then woken (pc s u) else pc s u),
        queue := filter (\<lambda>u. u \<notin> picked) (queue s)\<rparr>)"

text \<open>A plain write, numbered \<open>e\<close>, in the critical section.\<close>

definition work :: "tid \<Rightarrow> nat \<Rightarrow> futex_sys \<Rightarrow> futex_sys" where
  "work t e s =
     s\<lparr>tv := (tv s)(t := (tv s t)\<lparr>v_cur := insert e (v_cur (tv s t)),
                                  v_acq := insert e (v_acq (tv s t))\<rparr>),
       protected := insert e (protected s)\<rparr>"

section \<open>The transition system\<close>

text \<open>The client discipline is that of any mutex: a thread calls \<open>unlock\<close> and touches the
  protected data only between its acquisition and its \<open>unlock\<close>.\<close>

datatype action =
    Call_lock tid
  | Call_trylock tid
  | Call_trylock_timeout tid "timespec option"
  | Call_unlock tid
  | Run tid
  | Wait_returns tid wait_result
  | Wake_fails tid errno
  | Work tid nat

fun outside :: "fpc \<Rightarrow> bool" where
  "outside Idle = True"
| "outside Refused = True"
| "outside (Threw e) = True"
| "outside _ = False"

fun fact :: "cxx_std \<Rightarrow> futex_kernel \<Rightarrow> action \<Rightarrow> futex_sys \<Rightarrow> futex_sys option" where
  "fact std K (Call_lock t) s = (if outside (pc s t) then Some (lock t s) else None)"
| "fact std K (Call_trylock t) s = (if outside (pc s t) then Some (trylock t s) else None)"
| "fact std K (Call_trylock_timeout t timeout) s =
     (if outside (pc s t) then Some (trylock_timeout timeout t s) else None)"
| "fact std K (Call_unlock t) s = (if pc s t = Locked then Some (unlock t s) else None)"
| "fact std K (Run t) s =
     (case pc s t of
        Xchg w \<Rightarrow> Some (wait_exchange w t s)
      | Syscall w \<Rightarrow> Some (wait_syscall K w t s)
      | Wake_store \<Rightarrow> Some (wake_store std t s)
      | Wake_call \<Rightarrow> Some (wake_call K t s)
      | _ \<Rightarrow> None)"
| "fact std K (Wait_returns t r) s =
     (case pc s t of
        Syscall w \<Rightarrow> Some (wait_return w t r s)
      | Blocked w \<Rightarrow> Some (wait_return w t r s)
      | _ \<Rightarrow> None)"
| "fact std K (Wake_fails t e) s =
     (if pc s t = Wake_call
      then Some (s\<lparr>pc := (pc s)(t := Threw e), wake_failed := True\<rparr>) else None)"
| "fact std K (Work t e) s = (if pc s t = Locked then Some (work t e s) else None)"

inductive freach :: "cxx_std \<Rightarrow> futex_kernel \<Rightarrow> tid option \<Rightarrow> futex_sys \<Rightarrow> bool"
  for std K own where
  init: "freach std K own (futex_init std own)"
| step: "freach std K own s \<Longrightarrow> fact std K a s = Some s' \<Longrightarrow> freach std K own s'"

fun frun ::
    "cxx_std \<Rightarrow> futex_kernel \<Rightarrow> action list \<Rightarrow> futex_sys \<Rightarrow> futex_sys option" where
  "frun std K [] s = Some s"
| "frun std K (a # as) s =
     (case fact std K a s of None \<Rightarrow> None | Some s' \<Rightarrow> frun std K as s')"

lemmas futex_ops [step_defs] =
  lock_def trylock_def trylock_timeout_def wait_exchange_def wait_syscall_def wait_return_def
  unlock_def wake_store_def wake_call_def work_def access_def

end
