(* ===== verification/Lock.thy ===== *)
theory Lock
  imports Prelude
begin

text \<open>
  The contract between a lock and its clients: who holds it, and what the steps of the
  threads on it may change. The futex provides it; the clients of \<open>test_futex.cpp\<close> rely on
  nothing else for the data they protect.
\<close>

locale mutual_exclusion =
  fixes ok :: "'s \<Rightarrow> bool"
    and holds :: "'s \<Rightarrow> tid \<Rightarrow> bool"
    and steps :: "tid \<Rightarrow> 's \<Rightarrow> 's \<Rightarrow> bool"
  assumes exclusive: "ok s \<Longrightarrow> holds s t \<Longrightarrow> holds s u \<Longrightarrow> t = u"
    and keeps: "ok s \<Longrightarrow> steps t s s' \<Longrightarrow> ok s'"
    and undisturbed: "ok s \<Longrightarrow> steps t s s' \<Longrightarrow> u \<noteq> t \<Longrightarrow> holds s' u = holds s u"
begin

text \<open>While one thread holds the lock, no step of another one gets it.\<close>

lemma no_overtaking:
  assumes "ok s" and "holds s u" and "steps t s s'" and "t \<noteq> u"
  shows "holds s' u \<and> \<not> holds s' t"
  using assms undisturbed [of s t s' u] exclusive [OF keeps [OF assms(1,3)], of u t] by auto

lemma held_alone: "ok s \<Longrightarrow> holds s u \<Longrightarrow> {t. holds s t} = {u}"
  using exclusive by blast

end

end
