(* ===== verification/Futex_System.thy ===== *)
theory Futex_System
  imports Futex Lock
begin

text \<open>
  Any number of threads on one \<open>Futex\<close>: mutual exclusion, no lost wake-up, progress, and
  which writes of earlier critical sections the owner sees under the rules of C++17 and of
  C++20.
\<close>

section \<open>The effect of each operation\<close>

text \<open>The three acquiring calls differ only in what follows a failed compare-exchange.\<close>

definition attempt :: "tid \<Rightarrow> (u32 \<Rightarrow> fpc) \<Rightarrow> futex_sys \<Rightarrow> futex_sys" where
  "attempt t f s =
     (case compare_exchange_strong ACQUIRE RELAXED t UNLOCKED LOCKED_NOWAITERS (tv s t, value s) of
        (ok, found, r) \<Rightarrow> access t r (if ok then Locked else f found) s)"

lemma attempts:
  "lock t s = attempt t (wait_entry By_wait) s"
  "trylock t s = attempt t (\<lambda>_. Refused) s"
  "trylock_timeout timeout t s = attempt t (wait_entry (By_wait_timeout timeout)) s"
  by (auto simp: lock_def trylock_def trylock_timeout_def attempt_def split: prod.splits)

definition owns :: "fpc \<Rightarrow> bool" where
  "owns p \<longleftrightarrow> p = Locked \<or> p = Wake_store"

text \<open>Positions from which a thread will look at \<open>value\<close> again, or wake a thread that does.\<close>

definition hands_on :: "fpc \<Rightarrow> bool" where
  "hands_on p \<longleftrightarrow> p = Wake_store \<or> p = Wake_call \<or> (\<exists>w. p = Xchg w)"

definition after_miss :: "(u32 \<Rightarrow> fpc) \<Rightarrow> bool" where
  "after_miss f \<longleftrightarrow>
     (\<forall>found. found \<noteq> 0 \<longrightarrow> f found = Refused \<or> (\<exists>w. f found = Xchg w \<or> f found = Syscall w))"

lemma after_missI:
  "after_miss (wait_entry w)" "after_miss (\<lambda>_. Refused)"
  by (simp_all add: after_miss_def wait_entry_def wait_loop_def)

lemma attempt_simps:
  "atomic (value (attempt t f s)) = (if atomic (value s) = 0 then 1 else atomic (value s))"
  "pc (attempt t f s) = (pc s)(t := if atomic (value s) = 0 then Locked else f (atomic (value s)))"
  "queue (attempt t f s) = queue s" "protected (attempt t f s) = protected s"
  "wake_failed (attempt t f s) = wake_failed s"
  by (simp_all add: attempt_def access_def compare_exchange_strong_def)

lemma wait_exchange_simps:
  "atomic (value (wait_exchange w t s)) = 2"
  "pc (wait_exchange w t s) = (pc s)(t := wait_loop w (atomic (value s)))"
  "queue (wait_exchange w t s) = queue s" "protected (wait_exchange w t s) = protected s"
  "wake_failed (wait_exchange w t s) = wake_failed s"
  by (auto simp: wait_exchange_def access_def exchange_def rmw_def Let_def)

lemma unlock_simps:
  "atomic (value (unlock t s)) = atomic (value s) - 1"
  "pc (unlock t s) = (pc s)(t := if atomic (value s) = 2 then Wake_store else Idle)"
  "queue (unlock t s) = queue s" "protected (unlock t s) = protected s"
  "wake_failed (unlock t s) = wake_failed s"
  by (auto simp: unlock_def access_def fetch_sub_def rmw_def Let_def)

lemma wake_store_simps:
  "atomic (value (wake_store std t s)) = 0"
  "pc (wake_store std t s) = (pc s)(t := Wake_call)"
  "queue (wake_store std t s) = queue s" "protected (wake_store std t s) = protected s"
  "wake_failed (wake_store std t s) = wake_failed s"
  by (simp_all add: wake_store_def access_def)

lemmas op_simps =
  attempts attempt_simps wait_exchange_simps unlock_simps wake_store_simps wait_syscall_def
  wait_return_def work_def wake_call_def Let_def

lemma wait_loop_cases: "wait_loop w v = Locked \<and> v = 0 \<or> wait_loop w v = Syscall w \<and> v \<noteq> 0"
  by (simp add: wait_loop_def)

lemma wait_continue_cases:
  "wait_continue w r = Refused \<or> wait_continue w r = Xchg w \<or> (\<exists>e. wait_continue w r = Threw e)"
  by (simp add: wait_continue_def split: wait_result.splits waiter.splits)

text \<open>One case per kind of step.\<close>

lemma fact_elim:
  assumes "fact std K a s = Some s'"
  obtains
    (attempt) t f where "outside (pc s t)" "after_miss f" "s' = attempt t f s"
  | (unlock) t where "pc s t = Locked" "s' = unlock t s"
  | (exchange) t w where "pc s t = Xchg w" "s' = wait_exchange w t s"
  | (wait) t w where "pc s t = Syscall w" "s' = wait_syscall K w t s"
  | (return) t w r where "pc s t = Syscall w \<or> pc s t = Blocked w" "s' = wait_return w t r s"
  | (store) t where "pc s t = Wake_store" "s' = wake_store std t s"
  | (wake) t where "pc s t = Wake_call" "s' = wake_call K t s"
  | (fail) t e where "pc s t = Wake_call" "s' = s\<lparr>pc := (pc s)(t := Threw e), wake_failed := True\<rparr>"
  | (work) t e where "pc s t = Locked" "s' = work t e s"
proof (cases a)
  case (Wait_returns t r)
  with assms return show thesis by (cases "pc s t") auto
next
  case (Run t)
  with assms exchange wait store wake show thesis by (cases "pc s t") auto
qed (use assms attempt unlock fail work in
  \<open>auto simp: attempts intro: after_missI split: if_splits\<close>)

section \<open>Mutual exclusion\<close>

text \<open>The owner is the thread in the critical section, or the one that has left it but not yet
  stored \<open>UNLOCKED\<close>.\<close>

definition mutex_inv :: "futex_sys \<Rightarrow> bool" where
  "mutex_inv s \<longleftrightarrow>
     atomic (value s) \<in> {0, 1, 2}
     \<and> (atomic (value s) = 0 \<longleftrightarrow> (\<forall>t. \<not> owns (pc s t)))
     \<and> (\<forall>t u. owns (pc s t) \<longrightarrow> owns (pc s u) \<longrightarrow> t = u)"

lemma mutex_invD:
  "mutex_inv s \<Longrightarrow> atomic (value s) = 0 \<or> atomic (value s) = 1 \<or> atomic (value s) = 2"
  "mutex_inv s \<Longrightarrow> atomic (value s) = 0 \<Longrightarrow> \<not> owns (pc s t)"
  "mutex_inv s \<Longrightarrow> atomic (value s) \<noteq> 0 \<Longrightarrow> \<exists>t. owns (pc s t)"
  "mutex_inv s \<Longrightarrow> owns (pc s t) \<Longrightarrow> owns (pc s u) \<Longrightarrow> t = u"
  "mutex_inv s \<Longrightarrow> owns (pc s t) \<Longrightarrow> atomic (value s) \<noteq> 0"
  by (auto simp: mutex_inv_def)

text \<open>A step of a thread that owns the futex neither before nor after, and keeps \<open>value\<close> nonzero
  or as it was, changes nothing.\<close>

lemma mutex_inv_same_owner:
  assumes "mutex_inv s" and "\<And>t. owns (pc s' t) = owns (pc s t)"
    and "atomic (value s') = atomic (value s)
       \<or> atomic (value s) \<noteq> 0 \<and> (atomic (value s') = 1 \<or> atomic (value s') = 2)"
  shows "mutex_inv s'"
  using assms by (auto simp: mutex_inv_def)

lemma mutex_inv_acquire:
  assumes "mutex_inv s" and "atomic (value s) = 0" and "pc s' = (pc s)(t := Locked)"
    and "atomic (value s') = 1 \<or> atomic (value s') = 2"
  shows "mutex_inv s'"
  using assms by (auto simp: mutex_inv_def owns_def)

lemma mutex_inv_release:
  assumes "mutex_inv s" and "owns (pc s t)" and "pc s' = (pc s)(t := p)" and "\<not> owns p"
    and "atomic (value s') = 0"
  shows "mutex_inv s'"
  using assms by (auto simp: mutex_inv_def)

lemma owns_update:
  "owns p = owns (f t) \<Longrightarrow> owns ((f(t := p)) u) = owns (f u)"
  by simp

lemma owns_simps [simp]:
  "owns Locked" "owns Wake_store" "\<not> owns Idle" "\<not> owns Refused" "\<not> owns (Threw e)"
  "\<not> owns (Xchg w)" "\<not> owns (Syscall w)" "\<not> owns (Blocked w)" "\<not> owns Wake_call"
  by (simp_all add: owns_def)

lemma owns_wait_continue [simp]: "\<not> owns (wait_continue w r)"
  using wait_continue_cases [of w r] by auto

lemma owns_woken [simp]: "owns (woken p) = owns p"
  by (cases p) simp_all

lemma not_owns_outside: "outside p \<Longrightarrow> \<not> owns p"
  by (cases p) simp_all

lemma owns_after_miss: "after_miss f \<Longrightarrow> v \<noteq> 0 \<Longrightarrow> \<not> owns (f v)"
  unfolding after_miss_def by (metis owns_simps)

lemma mutex_inv_step:
  assumes inv: "mutex_inv s" and "fact std K a s = Some s'"
  shows "mutex_inv s'"
  using assms(2)
proof (cases rule: fact_elim)
  case (attempt t f)
  show ?thesis
  proof (cases "atomic (value s) = 0")
    case True
    with attempt inv show ?thesis by (intro mutex_inv_acquire [of s s' t]) (auto simp: op_simps)
  next
    case False
    with attempt inv show ?thesis
      by (intro mutex_inv_same_owner [of s s'])
        (auto simp: op_simps owns_after_miss not_owns_outside)
  qed
next
  case (unlock t)
  show ?thesis
  proof (cases "atomic (value s) = 2")
    case True
    with unlock inv show ?thesis
      by (intro mutex_inv_same_owner [of s s']) (auto simp: op_simps)
  next
    case False
    with mutex_invD(1) [OF inv] mutex_invD(5) [OF inv, of t] unlock(1)
    have "atomic (value s) = 1" by auto
    with unlock inv show ?thesis
      by (intro mutex_inv_release [of s t s' Idle]) (auto simp: op_simps)
  qed
next
  case (exchange t w)
  show ?thesis
  proof (cases "atomic (value s) = 0")
    case True
    with exchange inv show ?thesis
      by (intro mutex_inv_acquire [of s s' t]) (auto simp: op_simps wait_loop_def)
  next
    case False
    with exchange inv show ?thesis
      by (intro mutex_inv_same_owner [of s s']) (auto simp: op_simps wait_loop_def)
  qed
next
  case (store t)
  with inv show ?thesis
    by (intro mutex_inv_release [of s t s' Wake_call]) (auto simp: op_simps)
qed (use inv in \<open>auto simp: op_simps split: if_splits
    intro!: mutex_inv_same_owner [of s]\<close>)

lemma mutex_inv_init: "mutex_inv (futex_init std own)"
  by (cases own)
    (auto simp: mutex_inv_def futex_init_def Atomic_init_def owns_def split: if_splits)

lemma freach_mutex_inv: "freach std K own s \<Longrightarrow> mutex_inv s"
  by (induction rule: freach.induct) (auto intro: mutex_inv_init mutex_inv_step)

section \<open>No lost wake-up\<close>

definition queue_inv :: "futex_sys \<Rightarrow> bool" where
  "queue_inv s \<longleftrightarrow>
     distinct (queue s) \<and> (\<forall>t. t \<in> set (queue s) \<longleftrightarrow> (\<exists>w. pc s t = Blocked w))"

lemma not_blocked [simp]:
  "wait_loop w v \<noteq> Blocked w'" "wait_continue w r \<noteq> Blocked w'" "woken p \<noteq> Blocked w'"
proof -
  show "wait_loop w v \<noteq> Blocked w'" by (simp add: wait_loop_def)
  show c: "wait_continue w r \<noteq> Blocked w'" for w r w'
    using wait_continue_cases [of w r] by auto
  show "woken p \<noteq> Blocked w'" by (cases p) (simp_all add: c)
qed

lemma after_miss_not_blocked: "after_miss f \<Longrightarrow> v \<noteq> 0 \<Longrightarrow> f v \<noteq> Blocked w"
  unfolding after_miss_def by (metis fpc.distinct)

lemma queue_inv_step:
  assumes inv: "queue_inv s" and "fact std K a s = Some s'"
  shows "queue_inv s'"
  using assms(2)
proof (cases rule: fact_elim)
  case (attempt t f)
  then have "t \<notin> set (queue s)" using inv by (cases "pc s t") (auto simp: queue_inv_def)
  then show ?thesis
    using attempt inv after_miss_not_blocked [of f "atomic (value s)"]
    by (auto simp: op_simps queue_inv_def split: if_splits)
next
  case (wait t w)
  then have "t \<notin> set (queue s)" using inv by (auto simp: queue_inv_def)
  with wait inv show ?thesis by (auto simp: op_simps queue_inv_def)
next
  case (wake t)
  then have "t \<notin> set (queue s)" using inv by (auto simp: queue_inv_def)
  with wake inv show ?thesis by (auto simp: op_simps queue_inv_def)
qed (use inv in \<open>auto simp: op_simps queue_inv_def\<close>)

text \<open>As long as a thread sleeps in the kernel, \<open>value\<close> makes the next \<open>unlock\<close> wake one, or
  some thread is about to look at \<open>value\<close> or to wake one.\<close>

definition wake_inv :: "futex_sys \<Rightarrow> bool" where
  "wake_inv s \<longleftrightarrow>
     queue s \<noteq> [] \<longrightarrow> \<not> wake_failed s \<longrightarrow>
       atomic (value s) = 2 \<or> (\<exists>t. hands_on (pc s t))"

lemma hands_on_simps [simp]:
  "hands_on Wake_store" "hands_on Wake_call" "hands_on (Xchg w)" "\<not> hands_on Locked"
  "\<not> hands_on (Blocked w)" "\<not> hands_on (Syscall w)"
  by (simp_all add: hands_on_def)

lemma not_hands_on_outside: "outside p \<Longrightarrow> \<not> hands_on p"
  by (cases p) (simp_all add: hands_on_def)

lemma hands_on_other:
  assumes "\<exists>u. hands_on (pc s u)" and "\<not> hands_on (pc s t)" and "pc s' = (pc s)(t := p)"
  shows "\<exists>u. hands_on (pc s' u)"
  using assms by (metis fun_upd_other)

lemma wake_inv_other:
  assumes "wake_inv s" and "\<not> hands_on (pc s t)" and "pc s' = (pc s)(t := p)"
    and "queue s' \<noteq> [] \<Longrightarrow> queue s \<noteq> []" and "wake_failed s' = wake_failed s"
    and "atomic (value s) = 2 \<Longrightarrow> atomic (value s') = 2 \<or> hands_on p"
  shows "wake_inv s'"
  using assms hands_on_other [OF _ assms(2,3)]
  unfolding wake_inv_def by (metis fun_upd_same)

lemma wake_inv_own: "hands_on (pc s t) \<Longrightarrow> wake_inv s"
  by (auto simp: wake_inv_def)

text \<open>A wake with a sleeping thread hands over to one.\<close>

lemma wake_call_hands_over:
  assumes "futex_manual K" and "queue_inv s" and "queue s \<noteq> []" and "pc s t = Wake_call"
  shows "\<exists>u w. pc s u = Blocked w \<and> pc (wake_call K t s) u = Xchg w"
proof -
  let ?q = "wake_picks K 1 (queue s)"
  have q: "set ?q \<subseteq> set (queue s)" "length ?q = min 1 (length (queue s))"
    using assms(1,2) unfolding futex_manual_def queue_inv_def by blast+
  then have "?q \<noteq> []" using assms(3) by (cases "queue s") auto
  then obtain u where u: "u \<in> set ?q" by (cases ?q) auto
  with q assms(2) obtain w where "pc s u = Blocked w" by (auto simp: queue_inv_def)
  with u assms(4) show ?thesis
    by (intro exI [of _ u] exI [of _ w]) (auto simp: wake_call_def Let_def wait_continue_def)
qed

lemma wake_inv_step:
  assumes inv: "wake_inv s" and q: "queue_inv s" and K: "futex_manual K"
    and "fact std K a s = Some s'"
  shows "wake_inv s'"
  using assms(4)
proof (cases rule: fact_elim)
  case (attempt t f)
  with inv show ?thesis
    by (intro wake_inv_other [of s t s'])
      (auto simp: op_simps not_hands_on_outside)
next
  case (unlock t)
  with inv show ?thesis
    by (intro wake_inv_other [of s t s']) (auto simp: op_simps)
next
  case (exchange t w)
  then show ?thesis by (simp add: op_simps wake_inv_def)
next
  case (wait t w)
  show ?thesis
  proof (cases "wait_blocks K (atomic (value s)) 2 (wait_timeout_arg w)")
    case True
    with K have "atomic (value s) = 2" by (simp add: futex_manual_def)
    with wait True show ?thesis by (simp add: op_simps wake_inv_def)
  next
    case False
    with wait show ?thesis
      by (intro wake_inv_own [of _ t]) (simp add: op_simps wait_continue_def)
  qed
next
  case (return t w r)
  with inv show ?thesis
    by (intro wake_inv_other [of s t s']) (auto simp: op_simps)
next
  case (store t)
  then show ?thesis by (intro wake_inv_own [of _ t]) (simp add: op_simps)
next
  case (wake t)
  show ?thesis
  proof (cases "queue s = []")
    case True
    with wake show ?thesis by (simp add: op_simps wake_inv_def)
  next
    case False
    obtain u w where "pc s' u = Xchg w"
      using wake_call_hands_over [OF K q False wake(1)] wake by blast
    then show ?thesis by (intro wake_inv_own [of _ u]) simp
  qed
next
  case (fail t e)
  then show ?thesis by (simp add: wake_inv_def)
next
  case (work t e)
  with inv show ?thesis by (simp add: op_simps wake_inv_def)
qed

lemma queue_inv_init: "queue_inv (futex_init std own)"
  by (simp add: queue_inv_def futex_init_def)

lemma freach_queue_inv: "freach std K own s \<Longrightarrow> queue_inv s"
  by (induction rule: freach.induct) (auto intro: queue_inv_init queue_inv_step)

lemma freach_wake_inv:
  assumes "freach std K own s" and "futex_manual K"
  shows "wake_inv s"
  using assms(1)
proof (induction rule: freach.induct)
  case init
  then show ?case by (simp add: wake_inv_def futex_init_def)
next
  case (step s a s')
  show ?case
    by (rule wake_inv_step [OF step.IH freach_queue_inv [OF step.hyps(1)] assms(2) step.hyps(2)])
qed

section \<open>Progress\<close>

text \<open>A thread that wants the futex: it is between the failed compare-exchange and the return.\<close>

definition waiting :: "fpc \<Rightarrow> bool" where
  "waiting p \<longleftrightarrow> (\<exists>w. p = Xchg w \<or> p = Syscall w \<or> p = Blocked w)"

text \<open>With \<open>value\<close> zero, a thread before the exchange acquires with its next step, and one
  before the system call with the step after that.\<close>

lemma acquire_from_xchg:
  assumes "pc s t = Xchg w" and "atomic (value s) = 0"
  shows "\<exists>s'. fact std K (Run t) s = Some s' \<and> pc s' t = Locked"
  using assms by (simp add: op_simps wait_loop_def)

lemma acquire_from_syscall:
  assumes "pc s t = Syscall w" and "atomic (value s) = 0" and "futex_manual K"
  shows "\<exists>s' s''. fact std K (Run t) s = Some s' \<and> fact std K (Run t) s' = Some s''
    \<and> pc s'' t = Locked"
proof -
  obtain s' where s': "fact std K (Run t) s = Some s'"
    and x: "pc s' t = Xchg w" "atomic (value s') = 0"
    using assms by (auto simp: op_simps futex_manual_def wait_continue_def)
  with acquire_from_xchg [OF x] show ?thesis by blast
qed

text \<open>From a free futex with a waiting thread, at most two steps lead to an acquisition.\<close>

lemma progress_free:
  assumes mi: "mutex_inv s" and q: "queue_inv s" and wi: "wake_inv s" and K: "futex_manual K"
    and free: "atomic (value s) = 0" and "\<not> wake_failed s" and "waiting (pc s t0)"
  shows "\<exists>ts s' t. length ts \<le> 2 \<and> frun std K (map Run ts) s = Some s'
    \<and> waiting (pc s t) \<and> pc s' t = Locked"
proof (cases "\<exists>t w. pc s t = Xchg w")
  case True
  then obtain t w where t: "pc s t = Xchg w" by blast
  from acquire_from_xchg [OF t free] obtain s'
    where "fact std K (Run t) s = Some s'" "pc s' t = Locked" by blast
  with t show ?thesis
    by (intro exI [of _ "[t]"] exI [of _ s'] exI [of _ t]) (simp add: waiting_def)
next
  case no_xchg: False
  show ?thesis
  proof (cases "\<exists>t w. pc s t = Syscall w")
    case True
    then obtain t w where t: "pc s t = Syscall w" by blast
    from acquire_from_syscall [OF t free K] obtain s' s''
      where "fact std K (Run t) s = Some s'" "fact std K (Run t) s' = Some s''"
        "pc s'' t = Locked" by blast
    with t show ?thesis
      by (intro exI [of _ "[t, t]"] exI [of _ s''] exI [of _ t]) (simp add: waiting_def)
  next
    case False
    with no_xchg assms(7) q have "queue s \<noteq> []"
      by (auto simp: waiting_def queue_inv_def)
    moreover have "pc s t \<noteq> Wake_store" for t
      using mutex_invD(2) [OF mi free, of t] by auto
    ultimately obtain t where t: "pc s t = Wake_call"
      using wi no_xchg free assms(6) by (auto simp: wake_inv_def hands_on_def)
    from wake_call_hands_over [OF K q \<open>queue s \<noteq> []\<close> t] obtain u w
      where u: "pc s u = Blocked w" "pc (wake_call K t s) u = Xchg w" by blast
    from acquire_from_xchg [OF u(2), of std K] free obtain s'
      where "fact std K (Run u) (wake_call K t s) = Some s'" "pc s' u = Locked"
      by (auto simp: wake_call_def Let_def)
    with t u show ?thesis
      by (intro exI [of _ "[t, u]"] exI [of _ s'] exI [of _ u]) (simp add: waiting_def)
  qed
qed

text \<open>When the owner has only to finish its \<open>unlock\<close>, one more step frees the futex.\<close>

lemma progress_any:
  assumes mi: "mutex_inv s" and q: "queue_inv s" and wi: "wake_inv s" and K: "futex_manual K"
    and "\<forall>t. pc s t \<noteq> Locked" and "\<not> wake_failed s" and "waiting (pc s t0)"
  shows "\<exists>ts s' t. length ts \<le> 3 \<and> frun std K (map Run ts) s = Some s'
    \<and> waiting (pc s t) \<and> pc s' t = Locked"
proof (cases "atomic (value s) = 0")
  case True
  from progress_free [OF mi q wi K True assms(6,7), of std] obtain ts s' t
    where "length ts \<le> 2" "frun std K (map Run ts) s = Some s'"
      "waiting (pc s t)" "pc s' t = Locked" by blast
  then show ?thesis by (intro exI [of _ ts] exI [of _ s'] exI [of _ t]) simp
next
  case False
  with mutex_invD(3) [OF mi] assms(5) obtain o1 where o1: "pc s o1 = Wake_store"
    by (auto simp: owns_def)
  let ?s = "wake_store std o1 s"
  have step: "fact std K (Run o1) s = Some ?s" using o1 by simp
  note keep = mutex_inv_step [OF mi step] queue_inv_step [OF q step] wake_inv_step [OF wi q K step]
  have free: "atomic (value ?s) = 0" "\<not> wake_failed ?s" "waiting (pc ?s t0)"
    using assms(6,7) o1 by (auto simp: op_simps waiting_def)
  obtain ts s' t where run: "length ts \<le> 2" "frun std K (map Run ts) ?s = Some s'"
    "waiting (pc ?s t)" "pc s' t = Locked"
    using progress_free [OF keep K free, of std] by blast
  from run(3) have "waiting (pc s t)"
    by (auto simp: op_simps waiting_def split: if_splits)
  with run step show ?thesis
    by (intro exI [of _ "o1 # ts"] exI [of _ s'] exI [of _ t]) simp
qed

section \<open>What the owner sees\<close>

text \<open>
  Under the rules before C++20, where the relaxed store in \<open>wake\<close> continues the release
  sequence of the \<open>fetch_sub\<close> in \<open>unlock\<close>: the owner has seen every write protected so far,
  a free futex carries them, and during \<open>wake\<close> they are in a head of the waking thread.
\<close>

definition view_inv :: "futex_sys \<Rightarrow> bool" where
  "view_inv s \<longleftrightarrow>
     (\<forall>t. pc s t = Locked \<longrightarrow> protected s \<subseteq> v_cur (tv s t))
     \<and> (\<forall>t. pc s t = Wake_store \<longrightarrow>
          (\<exists>v. (t, v) \<in> set (heads (value s)) \<and> protected s \<subseteq> v))
     \<and> (atomic (value s) = 0 \<longrightarrow> protected s \<subseteq> joined (heads (value s)))"

lemma attempt_views:
  "heads (value (attempt t f s)) =
     (if atomic (value s) = 0 then (t, v_rel (tv s t)) # heads (value s) else heads (value s))"
  "v_cur (tv (attempt t f s) u) =
     v_cur (tv s u) \<union> (if u = t \<and> atomic (value s) = 0 then joined (heads (value s)) else {})"
  by (auto simp: attempt_def access_def compare_exchange_strong_def after_read_def published_def
      acquires_def releases_def)

lemma exchange_views:
  "heads (value (wait_exchange w t s)) = (t, v_rel (tv s t)) # heads (value s)"
  "v_cur (tv (wait_exchange w t s) u) =
     v_cur (tv s u) \<union> (if u = t then joined (heads (value s)) else {})"
  by (auto simp: wait_exchange_def access_def exchange_def rmw_def Let_def after_read_def
      published_def acquires_def releases_def)

lemma unlock_views:
  "heads (value (unlock t s)) = (t, v_cur (tv s t)) # heads (value s)"
  "v_cur (tv (unlock t s) u) = v_cur (tv s u)"
  by (auto simp: unlock_def access_def fetch_sub_def rmw_def Let_def after_read_def
      published_def acquires_def releases_def)

lemma wake_store_views:
  "heads (value (wake_store CXX17 t s)) =
     (t, v_rel (tv s t)) # filter (\<lambda>h. fst h = t) (heads (value s))"
  "tv (wake_store std t s) = tv s"
  by (auto simp: wake_store_def access_def published_def releases_def)

lemma locked_cases:
  "wait_loop w v = Locked \<longleftrightarrow> v = 0" "wait_loop w v \<noteq> Wake_store"
  "wait_continue w r \<noteq> Locked" "wait_continue w r \<noteq> Wake_store"
  "woken p = Locked \<longleftrightarrow> p = Locked" "woken p = Wake_store \<longleftrightarrow> p = Wake_store"
proof -
  show "wait_loop w v = Locked \<longleftrightarrow> v = 0" "wait_loop w v \<noteq> Wake_store"
    by (simp_all add: wait_loop_def)
  show c: "wait_continue w r \<noteq> Locked" "wait_continue w r \<noteq> Wake_store" for w r
    using wait_continue_cases [of w r] by auto
  show "woken p = Locked \<longleftrightarrow> p = Locked" "woken p = Wake_store \<longleftrightarrow> p = Wake_store"
    by (cases p; simp add: c)+
qed

lemma after_miss_not_locked:
  "after_miss f \<Longrightarrow> v \<noteq> 0 \<Longrightarrow> f v \<noteq> Locked \<and> f v \<noteq> Wake_store"
  unfolding after_miss_def by (metis fpc.distinct)

text \<open>Steps that touch neither \<open>value\<close> nor the views, and make no thread an owner.\<close>

lemma view_inv_same:
  assumes "view_inv s" and "value s' = value s" and "tv s' = tv s" and "protected s' = protected s"
    and "\<And>t. pc s' t = Locked \<Longrightarrow> pc s t = Locked"
    and "\<And>t. pc s' t = Wake_store \<Longrightarrow> pc s t = Wake_store"
  shows "view_inv s'"
  using assms by (simp add: view_inv_def)

lemma holder_alone:
  assumes "mutex_inv s" and "pc s t = Locked \<or> pc s t = Wake_store"
    and "pc s u = Locked \<or> pc s u = Wake_store"
  shows "u = t"
  using mutex_invD(4) [OF assms(1), of t u] assms(2,3) by (auto simp: owns_def)

lemma view_inv_step:
  assumes inv: "view_inv s" and mi: "mutex_inv s" and "fact CXX17 K a s = Some s'"
  shows "view_inv s'"
  using assms(3)
proof (cases rule: fact_elim)
  case (attempt t f)
  show ?thesis
  proof (cases "atomic (value s) = 0")
    case True
    with attempt inv mutex_invD(2) [OF mi True] show ?thesis
      by (fastforce simp: view_inv_def op_simps attempt_views owns_def)
  next
    case False
    with attempt inv after_miss_not_locked [OF attempt(2) False] show ?thesis
      by (simp add: view_inv_def op_simps attempt_views)
  qed
next
  case (unlock t)
  note only = holder_alone [OF mi, of t, unfolded unlock(1), simplified]
  have "protected s \<subseteq> v_cur (tv s t)" using inv unlock(1) by (simp add: view_inv_def)
  with unlock only show ?thesis
    by (auto simp: view_inv_def op_simps unlock_views split: if_splits)
next
  case (exchange t w)
  show ?thesis
  proof (cases "atomic (value s) = 0")
    case True
    with exchange inv mutex_invD(2) [OF mi True] show ?thesis
      by (fastforce simp: view_inv_def op_simps exchange_views owns_def locked_cases)
  next
    case False
    with exchange inv show ?thesis
      by (fastforce simp: view_inv_def op_simps exchange_views locked_cases)
  qed
next
  case (store t)
  note only = holder_alone [OF mi, of t, unfolded store(1), simplified]
  obtain v where "(t, v) \<in> set (heads (value s))" and v: "protected s \<subseteq> v"
    using inv store(1) by (auto simp: view_inv_def)
  then have "v \<subseteq> joined (heads (value s'))"
    using store(2) by (intro joined_mem [of t]) (simp add: wake_store_views)
  with v store only show ?thesis
    by (auto simp: view_inv_def op_simps split: if_splits)
next
  case (work t e)
  note only = holder_alone [OF mi, of t, unfolded work(1), simplified]
  have no_store: "pc s u \<noteq> Wake_store" for u using only [of u] work(1) by auto
  have "protected s' \<subseteq> v_cur (tv s' u)" if "pc s' u = Locked" for u
  proof -
    have "u = t" using that only [of u] work(2) by (simp add: work_def)
    then show ?thesis using work inv by (auto simp: view_inv_def work_def)
  qed
  moreover have "pc s' u \<noteq> Wake_store" for u
    using no_store work(2) by (simp add: work_def)
  moreover have "atomic (value s') \<noteq> 0"
    using mutex_invD(5) [OF mi, of t] work by (simp add: work_def)
  ultimately show ?thesis by (simp add: view_inv_def)
qed (use inv in \<open>auto simp: op_simps locked_cases split: if_splits
    intro!: view_inv_same [of s]\<close>)

lemma freach_view_inv: "freach CXX17 K own s \<Longrightarrow> view_inv s"
proof (induction rule: freach.induct)
  case init
  then show ?case by (simp add: view_inv_def futex_init_def)
next
  case (step s a s')
  show ?case
    by (rule view_inv_step [OF step.IH freach_mutex_inv [OF step.hyps(1)] step.hyps(2)])
qed

section \<open>The futex as a lock\<close>

text \<open>The thread whose step an action is.\<close>

fun thread_of :: "action \<Rightarrow> tid" where
  "thread_of (Call_lock t) = t"
| "thread_of (Call_trylock t) = t"
| "thread_of (Call_trylock_timeout t timeout) = t"
| "thread_of (Call_unlock t) = t"
| "thread_of (Run t) = t"
| "thread_of (Wait_returns t r) = t"
| "thread_of (Wake_fails t e) = t"
| "thread_of (Work t e) = t"

text \<open>All an action does to the position of another thread is to wake it.\<close>

lemma fact_other:
  "fact std K a s = Some s' \<Longrightarrow> u \<noteq> thread_of a \<Longrightarrow>
   pc s' u = pc s u \<or> pc s' u = woken (pc s u)"
  by (cases a) (auto simp: op_simps split: if_splits fpc.splits)

lemma fact_other_holds:
  "fact std K a s = Some s' \<Longrightarrow> u \<noteq> thread_of a \<Longrightarrow> pc s' u = Locked \<longleftrightarrow> pc s u = Locked"
  using fact_other [of std K a s s' u] locked_cases(5) [of "pc s u"] by metis

definition futex_steps ::
    "cxx_std \<Rightarrow> futex_kernel \<Rightarrow> tid \<Rightarrow> futex_sys \<Rightarrow> futex_sys \<Rightarrow> bool" where
  "futex_steps std K t s s' \<longleftrightarrow> (\<exists>a. thread_of a = t \<and> fact std K a s = Some s')"

interpretation futex_lock: mutual_exclusion mutex_inv "\<lambda>s t. pc s t = Locked" "futex_steps std K"
proof
  fix s s' t u
  show "mutex_inv s \<Longrightarrow> pc s t = Locked \<Longrightarrow> pc s u = Locked \<Longrightarrow> t = u"
    using mutex_invD(4) [of s t u] by simp
  show "mutex_inv s \<Longrightarrow> futex_steps std K t s s' \<Longrightarrow> mutex_inv s'"
    by (auto simp: futex_steps_def intro: mutex_inv_step)
  show "mutex_inv s \<Longrightarrow> futex_steps std K t s s' \<Longrightarrow> u \<noteq> t \<Longrightarrow>
      (pc s' u = Locked) = (pc s u = Locked)"
    by (auto simp: futex_steps_def dest: fact_other_holds)
qed

section \<open>Misuse\<close>

text \<open>A nonzero \<open>value\<close> that no thread will ever reset.\<close>

definition stuck :: "futex_sys \<Rightarrow> bool" where
  "stuck s \<longleftrightarrow>
     atomic (value s) \<noteq> 0 \<and> (\<forall>t. pc s t \<noteq> Locked \<and> pc s t \<noteq> Wake_store)"

lemma stuck_step: "stuck s \<Longrightarrow> fact std K a s = Some s' \<Longrightarrow> stuck s'"
proof (erule fact_elim)
  fix t f
  assume "stuck s" "outside (pc s t)" "after_miss f" "s' = attempt t f s"
  then show ?thesis
    using after_miss_not_locked [of f "atomic (value s)"] by (auto simp: stuck_def op_simps)
qed (auto simp: stuck_def op_simps locked_cases wait_loop_def)

lemma stuck_run: "stuck s \<Longrightarrow> frun std K as s = Some s' \<Longrightarrow> stuck s'"
  by (induction as arbitrary: s) (auto split: option.splits dest: stuck_step)

section \<open>Calls of the kernel\<close>

text \<open>The calls of \<open>futex_wait\<close> in an execution, with the thread, the expected value and the
  timeout.\<close>

fun wait_call :: "action \<Rightarrow> futex_sys \<Rightarrow> (tid \<times> u32 \<times> timespec option) list" where
  "wait_call (Run t) s =
     (case pc s t of Syscall w \<Rightarrow> [(t, LOCKED_WAITERS, wait_timeout_arg w)] | _ \<Rightarrow> [])"
| "wait_call (Wait_returns t r) s =
     (case pc s t of Syscall w \<Rightarrow> [(t, LOCKED_WAITERS, wait_timeout_arg w)] | _ \<Rightarrow> [])"
| "wait_call a s = []"

fun wait_calls ::
    "cxx_std \<Rightarrow> futex_kernel \<Rightarrow> action list \<Rightarrow> futex_sys \<Rightarrow> (tid \<times> u32 \<times> timespec option) list" where
  "wait_calls std K [] s = []"
| "wait_calls std K (a # as) s =
     (case fact std K a s of
        None \<Rightarrow> []
      | Some s' \<Rightarrow> wait_call a s @ wait_calls std K as s')"

text \<open>A new call by which a thread may come to wait.\<close>

fun enters_wait :: "tid \<Rightarrow> action \<Rightarrow> bool" where
  "enters_wait t (Call_lock u) = (u = t)"
| "enters_wait t (Call_trylock_timeout u timeout) = (u = t)"
| "enters_wait t a = False"

definition waits_in :: "waiter \<Rightarrow> fpc \<Rightarrow> bool" where
  "waits_in w p \<longleftrightarrow> (\<forall>w'. p = Xchg w' \<or> p = Syscall w' \<or> p = Blocked w' \<longrightarrow> w' = w)"

lemma waits_in_simps [simp]:
  "waits_in w Idle" "waits_in w Refused" "waits_in w (Threw e)" "waits_in w Locked"
  "waits_in w Wake_store" "waits_in w Wake_call" "waits_in w (Xchg w') \<longleftrightarrow> w' = w"
  "waits_in w (Syscall w') \<longleftrightarrow> w' = w" "waits_in w (Blocked w') \<longleftrightarrow> w' = w"
  by (auto simp: waits_in_def)

lemma waits_in_loop [simp]: "waits_in w (wait_loop w v)" "waits_in w (wait_continue w r)"
  using wait_continue_cases [of w r] by (auto simp: wait_loop_def)

lemma waits_in_woken [simp]: "waits_in w (woken p) \<longleftrightarrow> waits_in w p"
  by (cases p) (simp_all add: wait_continue_def)

lemma waits_in_step:
  assumes "waits_in w (pc s t)" and "\<not> enters_wait t a" and "fact std K a s = Some s'"
  shows "waits_in w (pc s' t)"
proof (cases "thread_of a = t")
  case False
  with fact_other [OF assms(3), of t] assms(1) show ?thesis by auto
next
  case True
  with assms show ?thesis
    by (cases a) (auto simp: op_simps attempts wait_syscall_def split: fpc.splits if_splits)
qed

lemma wait_calls_same_timeout:
  "waits_in w (pc s t) \<Longrightarrow> \<forall>a\<in>set as. \<not> enters_wait t a \<Longrightarrow>
   \<forall>c\<in>set (wait_calls std K as s). fst c = t \<longrightarrow> c = (t, LOCKED_WAITERS, wait_timeout_arg w)"
proof (induction as arbitrary: s)
  case (Cons a as)
  show ?case
  proof (cases "fact std K a s")
    case (Some s')
    have "\<forall>c\<in>set (wait_call a s). fst c = t \<longrightarrow> c = (t, LOCKED_WAITERS, wait_timeout_arg w)"
      using Cons.prems(1) by (cases a) (auto dest!: sym [of "Syscall _"] split: fpc.splits)
    with Cons.IH [OF waits_in_step [OF Cons.prems(1) _ Some]] Cons.prems(2) Some show ?thesis
      by (auto simp del: fact.simps)
  qed (simp del: fact.simps)
qed simp

text \<open>A wait that is interrupted \<open>n\<close> times.\<close>

definition interrupted :: "nat \<Rightarrow> tid \<Rightarrow> action list" where
  "interrupted n t = concat (replicate n [Run t, Wait_returns t (Failed EINTR), Run t])"

lemma interrupted_calls:
  assumes "futex_manual K" and "pc s t = Syscall w" and "atomic (value s) = LOCKED_WAITERS"
  shows "\<exists>s'. frun std K (interrupted n t @ [Run t]) s = Some s'
    \<and> wait_calls std K (interrupted n t @ [Run t]) s
        = replicate (Suc n) (t, LOCKED_WAITERS, wait_timeout_arg w)
    \<and> pc s' t = Blocked w"
  using assms(2,3)
proof (induction n arbitrary: s)
  case 0
  have "wait_blocks K 2 2 x" for x using assms(1) by (simp add: futex_manual_def)
  with 0 show ?case by (simp add: interrupted_def wait_syscall_def)
next
  case (Suc n)
  have blocks: "wait_blocks K 2 2 x" for x using assms(1) by (simp add: futex_manual_def)
  define s1 where "s1 = wait_exchange w t (wait_return w t (Failed EINTR) (wait_syscall K w t s))"
  have "pc s1 t = Syscall w" "atomic (value s1) = 2"
    using Suc.prems blocks by (simp_all add: s1_def op_simps wait_loop_def)
  from Suc.IH [OF this] Suc.prems blocks show ?case
    by (simp add: s1_def interrupted_def op_simps wait_continue_def)
qed

section \<open>Example executions\<close>

lemma frun_freach:
  "frun std K as s = Some s' \<Longrightarrow> freach std K own s \<Longrightarrow> freach std K own s'"
  by (induction as arbitrary: s) (auto split: option.splits intro: freach.step)

text \<open>Thread 1 holds the futex and has written, thread 2 sleeps.\<close>

definition sleeping_demo :: "action list" where
  "sleeping_demo = [Call_lock 1, Call_lock 2, Run 2, Run 2, Work 1 7]"

text \<open>Thread 1 has unlocked but not yet woken; thread 3 has got in between.\<close>

definition barging_demo :: "action list" where
  "barging_demo = sleeping_demo @ [Call_unlock 1, Run 1, Call_trylock 3]"

text \<open>Thread 2 gets the futex handed over.\<close>

definition handover_demo :: "action list" where
  "handover_demo = sleeping_demo @ [Call_unlock 1, Run 1, Run 1, Run 2]"

lemmas futex_eval =
  sleeping_demo_def barging_demo_def handover_demo_def futex_init_def fifo_kernel_def futex_ops
  wait_loop_def wait_entry_def wait_continue_def atomic_ops Let_def
  after_read_def published_def acquires_def releases_def tview_init_def

lemma sleeping_run:
  "\<exists>s. frun std fifo_kernel sleeping_demo (futex_init std None) = Some s
     \<and> pc s 1 = Locked \<and> pc s 2 = Blocked By_wait \<and> atomic (value s) = 2 \<and> \<not> wake_failed s"
  by (simp add: futex_eval)

lemma unlocked_run:
  "\<exists>s. frun std fifo_kernel (sleeping_demo @ [Call_unlock 1]) (futex_init std None) = Some s
     \<and> pc s 2 = Blocked By_wait \<and> (\<forall>t. pc s t \<noteq> Locked) \<and> \<not> wake_failed s"
  by (simp add: futex_eval)

lemma barging_run:
  "\<exists>s. frun std fifo_kernel barging_demo (futex_init std None) = Some s
     \<and> pc s 3 = Locked \<and> pc s 1 = Wake_call \<and> pc s 2 = Blocked By_wait"
  by (simp add: futex_eval)

lemma handover_run:
  "\<exists>s. frun CXX17 fifo_kernel handover_demo (futex_init CXX17 None) = Some s
     \<and> pc s 2 = Locked \<and> protected s = {7}"
  by (simp add: futex_eval)

lemma handover_run_20:
  "\<exists>s. frun CXX20 fifo_kernel handover_demo (futex_init CXX20 None) = Some s
     \<and> pc s 2 = Locked \<and> 7 \<in> protected s \<and> 7 \<notin> v_cur (tv s 2)"
  by (simp add: futex_eval)

section \<open>Properties\<close>

text \<open>C2. Mutual exclusion. In every execution of any number of threads, whatever the kernel
  does with waits, wakes, signals and errors: at most one thread is between its acquisition
  and the statement that frees the futex, and \<open>value\<close> is \<open>UNLOCKED\<close> exactly when there is
  none.\<close>

theorem futex_mutual_exclusion:
  assumes "freach std K own s"
  shows "(\<forall>t u. pc s t \<in> {Locked, Wake_store} \<longrightarrow> pc s u \<in> {Locked, Wake_store} \<longrightarrow> t = u)
    \<and> (atomic (value s) = UNLOCKED \<longleftrightarrow> (\<forall>t. pc s t \<notin> {Locked, Wake_store}))
    \<and> atomic (value s) \<in> {UNLOCKED, LOCKED_NOWAITERS, LOCKED_WAITERS}"
  using freach_mutex_inv [OF assms] by (auto simp: mutex_inv_def owns_def)

theorem futex_mutual_exclusion_witness:
  "\<exists>s. freach CXX20 fifo_kernel None s \<and> pc s 3 = Locked \<and> pc s 1 = Wake_call
     \<and> (\<forall>u. pc s u = Locked \<longrightarrow> u = 3) \<and> atomic (value s) \<noteq> 0"
proof -
  obtain s where run: "frun CXX20 fifo_kernel barging_demo (futex_init CXX20 None) = Some s"
    and s: "pc s 3 = Locked" "pc s 1 = Wake_call"
    using barging_run by blast
  have r: "freach CXX20 fifo_kernel None s" by (rule frun_freach [OF run freach.init])
  with futex_mutual_exclusion [OF r] s show ?thesis by (intro exI [of _ s]) auto
qed

text \<open>C3. No lost wake-up. While a thread sleeps in the kernel, either the owner's \<open>unlock\<close> will
  take the path that wakes a thread, or some thread is about to do so or to exchange
  \<open>value\<close>; signals, timeouts and spurious returns do not break this, only a \<open>futex_wake\<close>
  that reports an error can.\<close>

theorem futex_no_lost_wakeup:
  assumes "freach std K own s" and "futex_manual K" and "\<not> wake_failed s"
    and "pc s t = Blocked w"
  shows "(\<exists>u. pc s u = Locked \<and> atomic (value s) = LOCKED_WAITERS)
    \<or> (\<exists>u. pc s u = Wake_store \<or> pc s u = Wake_call \<or> (\<exists>w'. pc s u = Xchg w'))"
proof -
  have "queue s \<noteq> []" using freach_queue_inv [OF assms(1)] assms(4) by (auto simp: queue_inv_def)
  with freach_wake_inv [OF assms(1,2)] assms(3)
  have "atomic (value s) = 2 \<or> (\<exists>u. hands_on (pc s u))" by (simp add: wake_inv_def)
  with mutex_invD(3) [OF freach_mutex_inv [OF assms(1)]] show ?thesis
    by (auto simp: hands_on_def owns_def)
qed

theorem futex_no_lost_wakeup_witness:
  "\<exists>s. freach CXX20 fifo_kernel None s \<and> pc s 2 = Blocked By_wait
     \<and> ((\<exists>u. pc s u = Locked \<and> atomic (value s) = LOCKED_WAITERS)
        \<or> (\<exists>u. pc s u = Wake_store \<or> pc s u = Wake_call \<or> (\<exists>w'. pc s u = Xchg w')))"
proof -
  obtain s where run: "frun CXX20 fifo_kernel sleeping_demo (futex_init CXX20 None) = Some s"
    and s: "pc s 2 = Blocked By_wait" "\<not> wake_failed s"
    using sleeping_run by blast
  have r: "freach CXX20 fifo_kernel None s" by (rule frun_freach [OF run freach.init])
  from r s futex_no_lost_wakeup [OF r fifo_kernel_manual s(2) s(1)] show ?thesis by blast
qed

text \<open>Deadlock freedom. Whenever a thread wants the futex and no thread is inside its
  critical section, at most three steps of the threads already under way (the two
  statements of a pending \<open>wake\<close>, a system call that returns at once, the exchange) let a
  waiting thread acquire it.\<close>

lemma futex_progress:
  assumes "freach std K own s" and "futex_manual K" and "\<not> wake_failed s"
    and "\<forall>t. pc s t \<noteq> Locked" and "waiting (pc s t0)"
  shows "\<exists>ts s' t. length ts \<le> 3 \<and> frun std K (map Run ts) s = Some s'
    \<and> waiting (pc s t) \<and> pc s' t = Locked"
  using progress_any [OF freach_mutex_inv [OF assms(1)] freach_queue_inv [OF assms(1)]
      freach_wake_inv [OF assms(1,2)] assms(2,4,3,5), of std] .

text \<open>C11. Under the release-sequence rule before C++20 the memory orders of \<open>lock\<close>, \<open>wait\<close>,
  \<open>unlock\<close> and \<open>wake\<close> suffice: every write made in an earlier critical section happens
  before what the present owner does.\<close>

theorem futex_publishes:
  assumes "freach CXX17 K own s" and "pc s t = Locked"
  shows "protected s \<subseteq> v_cur (tv s t)"
  using freach_view_inv [OF assms(1)] assms(2) by (simp add: view_inv_def)

theorem futex_publishes_witness:
  "\<exists>s. freach CXX17 fifo_kernel None s \<and> pc s 2 = Locked \<and> 7 \<in> v_cur (tv s 2)"
proof -
  obtain s where run: "frun CXX17 fifo_kernel handover_demo (futex_init CXX17 None) = Some s"
    and s: "pc s 2 = Locked" "protected s = {7}"
    using handover_run by blast
  have r: "freach CXX17 fifo_kernel None s" by (rule frun_freach [OF run freach.init])
  with futex_publishes [OF r s(1)] s show ?thesis by (intro exI [of _ s]) simp
qed

text \<open>C25. Under the rule of C++20, which the build selects, they do not: the relaxed store in
  \<open>wake\<close> ends the release sequence of \<open>unlock\<close>, and in the plain hand-over from thread 1 to a
  sleeping thread 2 the language does not order thread 1's critical section before thread
  2's.\<close>

theorem futex_publishes_fails_cxx20:
  "\<exists>s. freach CXX20 fifo_kernel None s \<and> pc s 2 = Locked
     \<and> 7 \<in> protected s \<and> 7 \<notin> v_cur (tv s 2)"
  using handover_run_20 frun_freach [OF _ freach.init] by blast

text \<open>The uncontended path needs no system call: on a free futex \<open>lock\<close> acquires and the
  \<open>unlock\<close> that follows releases, each with one atomic operation, and the wait queue is not
  touched.\<close>

lemma futex_uncontended:
  assumes "atomic (value s) = UNLOCKED" and "outside (pc s t)"
  shows "\<exists>s' s''. fact std K (Call_lock t) s = Some s' \<and> pc s' t = Locked
    \<and> fact std K (Call_unlock t) s' = Some s'' \<and> pc s'' t = Idle
    \<and> atomic (value s'') = UNLOCKED \<and> queue s'' = queue s"
  using assms by (simp add: op_simps)

text \<open>\<open>trylock\<close> never waits: it acquires a free futex, and otherwise returns false and
  leaves \<open>value\<close> and what the thread has seen as they are.\<close>

lemma trylock_exact:
  "pc (trylock t s) = (pc s)(t := if atomic (value s) = UNLOCKED then Locked else Refused)
     \<and> queue (trylock t s) = queue s
     \<and> atomic (value (trylock t s))
         = (if atomic (value s) = UNLOCKED then LOCKED_NOWAITERS else atomic (value s))
     \<and> (atomic (value s) = UNLOCKED
        \<or> value (trylock t s) = value s \<and> v_cur (tv (trylock t s) t) = v_cur (tv s t))"
  by (auto simp: op_simps attempt_views)

text \<open>C36. The relative timeout bounds a single wait only. Every call of \<open>futex_wait\<close> that a call of
  \<open>trylock_timeout\<close> makes, in every execution and whatever has happened before it, gets the
  caller's timeout unchanged; so with a futex that stays locked a thread that is interrupted
  \<open>n\<close> times makes \<open>n + 1\<close> system calls, each with the full timeout.\<close>

theorem wait_timeout_restarts:
  assumes "futex_manual K" and "outside (pc s t)"
  shows "(\<forall>as. (\<forall>a\<in>set as. \<not> enters_wait t a) \<longrightarrow>
      (\<forall>c\<in>set (wait_calls std K (Call_trylock_timeout t timeout # as) s).
         fst c = t \<longrightarrow> c = (t, LOCKED_WAITERS, timeout)))
    \<and> (atomic (value s) = LOCKED_WAITERS \<longrightarrow>
        (\<exists>s'. frun std K (Call_trylock_timeout t timeout # interrupted n t @ [Run t]) s = Some s'
           \<and> wait_calls std K (Call_trylock_timeout t timeout # interrupted n t @ [Run t]) s
               = replicate (Suc n) (t, LOCKED_WAITERS, timeout)
           \<and> pc s' t = Blocked (By_wait_timeout timeout)))"
proof (intro conjI allI impI)
  let ?w = "By_wait_timeout timeout" and ?s1 = "trylock_timeout timeout t s"
  have call: "fact std K (Call_trylock_timeout t timeout) s = Some ?s1" using assms(2) by simp
  have arg: "wait_timeout_arg ?w = timeout" by (simp add: wait_timeout_arg_def)
  {
    fix as assume "\<forall>a\<in>set as. \<not> enters_wait t a"
    moreover have "waits_in ?w (pc ?s1 t)"
      by (simp add: attempts op_simps waits_in_def wait_entry_def wait_loop_def)
    ultimately show "\<forall>c\<in>set (wait_calls std K (Call_trylock_timeout t timeout # as) s).
        fst c = t \<longrightarrow> c = (t, LOCKED_WAITERS, timeout)"
      using wait_calls_same_timeout [of ?w ?s1 t as std K] call arg by (simp del: fact.simps)
  next
    assume v: "atomic (value s) = LOCKED_WAITERS"
    then have "pc ?s1 t = Syscall ?w" "atomic (value ?s1) = LOCKED_WAITERS"
      by (simp_all add: attempts op_simps wait_entry_def wait_loop_def)
    from interrupted_calls [OF assms(1) this, of std n] call arg
    show "\<exists>s'. frun std K (Call_trylock_timeout t timeout # interrupted n t @ [Run t]) s = Some s'
        \<and> wait_calls std K (Call_trylock_timeout t timeout # interrupted n t @ [Run t]) s
            = replicate (Suc n) (t, LOCKED_WAITERS, timeout)
        \<and> pc s' t = Blocked ?w"
      by (simp del: fact.simps)
  }
qed

theorem wait_timeout_restarts_witness:
  "let s = futex_init CXX20 (Some 1);
       as = [Call_lock 3, Run 3];
       s1 = the (frun CXX20 fifo_kernel as s);
       bs = Call_trylock_timeout 2 (Some \<lparr>tv_sec = 5, tv_nsec = 0\<rparr>) # interrupted 1000 2 @ [Run 2]
   in wait_calls CXX20 fifo_kernel bs s1
      = replicate 1001 (2, 2, Some \<lparr>tv_sec = 5, tv_nsec = 0\<rparr>)"
proof -
  define s1 where "s1 = the (frun CXX20 fifo_kernel [Call_lock 3, Run 3] (futex_init CXX20 (Some 1)))"
  have "outside (pc s1 2)" "atomic (value s1) = LOCKED_WAITERS"
    by (simp_all add: s1_def futex_eval)
  with wait_timeout_restarts [OF fifo_kernel_manual this(1), of CXX20
      "Some \<lparr>tv_sec = 5, tv_nsec = 0\<rparr>" 1000]
  show ?thesis unfolding Let_def s1_def [symmetric] by auto
qed

text \<open>C35. An \<open>unlock\<close> of a free futex, in any reachable state and also while another thread is
  still waking, is not detected and locks the futex: \<open>value\<close> becomes -1, and in every
  continuation in which no thread again calls \<open>unlock\<close> without owning it, no call of \<open>lock\<close>
  or \<open>trylock\<close>, timed or not, acquires the futex.\<close>

theorem unlock_of_free_futex:
  assumes "freach std K own s" and "atomic (value s) = UNLOCKED"
    and "frun std K as (unlock t s) = Some s'"
  shows "atomic (value (unlock t s)) = - 1 \<and> pc s' u \<noteq> Locked"
proof -
  have "stuck (unlock t s)"
    using mutex_invD(2) [OF freach_mutex_inv [OF assms(1)] assms(2)] assms(2)
    by (auto simp: stuck_def op_simps owns_def)
  from stuck_run [OF this assms(3)] assms(2) show ?thesis
    by (simp add: stuck_def op_simps)
qed

theorem unlock_of_free_futex_witness:
  "\<exists>s'. frun CXX20 fifo_kernel [Call_lock 5, Run 5, Run 5] (unlock 4 (futex_init CXX20 None)) = Some s'
     \<and> pc s' 5 = Blocked By_wait \<and> pc s' 6 \<noteq> Locked"
proof -
  have "\<exists>s'. frun CXX20 fifo_kernel [Call_lock 5, Run 5, Run 5] (unlock 4 (futex_init CXX20 None))
      = Some s' \<and> pc s' 5 = Blocked By_wait"
    by (simp add: futex_eval)
  then obtain s' where run: "frun CXX20 fifo_kernel [Call_lock 5, Run 5, Run 5]
      (unlock 4 (futex_init CXX20 None)) = Some s'" and b: "pc s' 5 = Blocked By_wait" by blast
  have "pc s' 6 \<noteq> Locked"
    using unlock_of_free_futex [OF freach.init _ run, where u = 6]
    by (simp add: futex_init_def Atomic_init_def)
  with run b show ?thesis by blast
qed

end
