(* ===== verification/Futex_Liveness.thy ===== *)
theory Futex_Liveness
  imports Futex_System
begin

text \<open>
  Progress of the futex under every scheduler: while no thread is in its critical section,
  the threads that are already on their way cannot run for long without one of them
  acquiring the futex. The argument is a measure that each of their steps lowers.
\<close>

section \<open>The threads on their way\<close>

lemma outside_simps [simp]:
  "\<not> outside (wait_loop w v)" "outside (woken p) \<longleftrightarrow> outside p"
  by (simp_all add: wait_loop_def) (cases p; simp add: wait_continue_def)

definition active :: "futex_sys \<Rightarrow> tid set" where
  "active s = {t. \<not> outside (pc s t)}"

lemma active_step: "fact std K a s = Some s' \<Longrightarrow> active s' \<subseteq> insert (thread_of a) (active s)"
  using fact_other by (fastforce simp: active_def)

lemma freach_finite_active: "freach std K own s \<Longrightarrow> finite (active s)"
proof (induction rule: freach.induct)
  case init
  have "active (futex_init std own) \<subseteq> set_option own"
    by (auto simp: active_def futex_init_def split: if_splits)
  then show ?case by (rule finite_subset) simp
next
  case (step s a s')
  from finite_subset [OF active_step [OF step.hyps(2)]] step.IH show ?case by simp
qed

section \<open>The measure\<close>

text \<open>
  How many steps a thread can still take before it sleeps or acquires: \<open>v\<close> is \<open>value\<close> and
  \<open>n\<close> bounds the number of active threads. A thread before its system call is sent back to
  the exchange once if \<open>value\<close> is not \<open>LOCKED_WAITERS\<close>. The store in \<open>wake\<close> can cause that
  for every other thread, and the system call in \<open>wake\<close> sends one thread to the exchange.
\<close>

fun weight :: "nat \<Rightarrow> u32 \<Rightarrow> fpc \<Rightarrow> nat" where
  "weight n v (Xchg w) = 2"
| "weight n v (Syscall w) = (if v = LOCKED_WAITERS then 1 else 3)"
| "weight n v Wake_store = 2 * n + 2"
| "weight n v Wake_call = 3"
| "weight n v _ = 0"

definition effort :: "tid set \<Rightarrow> futex_sys \<Rightarrow> nat" where
  "effort A s = (\<Sum>t\<in>A. weight (card A) (atomic (value s)) (pc s t))"

text \<open>One thread's weight drops by more than the others' may rise.\<close>

lemma sum_trade:
  fixes f g d :: "'a \<Rightarrow> nat"
  assumes "finite A" and "t \<in> A" and "\<And>u. u \<in> A - {t} \<Longrightarrow> g u \<le> f u + d u"
    and "g t + sum d (A - {t}) < f t"
  shows "sum g A < sum f A"
proof -
  have "sum g (A - {t}) \<le> sum f (A - {t}) + sum d (A - {t})"
    unfolding sum.distrib [symmetric] using assms(3) by (rule sum_mono)
  with assms(4) show ?thesis
    using sum.remove [OF assms(1,2), of g] sum.remove [OF assms(1,2), of f] by simp
qed

lemma weight_waiters: "weight n LOCKED_WAITERS p \<le> weight n v p"
  by (cases p) simp_all

lemma weight_any: "weight n v' p \<le> Suc (Suc (weight n v p))"
  by (cases p) simp_all

lemma effort_exchange:
  assumes "finite A" and "t \<in> A" and "pc s t = Xchg w" and "atomic (value s) \<noteq> 0"
  shows "effort A (wait_exchange w t s) < effort A s"
  unfolding effort_def
  by (rule sum_trade [where d = "\<lambda>_. 0", OF assms(1,2)])
    (use assms(3,4) in \<open>simp_all add: op_simps wait_loop_def weight_waiters\<close>)

lemma effort_syscall:
  assumes "finite A" and "t \<in> A" and "pc s t = Syscall w" and "futex_manual K"
  shows "effort A (wait_syscall K w t s) < effort A s"
  unfolding effort_def
  by (rule sum_trade [where d = "\<lambda>_. 0", OF assms(1,2)])
    (use assms(3,4) in \<open>simp_all add: op_simps futex_manual_def wait_continue_def\<close>)

lemma effort_store:
  assumes "finite A" and "t \<in> A" and "pc s t = Wake_store"
  shows "effort A (wake_store std t s) < effort A s"
  unfolding effort_def
proof (rule sum_trade [where d = "\<lambda>_. 2", OF assms(1,2)])
  have "card (A - {t}) < card A" using assms(1,2) by (rule card_Diff1_less)
  then show "weight (card A) (atomic (value (wake_store std t s))) (pc (wake_store std t s) t)
      + (\<Sum>_\<in>A - {t}. 2) < weight (card A) (atomic (value s)) (pc s t)"
    using assms(3) by (simp add: op_simps)
qed (simp add: op_simps weight_any)

lemma effort_wake:
  assumes "finite A" and "t \<in> A" and "pc s t = Wake_call" and K: "futex_manual K"
    and q: "queue_inv s"
  shows "effort A (wake_call K t s) < effort A s"
  unfolding effort_def
proof (rule sum_trade [where d = "\<lambda>u. if u \<in> set (wake_picks K 1 (queue s)) then 2 else 0",
      OF assms(1,2)])
  let ?p = "wake_picks K 1 (queue s)"
  have "length ?p \<le> 1" using K q by (simp add: futex_manual_def queue_inv_def)
  then have "card ((A - {t}) \<inter> set ?p) \<le> 1"
    using card_mono [of "set ?p" "(A - {t}) \<inter> set ?p"] card_length [of ?p] by simp
  then have "(\<Sum>u\<in>A - {t}. if u \<in> set ?p then 2 else 0) \<le> (2 :: nat)"
    using assms(1) by (simp add: sum.inter_restrict [symmetric])
  then show "weight (card A) (atomic (value (wake_call K t s))) (pc (wake_call K t s) t)
      + (\<Sum>u\<in>A - {t}. if u \<in> set ?p then 2 else 0) < weight (card A) (atomic (value s)) (pc s t)"
    using assms(3) by (simp add: op_simps)
next
  fix u assume "u \<in> A - {t}"
  moreover have "weight n v (woken p) \<le> weight n v p + 2" for n v p
    by (cases p) (simp_all add: wait_continue_def)
  ultimately show "weight (card A) (atomic (value (wake_call K t s))) (pc (wake_call K t s) u)
      \<le> weight (card A) (atomic (value s)) (pc s u)
        + (if u \<in> set (wake_picks K 1 (queue s)) then 2 else 0)"
    by (simp add: op_simps)
qed

lemma effort_run:
  assumes "finite A" and "active s \<subseteq> A" and "futex_manual K" and "queue_inv s"
    and "fact std K (Run t) s = Some s'" and "pc s' t \<noteq> Locked"
  shows "effort A s' < effort A s"
proof -
  have "t \<in> A" using assms(2,5) by (auto simp: active_def split: fpc.splits)
  show ?thesis
  proof (cases "pc s t")
    case (Xchg w)
    then have s': "s' = wait_exchange w t s" using assms(5) by simp
    have "atomic (value s) \<noteq> 0"
      using assms(6) unfolding s' by (auto simp: wait_exchange_simps wait_loop_def)
    from effort_exchange [OF assms(1) \<open>t \<in> A\<close> Xchg this] show ?thesis by (simp only: s')
  next
    case (Syscall w)
    with assms(5) effort_syscall [OF assms(1) \<open>t \<in> A\<close> Syscall assms(3)] show ?thesis by simp
  next
    case Wake_store
    with assms(5) effort_store [OF assms(1) \<open>t \<in> A\<close> Wake_store] show ?thesis by auto
  next
    case Wake_call
    with assms(5) effort_wake [OF assms(1) \<open>t \<in> A\<close> Wake_call assms(3,4)] show ?thesis by auto
  qed (use assms(5) in simp_all)
qed

text \<open>The whole measure is linear in the number of threads, as only one can be in \<open>Wake_store\<close>.\<close>

lemma effort_bound:
  assumes "finite A" and mi: "mutex_inv s"
  shows "effort A s \<le> 5 * card A"
proof (cases "\<exists>t\<in>A. pc s t = Wake_store")
  case True
  then obtain t where t: "t \<in> A" "pc s t = Wake_store" by blast
  have "weight n v (pc s u) \<le> 3" if "u \<in> A - {t}" for n v u
  proof -
    have "pc s u \<noteq> Wake_store" using mutex_invD(4) [OF mi, of t u] t that by (auto simp: owns_def)
    then show ?thesis by (cases "pc s u") simp_all
  qed
  then have "(\<Sum>u\<in>A - {t}. weight (card A) (atomic (value s)) (pc s u)) \<le> card (A - {t}) * 3"
    by (rule sum_bounded_above [where 'a = nat, simplified])
  then have "effort A s \<le> (2 * card A + 2) + card (A - {t}) * 3"
    unfolding effort_def sum.remove [OF assms(1) t(1)] t(2) weight.simps
    by (rule add_left_mono)
  moreover have "card A = Suc (card (A - {t}))" using card.remove [OF assms(1) t(1)] .
  ultimately show ?thesis by linarith
next
  case False
  then have "weight n v (pc s u) \<le> 3" if "u \<in> A" for n v u
    using that by (cases "pc s u") auto
  then have "effort A s \<le> card A * 3"
    unfolding effort_def by (rule sum_bounded_above [where 'a = nat, simplified])
  then show ?thesis by simp
qed

section \<open>Every schedule\<close>

text \<open>A schedule of threads already on their way that lets none of them acquire: steps of the
  threads, and waits that the kernel ends of itself, with any result.\<close>

fun no_acquisition :: "cxx_std \<Rightarrow> futex_kernel \<Rightarrow> action list \<Rightarrow> futex_sys \<Rightarrow> bool" where
  "no_acquisition std K [] s \<longleftrightarrow> True"
| "no_acquisition std K (a # as) s \<longleftrightarrow>
     (\<exists>t r. a = Run t \<or> a = Wait_returns t r)
     \<and> (case fact std K a s of
          None \<Rightarrow> False
        | Some s' \<Rightarrow> pc s' (thread_of a) \<noteq> Locked \<and> no_acquisition std K as s')"

fun ended_wait :: "action \<Rightarrow> bool" where
  "ended_wait (Wait_returns t r) = True"
| "ended_wait a = False"

definition ended_waits :: "action list \<Rightarrow> nat" where
  "ended_waits as = length (filter ended_wait as)"

lemma no_acquisition_Cons:
  assumes "no_acquisition std K (a # as) s"
  obtains s' where "fact std K a s = Some s'" "pc s' (thread_of a) \<noteq> Locked"
    "no_acquisition std K as s'" "(\<exists>t. a = Run t) \<or> (\<exists>t r. a = Wait_returns t r)"
  using assms by (auto split: option.splits)

lemma return_effect:
  assumes "fact std K (Wait_returns t r) s = Some s'"
  obtains w where "s' = wait_return w t r s" "pc s t = Syscall w \<or> pc s t = Blocked w"
  using assms by (auto split: fpc.splits)

lemma schedule_no_locked:
  assumes "fact std K a s = Some s'" and "pc s' (thread_of a) \<noteq> Locked" and "\<forall>u. pc s u \<noteq> Locked"
  shows "pc s' u \<noteq> Locked"
  using fact_other [OF assms(1), of u] assms(2,3)
  by (cases "u = thread_of a") (auto simp: locked_cases)

lemma schedule_active:
  assumes "fact std K a s = Some s'" and "(\<exists>t. a = Run t) \<or> (\<exists>t r. a = Wait_returns t r)"
  shows "active s' \<subseteq> active s"
  using active_step [OF assms(1)] assms by (auto simp: active_def split: fpc.splits)

lemma schedule_wake_failed:
  assumes "fact std K a s = Some s'" and "(\<exists>t. a = Run t) \<or> (\<exists>t r. a = Wait_returns t r)"
  shows "wake_failed s' = wake_failed s"
  using assms by (auto simp: op_simps split: fpc.splits if_splits)

text \<open>A wait that ends sends its thread back to the exchange, or out of the call.\<close>

lemma effort_return:
  assumes "finite A" and "fact std K (Wait_returns t r) s = Some s'"
  shows "effort A s' \<le> effort A s + 2"
proof -
  obtain w where s': "s' = wait_return w t r s"
    using assms(2) by (rule return_effect)
  have weight: "weight n v (wait_continue w r) \<le> Suc (Suc m)" for n v m
    using wait_continue_cases [of w r] by auto
  have "effort A s' \<le> (\<Sum>u\<in>A. weight (card A) (atomic (value s)) (pc s u) + (if u = t then 2 else 0))"
    unfolding effort_def s'
    by (rule sum_mono) (simp add: op_simps weight)
  also have "\<dots> \<le> effort A s + 2"
    using assms(1) by (simp add: effort_def sum.distrib)
  finally show ?thesis .
qed

lemma no_acquisition_bound:
  assumes "finite A" and "active s \<subseteq> A" and K: "futex_manual K" and "queue_inv s"
    and "no_acquisition std K as s"
  shows "length as \<le> effort A s + 3 * ended_waits as"
  using assms(2,4,5)
proof (induction as arbitrary: s)
  case Nil
  then show ?case by simp
next
  case (Cons a as)
  from Cons.prems(3) obtain s' where step: "fact std K a s = Some s'"
    and s': "pc s' (thread_of a) \<noteq> Locked" "no_acquisition std K as s'"
    and kind: "(\<exists>t. a = Run t) \<or> (\<exists>t r. a = Wait_returns t r)"
    by (rule no_acquisition_Cons)
  have "active s' \<subseteq> A" using schedule_active [OF step kind] Cons.prems(1) by blast
  note IH = Cons.IH [OF this queue_inv_step [OF Cons.prems(2) step] s'(2)]
  from kind show ?case
  proof (elim disjE exE)
    fix t assume a: "a = Run t"
    have "pc s' t \<noteq> Locked" using s'(1) by (simp add: a)
    from effort_run [OF assms(1) Cons.prems(1) K Cons.prems(2) step [unfolded a] this] IH
    show ?case by (simp add: a ended_waits_def)
  next
    fix t r assume a: "a = Wait_returns t r"
    from effort_return [OF assms(1) step [unfolded a]] IH
    show ?case by (simp add: a ended_waits_def)
  qed
qed

lemma no_acquisition_goes_on:
  assumes "mutex_inv s" and "queue_inv s" and "wake_inv s" and K: "futex_manual K"
    and "\<forall>t. pc s t \<noteq> Locked" and "no_acquisition std K as s"
  shows "\<exists>s'. frun std K as s = Some s'
    \<and> ((\<exists>t. waiting (pc s' t)) \<and> \<not> wake_failed s \<longrightarrow> (\<exists>t s''. fact std K (Run t) s' = Some s''))"
  using assms(1,2,3,5,6)
proof (induction as arbitrary: s)
  case Nil
  have "\<exists>t s''. fact std K (Run t) s = Some s''" if "waiting (pc s t0)" "\<not> wake_failed s" for t0
  proof -
    from progress_any [OF Nil(1,2,3) K Nil(4) that(2,1), of std] obtain ts s' t
      where run: "frun std K (map Run ts) s = Some s'" and l: "pc s' t = Locked" by blast
    with Nil(4) obtain u us where "ts = u # us" by (cases ts) auto
    with run have "\<exists>s''. fact std K (Run u) s = Some s''" by (auto split: option.splits)
    then show ?thesis by auto
  qed
  then show ?case by auto
next
  case (Cons a as)
  from Cons.prems(5) obtain s' where step: "fact std K a s = Some s'"
    and s': "pc s' (thread_of a) \<noteq> Locked" "no_acquisition std K as s'"
    and kind: "(\<exists>t. a = Run t) \<or> (\<exists>t r. a = Wait_returns t r)"
    by (rule no_acquisition_Cons)
  have "\<forall>u. pc s' u \<noteq> Locked" using schedule_no_locked [OF step s'(1) Cons.prems(4)] by blast
  from Cons.IH [OF mutex_inv_step [OF Cons.prems(1) step]
      queue_inv_step [OF Cons.prems(2) step] wake_inv_step [OF Cons.prems(3,2) K step] this s'(2)]
    schedule_wake_failed [OF step kind] step
  show ?case by (simp del: fact.simps)
qed

section \<open>Properties\<close>

text \<open>C9. Progress under every scheduler. Let no thread be inside its critical section. However
  the threads already on their way are scheduled, with or without fairness, and whatever the
  kernel answers, as long as none of them acquires the futex they take at most five steps per
  thread, plus three for every wait the kernel ends of itself (a signal, a spurious wake-up, a
  timeout); and as long as one of them wants the futex, and no call of \<open>futex_wake\<close> has
  reported an error, one of them can take a step. So unless waits end again and again, one of
  them acquires.\<close>

theorem futex_every_schedule:
  assumes "freach std K own s" and "futex_manual K"
    and "\<forall>t. pc s t \<noteq> Locked" and "no_acquisition std K as s"
  shows "length as \<le> 5 * card {t. \<not> outside (pc s t)} + 3 * ended_waits as
    \<and> (\<exists>s'. frun std K as s = Some s'
         \<and> ((\<exists>t. waiting (pc s' t)) \<and> \<not> wake_failed s
             \<longrightarrow> (\<exists>t s''. fact std K (Run t) s' = Some s'')))"
proof
  note inv = freach_mutex_inv [OF assms(1)] freach_queue_inv [OF assms(1)]
    freach_wake_inv [OF assms(1,2)]
  have "length as \<le> effort (active s) s + 3 * ended_waits as"
    by (rule no_acquisition_bound [OF freach_finite_active [OF assms(1)] subset_refl assms(2)
          inv(2) assms(4)])
  also have "effort (active s) s \<le> 5 * card (active s)"
    by (rule effort_bound [OF freach_finite_active [OF assms(1)] inv(1)])
  finally show "length as \<le> 5 * card {t. \<not> outside (pc s t)} + 3 * ended_waits as"
    by (simp add: active_def)
  show "\<exists>s'. frun std K as s = Some s'
    \<and> ((\<exists>t. waiting (pc s' t)) \<and> \<not> wake_failed s \<longrightarrow> (\<exists>t s''. fact std K (Run t) s' = Some s''))"
    by (rule no_acquisition_goes_on [OF inv assms(2,3,4)])
qed

theorem futex_every_schedule_witness:
  "let as = [Wait_returns 2 (Failed EINTR), Run 1, Run 1];
       s = the (frun CXX20 fifo_kernel (sleeping_demo @ [Call_unlock 1]) (futex_init CXX20 None))
   in no_acquisition CXX20 fifo_kernel as s
      \<and> length as \<le> 5 * card {t. \<not> outside (pc s t)} + 3 * ended_waits as
      \<and> (\<exists>s'. frun CXX20 fifo_kernel as s = Some s' \<and> waiting (pc s' 2)
           \<and> (\<exists>t s''. fact CXX20 fifo_kernel (Run t) s' = Some s''))"
proof -
  define s where "s = the (frun CXX20 fifo_kernel (sleeping_demo @ [Call_unlock 1])
    (futex_init CXX20 None))"
  define as where "as = [Wait_returns 2 (Failed EINTR), Run 1, Run 1]"
  have run: "frun CXX20 fifo_kernel (sleeping_demo @ [Call_unlock 1]) (futex_init CXX20 None)
      = Some s"
    by (simp add: s_def futex_eval)
  have r: "freach CXX20 fifo_kernel None s" by (rule frun_freach [OF run freach.init])
  have s: "\<forall>t. pc s t \<noteq> Locked" "\<not> wake_failed s" "no_acquisition CXX20 fifo_kernel as s"
    by (simp_all add: s_def as_def futex_eval)
  have "frun CXX20 fifo_kernel as s = Some s' \<Longrightarrow> waiting (pc s' 2)" for s'
    by (auto simp: s_def as_def futex_eval waiting_def)
  with futex_every_schedule [OF r fifo_kernel_manual s(1,3)] s show ?thesis
    unfolding Let_def s_def [symmetric] as_def [symmetric] by blast
qed

end
