(* ===== verification/Test_Futex.thy ===== *)
theory Test_Futex
  imports Futex_System
begin

text \<open>
  The lock-counting workers of \<open>test_futex.cpp\<close> (\<open>test_independent_lock_unlock\<close> and
  \<open>test_dependent_lock_unlock\<close>): an array of futexes, each protecting a plain counter, next
  to an atomic counter that is incremented outside the critical section. Every futex of the
  array is a \<open>Futex\<close> system of its own, and its contract \<open>mutual_exclusion\<close> is all the
  argument uses.
\<close>

section \<open>State\<close>

text \<open>
  A \<open>ThreadTuple\<close> of the code is the entry at one index of the first three fields;
  \<open>Passes\<close> is \<open>uint32_t\<close>. The index \<open>i\<close> of a position is the local variable
  \<open>thread_access\<close>, or \<open>thread_no\<close> for independent workers. \<open>Write_passes i v\<close>: the value
  read from \<open>passes_locked\<close> is \<open>v\<close>, the increment not yet written.
\<close>

datatype wpos =
    Test_stop nat
  | Do_lock nat
  | Locking nat
  | Write_passes nat u32
  | Do_unlock nat
  | Unlocking nat
  | Stopped

record workers =
  mutex :: "nat \<Rightarrow> futex_sys"
  passes_locked :: "nat \<Rightarrow> u32"
  passes_atomic :: "nat \<Rightarrow> u32 cell"
  stop_threads :: "bool cell"
  wpos :: "tid \<Rightarrow> wpos"
  wview :: "tid \<Rightarrow> tview"

text \<open>The main thread constructs the tuples and starts the threads; thread \<open>t\<close> begins with
  index \<open>start t\<close>.\<close>

definition workers_init ::
    "cxx_std \<Rightarrow> nat \<Rightarrow> (tid \<Rightarrow> nat) \<Rightarrow> tid \<Rightarrow> workers" where
  "workers_init std threads_no start main =
     \<lparr>mutex = (\<lambda>_. futex_init std None),
      passes_locked = (\<lambda>_. 0),
      passes_atomic = (\<lambda>_. snd (store std RELAXED main 0 (tview_init, \<lparr>atomic = 0, heads = []\<rparr>))),
      stop_threads = snd (Atomic_init std main False (tview_init, \<lparr>atomic = False, heads = []\<rparr>)),
      wpos = (\<lambda>t. if t < threads_no then Test_stop (start t) else Stopped),
      wview = (\<lambda>_. tview_init)\<rparr>"

section \<open>Steps\<close>

definition on_mutex ::
    "nat \<Rightarrow> tid \<Rightarrow> wpos \<Rightarrow> futex_sys option \<Rightarrow> workers \<Rightarrow> workers option" where
  "on_mutex i t p m s =
     map_option (\<lambda>f. s\<lparr>mutex := (mutex s)(i := f), wpos := (wpos s)(t := p)\<rparr>) m"

text \<open>
  One step of a worker. \<open>lock\<close> has returned when the thread is \<open>Locked\<close>, \<open>unlock\<close> when it is
  \<open>Idle\<close>; a thread whose call has thrown takes no further step, as the exception leaves the
  thread function and ends the process. \<open>nxt\<close> is the update of the index.
\<close>

definition worker_step ::
    "cxx_std \<Rightarrow> futex_kernel \<Rightarrow> (nat \<Rightarrow> nat) \<Rightarrow> tid \<Rightarrow> workers \<Rightarrow> workers option" where
  "worker_step std K nxt t s =
     (case wpos s t of
        Test_stop i \<Rightarrow>
          (case load RELAXED (wview s t, stop_threads s) of
             (stop, tv', c) \<Rightarrow>
               Some (s\<lparr>wview := (wview s)(t := tv'), stop_threads := c,
                       wpos := (wpos s)(t := if stop = False then Do_lock i else Stopped)\<rparr>))
      | Do_lock i \<Rightarrow> on_mutex i t (Locking i) (fact std K (Call_lock t) (mutex s i)) s
      | Locking i \<Rightarrow>
          if pc (mutex s i) t = Locked
          then Some (s\<lparr>wpos := (wpos s)(t := Write_passes i (passes_locked s i))\<rparr>)
          else on_mutex i t (Locking i) (fact std K (Run t) (mutex s i)) s
      | Write_passes i v \<Rightarrow>
          Some (s\<lparr>passes_locked := (passes_locked s)(i := v + 1),
                  wpos := (wpos s)(t := Do_unlock i)\<rparr>)
      | Do_unlock i \<Rightarrow> on_mutex i t (Unlocking i) (fact std K (Call_unlock t) (mutex s i)) s
      | Unlocking i \<Rightarrow>
          if pc (mutex s i) t = Idle
          then (case fetch_add SEQ_CST t 1 (wview s t, passes_atomic s i) of
                  (old, tv', c) \<Rightarrow>
                    Some (s\<lparr>wview := (wview s)(t := tv'),
                            passes_atomic := (passes_atomic s)(i := c),
                            wpos := (wpos s)(t := Test_stop (nxt i))\<rparr>))
          else on_mutex i t (Unlocking i) (fact std K (Run t) (mutex s i)) s
      | Stopped \<Rightarrow> None)"

text \<open>A system call returns to a worker inside \<open>lock\<close>, or fails in \<open>unlock\<close>; the main thread
  tells all to stop.\<close>

datatype test_action =
    Worker tid
  | Kernel tid wait_result
  | Kernel_error tid errno
  | Stop_all tid

fun test_act ::
    "cxx_std \<Rightarrow> futex_kernel \<Rightarrow> (nat \<Rightarrow> nat) \<Rightarrow> test_action \<Rightarrow> workers \<Rightarrow> workers option" where
  "test_act std K nxt (Worker t) s = worker_step std K nxt t s"
| "test_act std K nxt (Kernel t r) s =
     (case wpos s t of
        Locking i \<Rightarrow> on_mutex i t (Locking i) (fact std K (Wait_returns t r) (mutex s i)) s
      | _ \<Rightarrow> None)"
| "test_act std K nxt (Kernel_error t e) s =
     (case wpos s t of
        Unlocking i \<Rightarrow> on_mutex i t (Unlocking i) (fact std K (Wake_fails t e) (mutex s i)) s
      | _ \<Rightarrow> None)"
| "test_act std K nxt (Stop_all main) s =
     Some (s\<lparr>stop_threads := snd (store std RELAXED main True (wview s main, stop_threads s))\<rparr>)"

inductive test_reach ::
    "cxx_std \<Rightarrow> futex_kernel \<Rightarrow> (nat \<Rightarrow> nat) \<Rightarrow> nat \<Rightarrow> (tid \<Rightarrow> nat) \<Rightarrow> tid \<Rightarrow> workers \<Rightarrow> bool"
  for std K nxt n start main where
  init: "test_reach std K nxt n start main (workers_init std n start main)"
| step: "test_reach std K nxt n start main s \<Longrightarrow> test_act std K nxt a s = Some s' \<Longrightarrow>
     test_reach std K nxt n start main s'"

fun test_run ::
    "cxx_std \<Rightarrow> futex_kernel \<Rightarrow> (nat \<Rightarrow> nat) \<Rightarrow> test_action list \<Rightarrow> workers \<Rightarrow> workers option" where
  "test_run std K nxt [] s = Some s"
| "test_run std K nxt (a # as) s =
     (case test_act std K nxt a s of None \<Rightarrow> None | Some s' \<Rightarrow> test_run std K nxt as s')"

section \<open>Each futex on its own\<close>

text \<open>What a step of the test does: one action of one futex, or none, of the thread itself.\<close>

lemma on_mutex_Some:
  "on_mutex i t p m s = Some s' \<longleftrightarrow>
     (\<exists>f. m = Some f \<and> s' = s\<lparr>mutex := (mutex s)(i := f), wpos := (wpos s)(t := p)\<rparr>)"
  by (auto simp: on_mutex_def)

inductive test_step :: "cxx_std \<Rightarrow> futex_kernel \<Rightarrow> (nat \<Rightarrow> nat) \<Rightarrow> workers \<Rightarrow> workers \<Rightarrow> bool"
  for std K nxt s where
  stop: "test_step std K nxt s (s\<lparr>stop_threads := c\<rparr>)"
| test: "wpos s t = Test_stop i \<Longrightarrow> p = Do_lock i \<or> p = Stopped \<Longrightarrow>
    test_step std K nxt s (s\<lparr>wview := v, stop_threads := c, wpos := (wpos s)(t := p)\<rparr>)"
| futex: "wpos s t = p \<Longrightarrow> thread_of a = t \<Longrightarrow> fact std K a (mutex s i) = Some f \<Longrightarrow>
    p = Do_lock i \<and> p' = Locking i \<or> p = Locking i \<and> p' = Locking i
      \<or> p = Do_unlock i \<and> p' = Unlocking i \<or> p = Unlocking i \<and> p' = Unlocking i \<Longrightarrow>
    test_step std K nxt s (s\<lparr>mutex := (mutex s)(i := f), wpos := (wpos s)(t := p')\<rparr>)"
| read: "wpos s t = Locking i \<Longrightarrow> pc (mutex s i) t = Locked \<Longrightarrow>
    test_step std K nxt s (s\<lparr>wpos := (wpos s)(t := Write_passes i (passes_locked s i))\<rparr>)"
| store: "wpos s t = Write_passes i v \<Longrightarrow>
    test_step std K nxt s (s\<lparr>passes_locked := (passes_locked s)(i := v + 1),
      wpos := (wpos s)(t := Do_unlock i)\<rparr>)"
| count: "wpos s t = Unlocking i \<Longrightarrow> atomic c = atomic (passes_atomic s i) + 1 \<Longrightarrow>
    test_step std K nxt s (s\<lparr>wview := v, passes_atomic := (passes_atomic s)(i := c),
      wpos := (wpos s)(t := Test_stop (nxt i))\<rparr>)"

inductive_cases test_stepE: "test_step std K nxt s s'"

lemma fetch_add_atomic:
  "fetch_add mo t v (w, c) = (old, w', c') \<Longrightarrow> atomic c' = atomic c + v"
  using rmw_simps(3) [of mo t "\<lambda>x. x + v" "(w, c)"] by (simp add: fetch_add_def)

lemma test_act_step: "test_act std K nxt a s = Some s' \<Longrightarrow> test_step std K nxt s s'"
proof (cases a)
  case (Worker t)
  assume act: "test_act std K nxt a s = Some s'"
  show ?thesis
  proof (cases "wpos s t")
    case (Unlocking i)
    with act Worker show ?thesis
      by (auto simp: worker_step_def on_mutex_Some split: if_splits prod.splits
          intro!: test_step.futex [where p = "Unlocking i"] test_step.count
          dest: fetch_add_atomic simp del: fact.simps)
  qed (use act Worker in \<open>auto simp: worker_step_def on_mutex_Some simp del: fact.simps
      split: if_splits prod.splits intro!: test_step.intros\<close>)
next
  case (Kernel t r)
  assume "test_act std K nxt a s = Some s'"
  with Kernel show ?thesis
    by (auto simp: on_mutex_Some simp del: fact.simps split: wpos.splits
        intro!: test_step.futex)
next
  case (Kernel_error t e)
  assume "test_act std K nxt a s = Some s'"
  with Kernel_error show ?thesis
    by (auto simp: on_mutex_Some simp del: fact.simps split: wpos.splits
        intro!: test_step.futex)
next
  case (Stop_all main)
  assume "test_act std K nxt a s = Some s'"
  with Stop_all show ?thesis by (auto intro: test_step.stop)
qed

text \<open>The system projected to one index is an execution of one \<open>Futex\<close>.\<close>

lemma test_step_mutex:
  "test_step std K nxt s s' \<Longrightarrow>
   mutex s' j = mutex s j \<or> (\<exists>a. fact std K a (mutex s j) = Some (mutex s' j))"
  by (erule test_stepE) auto

lemma test_reach_mutex: "test_reach std K nxt n start main s \<Longrightarrow> freach std K None (mutex s i)"
proof (induction rule: test_reach.induct)
  case init
  then show ?case by (simp add: workers_init_def freach.init)
next
  case (step s a s')
  from test_step_mutex [OF test_act_step [OF step.hyps(2)], of i] step.IH show ?case
    by (metis freach.step)
qed

section \<open>The invariant of the counters\<close>

text \<open>Inside the critical section; between the two increments.\<close>

fun inside :: "nat \<Rightarrow> wpos \<Rightarrow> bool" where
  "inside i (Write_passes j v) \<longleftrightarrow> j = i"
| "inside i (Do_unlock j) \<longleftrightarrow> j = i"
| "inside i _ \<longleftrightarrow> False"

fun due :: "nat \<Rightarrow> wpos \<Rightarrow> bool" where
  "due i (Do_unlock j) \<longleftrightarrow> j = i"
| "due i (Unlocking j) \<longleftrightarrow> j = i"
| "due i _ \<longleftrightarrow> False"

definition dues :: "nat \<Rightarrow> workers \<Rightarrow> tid set" where
  "dues i s = {t. due i (wpos s t)}"

definition lock_inv :: "workers \<Rightarrow> bool" where
  "lock_inv s \<longleftrightarrow>
     (\<forall>i. mutex_inv (mutex s i))
     \<and> (\<forall>t i. inside i (wpos s t) \<longrightarrow> pc (mutex s i) t = Locked)
     \<and> (\<forall>t i v. wpos s t = Write_passes i v \<longrightarrow> v = passes_locked s i)"

definition running :: "workers \<Rightarrow> tid set" where
  "running s = {t. wpos s t \<noteq> Stopped}"

definition count_inv :: "workers \<Rightarrow> bool" where
  "count_inv s \<longleftrightarrow>
     finite (running s)
     \<and> (\<forall>i. passes_locked s i = atomic (passes_atomic s i) + of_nat (card (dues i s)))"

lemma lock_invD:
  "lock_inv s \<Longrightarrow> mutex_inv (mutex s i)"
  "lock_inv s \<Longrightarrow> inside i (wpos s t) \<Longrightarrow> pc (mutex s i) t = Locked"
  "lock_inv s \<Longrightarrow> wpos s t = Write_passes i v \<Longrightarrow> v = passes_locked s i"
  by (auto simp: lock_inv_def)

text \<open>Two threads inside at the same index are one, by the contract of the futex.\<close>

lemma inside_unique: "lock_inv s \<Longrightarrow> inside i (wpos s t) \<Longrightarrow> inside i (wpos s u) \<Longrightarrow> t = u"
  using futex_lock.exclusive [of "mutex s i" t u] by (auto simp: lock_inv_def)

lemma lock_inv_step:
  assumes inv: "lock_inv s" and "test_step std K nxt s s'"
  shows "lock_inv s'"
  using assms(2)
proof (cases rule: test_step.cases)
  case (futex t p a i f p')
  have steps: "futex_steps std K t (mutex s i) f"
    using futex(3,4) by (auto simp: futex_steps_def)
  have "mutex_inv f" by (rule futex_lock.keeps [OF lock_invD(1) [OF inv] steps])
  moreover have "pc f u = Locked" if "inside i (wpos s u)" "u \<noteq> t" for u
    using futex_lock.undisturbed [OF lock_invD(1) [OF inv] steps that(2)]
      lock_invD(2) [OF inv that(1)] by simp
  moreover have "\<not> inside j p'" "p' \<noteq> Write_passes j v" for j v
    using futex(5) by auto
  ultimately show ?thesis
    using inv unfolding lock_inv_def futex(1) by simp
next
  case (store t i v)
  have t: "inside i (wpos s t)" using store(2) by simp
  have "u = t" if "wpos s u = Write_passes i v'" for u v'
    using inside_unique [OF inv _ t, of u] that by simp
  then have "wpos s u \<noteq> Write_passes i v'" if "u \<noteq> t" for u v'
    using that by blast
  with inv lock_invD(2) [OF inv t] show ?thesis
    unfolding lock_inv_def store(1) by (auto split: if_splits)
qed (use inv in \<open>auto simp: lock_inv_def split: if_splits\<close>)

lemma dues_update:
  "wpos s' = (wpos s)(t := p) \<Longrightarrow>
   dues i s' = (if due i p then insert t (dues i s) else dues i s - {t})"
  by (auto simp: dues_def split: if_splits)

lemma dues_cong: "wpos s' = wpos s \<Longrightarrow> dues i s' = dues i s"
  by (simp add: dues_def)

lemma running_update:
  assumes "count_inv s" and "wpos s' = (wpos s)(t := p)"
  shows "finite (running s')"
proof (rule finite_subset)
  show "running s' \<subseteq> insert t (running s)" using assms(2) by (auto simp: running_def)
  show "finite (insert t (running s))" using assms(1) by (simp add: count_inv_def)
qed

lemma finite_dues: "count_inv s \<Longrightarrow> finite (dues i s)"
  by (rule finite_subset [of _ "running s"]) (auto simp: count_inv_def dues_def running_def)

lemma count_invI:
  assumes "count_inv s" and "wpos s' = (wpos s)(t := p)"
    and "\<And>i. passes_locked s' i = atomic (passes_atomic s' i) + of_nat (card (dues i s'))"
  shows "count_inv s'"
  using running_update [OF assms(1,2)] assms(3) by (simp add: count_inv_def)

lemma count_invD:
  "count_inv s \<Longrightarrow> passes_locked s i = atomic (passes_atomic s i) + of_nat (card (dues i s))"
  by (simp add: count_inv_def)

text \<open>A step that leaves the counters and the set of threads between the increments alone.\<close>

lemma count_inv_same:
  assumes "count_inv s" and "passes_locked s' = passes_locked s"
    and "passes_atomic s' = passes_atomic s" and "wpos s' = (wpos s)(t := p)"
    and "\<And>i. due i p = due i (wpos s t)"
  shows "count_inv s'"
proof (rule count_invI [OF assms(1,4)])
  fix i
  have "dues i s' = dues i s"
    using dues_update [OF assms(4), of i] assms(5) [of i] by (auto simp: dues_def)
  then show "passes_locked s' i = atomic (passes_atomic s' i) + of_nat (card (dues i s'))"
    using count_invD [OF assms(1), of i] assms(2,3) by simp
qed

lemma count_inv_step:
  assumes inv: "count_inv s" and li: "lock_inv s" and "test_step std K nxt s s'"
  shows "count_inv s'"
  using assms(3)
proof (cases rule: test_step.cases)
  case (stop c)
  with inv show ?thesis by (simp add: count_inv_def dues_def running_def)
next
  case (store t i v)
  have v: "v = passes_locked s i" by (rule lock_invD(3) [OF li store(2)])
  have upd: "wpos s' = (wpos s)(t := Do_unlock i)" using store(1) by simp
  have t: "t \<notin> dues j s" for j using store(2) by (simp add: dues_def)
  show ?thesis
  proof (rule count_invI [OF inv upd])
    fix j
    show "passes_locked s' j = atomic (passes_atomic s' j) + of_nat (card (dues j s'))"
      using count_invD [OF inv, of j] dues_update [OF upd, of j] t [of j]
        finite_dues [OF inv, of j] store(1) v
      by (cases "j = i") simp_all
  qed
next
  case (count t i c w)
  have upd: "wpos s' = (wpos s)(t := Test_stop (nxt i))" using count(1) by simp
  have t: "t \<in> dues j s \<longleftrightarrow> j = i" for j using count(2) by (auto simp: dues_def)
  show ?thesis
  proof (rule count_invI [OF inv upd])
    fix j
    have "card (dues j s) = card (dues j s - {t}) + (if j = i then 1 else 0)"
      using t [of j] finite_dues [OF inv, of j] card.remove [of "dues j s" t] by auto
    then show "passes_locked s' j = atomic (passes_atomic s' j) + of_nat (card (dues j s'))"
      using count_invD [OF inv, of j] dues_update [OF upd, of j] count(1,3) by simp
  qed
next
  case (test t i p v c)
  then show ?thesis by (intro count_inv_same [OF inv, of s' t p]) auto
next
  case (futex t p a i f p')
  then show ?thesis by (intro count_inv_same [OF inv, of s' t p']) auto
next
  case (read t i)
  then show ?thesis
    by (intro count_inv_same [OF inv, of s' t "Write_passes i (passes_locked s i)"]) auto
qed

lemma test_inv_init: "lock_inv (workers_init std n start main) \<and> count_inv (workers_init std n start main)"
proof -
  have "finite (running (workers_init std n start main))"
    by (rule finite_subset [of _ "{..<n}"]) (auto simp: running_def workers_init_def)
  moreover have "dues i (workers_init std n start main) = {}" for i
    by (auto simp: dues_def workers_init_def)
  ultimately show ?thesis
    by (auto simp: lock_inv_def count_inv_def workers_init_def mutex_inv_init split: if_splits)
qed

lemma test_reach_inv:
  "test_reach std K nxt n start main s \<Longrightarrow> lock_inv s \<and> count_inv s"
proof (induction rule: test_reach.induct)
  case init
  show ?case by (rule test_inv_init)
next
  case (step s a s')
  from test_act_step [OF step.hyps(2)] step.IH show ?case
    by (auto intro: lock_inv_step count_inv_step)
qed

section \<open>The check of the test\<close>

text \<open>
  \<open>run_for\<close> after it has joined the threads: the entries in order, the exception of a
  mismatch as \<open>None\<close>, \<open>passes\<close> a \<open>uint64\_t\<close> to which the 32-bit counters are added; then the
  duration of a pass in picoseconds, with the runtime in milliseconds, as unsigned 64-bit
  arithmetic. An integer division by zero is undefined.
\<close>

fun compare_counters :: "tid \<Rightarrow> workers \<Rightarrow> nat list \<Rightarrow> u64 \<Rightarrow> u64 option" where
  "compare_counters main s [] passes = Some passes"
| "compare_counters main s (i # is) passes =
     (if passes_locked s i \<noteq> fst (load RELAXED (wview s main, passes_atomic s i)) then None
      else compare_counters main s is (passes + ucast (passes_locked s i)))"

datatype run_result =
    Counters_differ
  | Divided_by_zero
  | Single_duration u64

definition run_for_check :: "tid \<Rightarrow> u64 \<Rightarrow> nat \<Rightarrow> workers \<Rightarrow> run_result" where
  "run_for_check main runtime threads_no s =
     (case compare_counters main s [0..<threads_no] 0 of
        None \<Rightarrow> Counters_differ
      | Some passes \<Rightarrow>
          if passes = 0 then Divided_by_zero
          else Single_duration (runtime * 10 ^ 9 * of_nat threads_no div passes))"

lemma compare_counters_equal:
  "(\<And>i. i \<in> set is \<Longrightarrow> passes_locked s i = atomic (passes_atomic s i)) \<Longrightarrow>
   compare_counters main s is p = Some (p + (\<Sum>i\<leftarrow>is. ucast (passes_locked s i)))"
  by (induction "is" arbitrary: p) (simp_all add: load_def algebra_simps)

lemma dues_stopped: "\<forall>t. wpos s t = Stopped \<Longrightarrow> dues i s = {}"
  by (simp add: dues_def)

text \<open>Two workers on the first of two futexes: the second one finds it locked, sleeps and is
  woken by the first; then both stop.\<close>

definition contention_demo :: "test_action list" where
  "contention_demo =
     map Worker [0, 1, 0, 0, 1, 1, 1, 0, 0, 0, 0, 0] @ [Stop_all 9]
     @ map Worker [0, 1, 1, 1, 1, 1, 1, 1, 1]"

lemmas test_eval =
  futex_eval worker_step_def on_mutex_def workers_init_def contention_demo_def

lemma contention_run:
  "\<exists>s. test_run CXX20 fifo_kernel (\<lambda>i. (i + 1) mod 2) contention_demo
        (workers_init CXX20 2 (\<lambda>_. 0) 9) = Some s
     \<and> (\<forall>t. wpos s t = Stopped) \<and> passes_locked s 0 = 2 \<and> passes_locked s 1 = 0"
  by (simp add: test_eval)

lemma stopped_at_once_run:
  "\<exists>s. test_run CXX20 fifo_kernel (\<lambda>i. (i + 1) mod 2) [Stop_all 9, Worker 0, Worker 1]
        (workers_init CXX20 2 (\<lambda>_. 0) 9) = Some s
     \<and> (\<forall>t. wpos s t = Stopped) \<and> passes_locked s 0 = 0 \<and> passes_locked s 1 = 0"
  by (simp add: test_eval)

lemma test_run_reach:
  "test_run std K nxt as s = Some s' \<Longrightarrow> test_reach std K nxt n start main s \<Longrightarrow>
   test_reach std K nxt n start main s'"
  by (induction "as" arbitrary: s) (auto split: option.splits intro: test_reach.step)

section \<open>Properties\<close>

text \<open>C19. The lock test never reports an error of the mutex. Any number of workers lock the futexes of an array in any
  order, each incrementing the plain counter of the entry inside its critical section and
  the atomic counter after it. Under every interleaving, kernel and language standard the
  two counters of an entry differ by the number of threads between the two increments; once
  all threads have been joined, \<open>run_for\<close> finds them equal at every entry and does not throw.
  It returns the runtime divided by the sum of the passes, unless that sum is zero: then it
  divides by zero, as when the main thread has told the workers to stop before any of them has
  made a pass, of which the witness has a run.\<close>

theorem locked_and_atomic_counters_agree:
  assumes "test_reach std K nxt n start main s"
  shows "passes_locked s i = atomic (passes_atomic s i) + of_nat (card {t. due i (wpos s t)})
    \<and> ((\<forall>t. wpos s t = Stopped) \<longrightarrow>
         run_for_check main runtime m s =
           (let passes = \<Sum>i\<leftarrow>[0..<m]. ucast (passes_locked s i)
            in if passes = 0 then Divided_by_zero
               else Single_duration (runtime * 10 ^ 9 * of_nat m div passes)))"
proof -
  have inv: "passes_locked s j = atomic (passes_atomic s j) + of_nat (card (dues j s))" for j
    using test_reach_inv [OF assms] count_invD by blast
  moreover have "compare_counters main s [0..<m] 0
      = Some (\<Sum>i\<leftarrow>[0..<m]. ucast (passes_locked s i))"
    if "\<forall>t. wpos s t = Stopped"
    using inv dues_stopped [OF that] compare_counters_equal by simp
  ultimately show ?thesis by (simp add: dues_def run_for_check_def Let_def)
qed

theorem locked_and_atomic_counters_agree_witness:
  "\<exists>s s'. test_reach CXX20 fifo_kernel (\<lambda>i. (i + 1) mod 2) 2 (\<lambda>_. 0) 9 s
     \<and> (\<forall>t. wpos s t = Stopped)
     \<and> run_for_check 9 1000 2 s = Single_duration 1000000000000
     \<and> test_reach CXX20 fifo_kernel (\<lambda>i. (i + 1) mod 2) 2 (\<lambda>_. 0) 9 s'
     \<and> (\<forall>t. wpos s' t = Stopped) \<and> run_for_check 9 1000 2 s' = Divided_by_zero"
proof -
  obtain s where run: "test_run CXX20 fifo_kernel (\<lambda>i. (i + 1) mod 2) contention_demo
        (workers_init CXX20 2 (\<lambda>_. 0) 9) = Some s"
    and s: "\<forall>t. wpos s t = Stopped" "passes_locked s 0 = 2" "passes_locked s 1 = 0"
    using contention_run by blast
  have r: "test_reach CXX20 fifo_kernel (\<lambda>i. (i + 1) mod 2) 2 (\<lambda>_. 0) 9 s"
    by (rule test_run_reach [OF run test_reach.init])
  obtain s' where run': "test_run CXX20 fifo_kernel (\<lambda>i. (i + 1) mod 2)
        [Stop_all 9, Worker 0, Worker 1] (workers_init CXX20 2 (\<lambda>_. 0) 9) = Some s'"
    and s': "\<forall>t. wpos s' t = Stopped" "passes_locked s' 0 = 0" "passes_locked s' 1 = 0"
    using stopped_at_once_run by blast
  have r': "test_reach CXX20 fifo_kernel (\<lambda>i. (i + 1) mod 2) 2 (\<lambda>_. 0) 9 s'"
    by (rule test_run_reach [OF run' test_reach.init])
  have two: "[0..<2] = [0, 1::nat]" by (simp add: upt_rec)
  have "run_for_check 9 1000 2 s = Single_duration 1000000000000"
    using locked_and_atomic_counters_agree [OF r, of 0 1000 2] s two by simp
  moreover have "run_for_check 9 1000 2 s' = Divided_by_zero"
    using locked_and_atomic_counters_agree [OF r', of 0 1000 2] s' two by simp
  ultimately show ?thesis using r r' s(1) s'(1) by blast
qed

end
