(* ===== verification/Test_Stack.thy ===== *)
theory Test_Stack
  imports Stack_Pool Atomic
begin

text \<open>
  The concurrent test of \<open>test_stack.cpp\<close>, the whole program: the main thread fills the
  stacks, one worker per stack pops blocks from its own stack and pushes them to the stacks
  in turn, and at the end the main thread empties all stacks and compares the numbers. It is
  a client that keeps the discipline of \<open>Stack_Pool\<close>, and its check cannot fail.
\<close>

section \<open>State\<close>

text \<open>
  \<open>Outer\<close> and \<open>Inner\<close>: at the tests of the two loops of \<open>worker\<close>; \<open>Popping\<close>, \<open>Pushing\<close>: inside
  a call; \<open>Got b\<close>: \<open>pop\<close> has returned \<open>b\<close>; \<open>Reporting\<close>: after the loops. The main thread is
  thread \<open>n\<close>: \<open>Fill k i\<close>, \<open>Filling k i\<close>: before and inside the push of block \<open>i\<close> to stack \<open>k\<close>;
  \<open>Count k\<close>, \<open>Counting k\<close>: before and inside a pop from stack \<open>k\<close>.
\<close>

datatype 'v spos =
    Not_started | Outer | Inner | Popping | Got 'v | Pushing | Reporting | Finished

datatype mpos =
    Fill nat nat | Filling nat nat | Running | Joining | Count nat | Counting nat | Done

record 'v shuffle =
  stacks :: "'v pool"
  spos :: "tid \<Rightarrow> 'v spos"
  stack_operations :: "tid \<Rightarrow> u64"
  push_thread :: "tid \<Rightarrow> u32"
  end_test :: "bool cell"
  overall_stack_operations :: "u64 cell"
  sview :: "tid \<Rightarrow> tview"
  mpos :: mpos
  expected :: u64
  counted :: u64
  performance :: u64

text \<open>\<open>malloc k i\<close> is the address of the \<open>i\<close>-th block pushed to stack \<open>k\<close>; the main thread has
  them all.\<close>

definition blocks :: "nat \<Rightarrow> nat \<Rightarrow> (nat \<Rightarrow> nat \<Rightarrow> 'v) \<Rightarrow> 'v set" where
  "blocks n elements malloc = {malloc k i |k i. k < n \<and> i < elements}"

definition main_owns :: "nat \<Rightarrow> 'v set \<Rightarrow> 'v \<Rightarrow> tid option" where
  "main_owns n bs b = (if b \<in> bs then Some n else None)"

definition shuffle_init ::
    "PlatformABASolution \<Rightarrow> cxx_std \<Rightarrow> nat \<Rightarrow> nat \<Rightarrow> (nat \<Rightarrow> nat \<Rightarrow> 'w::len word) \<Rightarrow> 'w word links \<Rightarrow>
     'w word shuffle" where
  "shuffle_init sol std n elements malloc links =
     \<lparr>stacks = (\<lambda>_. ssys_init sol links (main_owns n (blocks n elements malloc))),
      spos = (\<lambda>_. Not_started), stack_operations = (\<lambda>_. 0), push_thread = (\<lambda>_. 0),
      end_test = snd (Atomic_init std n False (tview_init, \<lparr>atomic = False, heads = []\<rparr>)),
      overall_stack_operations = snd (Atomic_init std n 0 (tview_init, \<lparr>atomic = 0, heads = []\<rparr>)),
      sview = (\<lambda>_. tview_init), mpos = Fill 0 0, expected = 0, counted = 0,
      performance = 0\<rparr>"

section \<open>Steps\<close>

text \<open>An action on stack \<open>i\<close> of the pool.\<close>

definition on_stack ::
    "PlatformABASolution \<Rightarrow> nat \<Rightarrow> nat \<Rightarrow> 'w::len word action \<Rightarrow> 'w word shuffle \<Rightarrow> 'w word shuffle option"
    where
  "on_stack sol n i a s =
     (if allowed (Suc n) a (stacks s)
      then map_option (\<lambda>s'. s\<lparr>stacks := pool_update (Suc n) i s' (stacks s)\<rparr>) (act sol a (stacks s i))
      else None)"

definition goto :: "tid \<Rightarrow> 'v spos \<Rightarrow> 'v shuffle \<Rightarrow> 'v shuffle" where
  "goto t p s = s\<lparr>spos := (spos s)(t := p)\<rparr>"

text \<open>\<open>stack_operations += k\<close>, a local variable of the worker.\<close>

definition add_operations :: "tid \<Rightarrow> u64 \<Rightarrow> 'v shuffle \<Rightarrow> 'v shuffle" where
  "add_operations t k s =
     s\<lparr>stack_operations := (stack_operations s)(t := stack_operations s t + k)\<rparr>"

definition load_end_test :: "tid \<Rightarrow> 'v shuffle \<Rightarrow> bool \<times> 'v shuffle" where
  "load_end_test t s =
     (case load RELAXED (sview s t, end_test s) of
        (stop, tv', c) \<Rightarrow> (stop, s\<lparr>sview := (sview s)(t := tv'), end_test := c\<rparr>))"

text \<open>The result of the operation of thread \<open>t\<close> on stack \<open>i\<close>, when it has finished.\<close>

definition result_at :: "nat \<Rightarrow> tid \<Rightarrow> 'w::len word shuffle \<Rightarrow> 'w word stack_result option" where
  "result_at i t s =
     (case thr (stacks s i) t of Some (q, M_done ok r) \<Rightarrow> Some (stack_return q r) | _ \<Rightarrow> None)"

definition shuffle_worker ::
    "PlatformABASolution \<Rightarrow> nat \<Rightarrow> tid \<Rightarrow> env \<Rightarrow> 'w::len word shuffle \<Rightarrow> 'w word shuffle option" where
  "shuffle_worker sol n t e s =
     (case spos s t of
        Outer \<Rightarrow>
          (case load_end_test t s of
             (stop, s') \<Rightarrow>
               Some (if stop then goto t Reporting (add_operations t (- 1) s') else goto t Inner s'))
      | Inner \<Rightarrow>
          (case load_end_test t s of
             (stop, s') \<Rightarrow>
               if stop then Some (goto t Outer (add_operations t 1 s'))
               else map_option (goto t Popping) (on_stack sol n t (Begin_pop t) s'))
      | Popping \<Rightarrow>
          (case result_at t t s of
             None \<Rightarrow> on_stack sol n t (Step t e) s
           | Some (Popped b) \<Rightarrow>
               map_option (\<lambda>s'. goto t (Got b) (add_operations t 2 s')) (on_stack sol n t (End t) s)
           | Some _ \<Rightarrow>
               map_option (\<lambda>s'. goto t Outer (add_operations t 1 s')) (on_stack sol n t (End t) s))
      | Got block \<Rightarrow>
          map_option (goto t Pushing) (on_stack sol n (unat (push_thread s t)) (Begin_push t block) s)
      | Pushing \<Rightarrow>
          let i = unat (push_thread s t) in
          (case result_at i t s of
             None \<Rightarrow> on_stack sol n i (Step t e) s
           | Some _ \<Rightarrow>
               map_option (\<lambda>s'. goto t Inner (s'\<lparr>push_thread :=
                   (push_thread s')(t := (push_thread s' t + 1) mod of_nat n)\<rparr>))
                 (on_stack sol n i (End t) s))
      | Reporting \<Rightarrow>
          (case add_fetch RELAXED t (stack_operations s t) (sview s t, overall_stack_operations s) of
             (_, tv', c) \<Rightarrow>
               Some (goto t Finished (s\<lparr>sview := (sview s)(t := tv'), overall_stack_operations := c\<rparr>)))
      | _ \<Rightarrow> None)"

definition shuffle_main ::
    "PlatformABASolution \<Rightarrow> cxx_std \<Rightarrow> nat \<Rightarrow> nat \<Rightarrow> (nat \<Rightarrow> nat \<Rightarrow> 'w::len word) \<Rightarrow> env \<Rightarrow>
     'w word shuffle \<Rightarrow> 'w word shuffle option" where
  "shuffle_main sol std n elements malloc e s =
     (case mpos s of
        Fill k i \<Rightarrow>
          if k \<ge> n then Some (s\<lparr>mpos := Running, spos := (\<lambda>t. if t < n then Outer else spos s t)\<rparr>)
          else if i \<ge> elements then Some (s\<lparr>mpos := Fill (Suc k) 0\<rparr>)
          else map_option (\<lambda>s'. s'\<lparr>mpos := Filling k i\<rparr>)
                 (on_stack sol n k (Begin_push n (malloc k i)) s)
      | Filling k i \<Rightarrow>
          (case result_at k n s of
             None \<Rightarrow> on_stack sol n k (Step n e) s
           | Some _ \<Rightarrow>
               map_option (\<lambda>s'. s'\<lparr>mpos := Fill k (Suc i), expected := expected s' + 1\<rparr>)
                 (on_stack sol n k (End n) s))
      | Running \<Rightarrow>
          Some (s\<lparr>mpos := Joining,
                  end_test := snd (store std RELAXED n True (sview s n, end_test s))\<rparr>)
      | Joining \<Rightarrow>
          if \<forall>t \<in> {..<n}. spos s t = Finished then Some (s\<lparr>mpos := Count 0\<rparr>) else None
      | Count k \<Rightarrow>
          if k \<ge> n
          then (case load RELAXED (sview s n, overall_stack_operations s) of
                  (v, tv', c) \<Rightarrow>
                    Some (s\<lparr>mpos := Done, performance := v, sview := (sview s)(n := tv'),
                            overall_stack_operations := c\<rparr>))
          else map_option (\<lambda>s'. s'\<lparr>mpos := Counting k\<rparr>) (on_stack sol n k (Begin_pop n) s)
      | Counting k \<Rightarrow>
          (case result_at k n s of
             None \<Rightarrow> on_stack sol n k (Step n e) s
           | Some (Popped b) \<Rightarrow>
               map_option (\<lambda>s'. s'\<lparr>mpos := Count k, counted := counted s' + 1\<rparr>)
                 (on_stack sol n k (End n) s)
           | Some _ \<Rightarrow>
               map_option (\<lambda>s'. s'\<lparr>mpos := Count (Suc k)\<rparr>) (on_stack sol n k (End n) s))
      | Done \<Rightarrow> None)"

text \<open>Besides, a monitor can get lost and a link can be read in a race.\<close>

datatype 'v shuffle_action = Worker tid env | Main env | Lost_monitor nat tid | Racy_read nat tid 'v

fun shuffle_act ::
    "PlatformABASolution \<Rightarrow> cxx_std \<Rightarrow> nat \<Rightarrow> nat \<Rightarrow> (nat \<Rightarrow> nat \<Rightarrow> 'w::len word) \<Rightarrow>
     'w word shuffle_action \<Rightarrow> 'w word shuffle \<Rightarrow> 'w word shuffle option" where
  "shuffle_act sol std n elements malloc (Worker t e) s =
     (if t < n then shuffle_worker sol n t e s else None)"
| "shuffle_act sol std n elements malloc (Main e) s = shuffle_main sol std n elements malloc e s"
| "shuffle_act sol std n elements malloc (Lost_monitor i t) s = on_stack sol n i (Lose_monitor t) s"
| "shuffle_act sol std n elements malloc (Racy_read i t v) s = on_stack sol n i (Stale_read t v) s"

inductive shuffle_reach ::
    "PlatformABASolution \<Rightarrow> cxx_std \<Rightarrow> nat \<Rightarrow> nat \<Rightarrow> (nat \<Rightarrow> nat \<Rightarrow> 'w::len word) \<Rightarrow> 'w word links \<Rightarrow>
     'w word shuffle \<Rightarrow> bool"
  for sol std n elements malloc links where
  init: "shuffle_reach sol std n elements malloc links
     (shuffle_init sol std n elements malloc links)"
| step: "shuffle_reach sol std n elements malloc links s \<Longrightarrow>
     (\<And>j. sol = DWCAS \<Longrightarrow> fresh (stacks s j)) \<Longrightarrow> shuffle_act sol std n elements malloc a s = Some s' \<Longrightarrow>
     shuffle_reach sol std n elements malloc links s'"

fun shuffle_run ::
    "PlatformABASolution \<Rightarrow> cxx_std \<Rightarrow> nat \<Rightarrow> nat \<Rightarrow> (nat \<Rightarrow> nat \<Rightarrow> 'w::len word) \<Rightarrow>
     'w word shuffle_action list \<Rightarrow> 'w word shuffle \<Rightarrow> 'w word shuffle option" where
  "shuffle_run sol std n elements malloc [] s = Some s"
| "shuffle_run sol std n elements malloc (a # as) s =
     (case shuffle_act sol std n elements malloc a s of
        None \<Rightarrow> None | Some s' \<Rightarrow> shuffle_run sol std n elements malloc as s')"

section \<open>The invariant\<close>

text \<open>The blocks the main thread has not pushed yet.\<close>

definition later :: "nat \<Rightarrow> nat \<Rightarrow> nat \<Rightarrow> nat \<Rightarrow> (nat \<times> nat) set" where
  "later n elements k i =
     {(k', i') \<in> {..<n} \<times> {..<elements}. k < k' \<or> k' = k \<and> i \<le> i'}"

definition rest :: "nat \<Rightarrow> nat \<Rightarrow> (nat \<Rightarrow> nat \<Rightarrow> 'v) \<Rightarrow> nat \<Rightarrow> nat \<Rightarrow> 'v set" where
  "rest n elements malloc k i = (\<lambda>(k', i'). malloc k' i') ` later n elements k i"

text \<open>What malloc(3) promises of the blocks in use: they are distinct, and not null.\<close>

definition distinct_blocks :: "nat \<Rightarrow> nat \<Rightarrow> (nat \<Rightarrow> nat \<Rightarrow> 'w::len word) \<Rightarrow> bool" where
  "distinct_blocks n elements malloc \<longleftrightarrow>
     inj_on (\<lambda>(k, i). malloc k i) ({..<n} \<times> {..<elements}) \<and> 0 \<notin> blocks n elements malloc"

lemma rest_start: "rest n elements malloc 0 0 = blocks n elements malloc"
  by (force simp: rest_def later_def blocks_def)

lemma rest_end: "n \<le> k \<Longrightarrow> rest n elements malloc k i = {}"
  by (auto simp: rest_def later_def)

lemma rest_next: "elements \<le> i \<Longrightarrow> rest n elements malloc k i = rest n elements malloc (Suc k) 0"
proof -
  assume "elements \<le> i"
  then have "later n elements k i = later n elements (Suc k) 0" by (auto simp: later_def)
  then show ?thesis by (simp add: rest_def)
qed

lemma rest_Suc:
  assumes "distinct_blocks n elements malloc" and "k < n" "i < elements"
  shows "rest n elements malloc k i - {malloc k i} = rest n elements malloc k (Suc i)"
proof -
  let ?f = "\<lambda>(k', i'). malloc k' i'"
  have "rest n elements malloc k i - {malloc k i} = ?f ` (later n elements k i - {(k, i)})"
    unfolding rest_def
    using inj_on_image_set_diff [of ?f "{..<n} \<times> {..<elements}" "later n elements k i" "{(k, i)}"]
      assms by (auto simp: distinct_blocks_def later_def)
  also have "later n elements k i - {(k, i)} = later n elements k (Suc i)"
    by (auto simp: later_def)
  finally show ?thesis by (simp add: rest_def)
qed

lemma card_blocks: "distinct_blocks n elements malloc \<Longrightarrow> card (blocks n elements malloc) = n * elements"
proof -
  assume "distinct_blocks n elements malloc"
  then have "inj_on (\<lambda>(k, i). malloc k i) ({..<n} \<times> {..<elements})" by (simp add: distinct_blocks_def)
  moreover have "blocks n elements malloc = (\<lambda>(k, i). malloc k i) ` ({..<n} \<times> {..<elements})"
    by (auto simp: blocks_def)
  ultimately show ?thesis by (simp add: card_image)
qed

text \<open>A worker holds the block between its two calls, and what an operation has in hand.\<close>

definition worker_ok :: "nat \<Rightarrow> 'w::len word shuffle \<Rightarrow> tid \<Rightarrow> bool" where
  "worker_ok n s t \<longleftrightarrow>
     unat (push_thread s t) < n
     \<and> (case spos s t of
          Popping \<Rightarrow>
            (\<exists>pc. thr (stacks s t) t = Some (Op_pop, pc))
            \<and> held (stacks s) t = in_hand (thr (stacks s t) t)
        | Pushing \<Rightarrow>
            (\<exists>b pc. thr (stacks s (unat (push_thread s t))) t = Some (Op_push b, pc))
            \<and> held (stacks s) t = in_hand (thr (stacks s (unat (push_thread s t))) t)
        | Got b \<Rightarrow> away (Suc n) t (stacks s) \<and> held (stacks s) t = {b}
        | _ \<Rightarrow> away (Suc n) t (stacks s) \<and> held (stacks s) t = {})"

text \<open>While the main thread is alone, what a pop has seen is what there is.\<close>

fun current :: "('w::len word, 'w word option) mpc \<Rightarrow> 'w word ssys \<Rightarrow> bool" where
  "current (M_half0 d) s \<longleftrightarrow> d = word0 s"
| "current (M_call d k) s \<longleftrightarrow> d = word0 s"
| "current (M_cas d k v r) s \<longleftrightarrow> d = word0 s"
| "current (M_done ok r) s \<longleftrightarrow> (r = Some 0 \<longrightarrow> word0 s = 0)"
| "current pc s \<longleftrightarrow> True"

definition main_ok ::
    "nat \<Rightarrow> nat \<Rightarrow> (nat \<Rightarrow> nat \<Rightarrow> 'w::len word) \<Rightarrow> 'w word shuffle \<Rightarrow> bool" where
  "main_ok n elements malloc s \<longleftrightarrow>
     (case mpos s of
        Fill k i \<Rightarrow>
          away (Suc n) n (stacks s) \<and> (\<forall>t < n. spos s t = Not_started) \<and> k \<le> n
          \<and> i \<le> elements \<and> (k = n \<longrightarrow> i = 0)
          \<and> held (stacks s) n = rest n elements malloc k i
          \<and> expected s = of_nat (k * elements + i) \<and> counted s = 0
      | Filling k i \<Rightarrow>
          (\<exists>pc. thr (stacks s k) n = Some (Op_push (malloc k i), pc))
          \<and> (\<forall>t < n. spos s t = Not_started) \<and> k < n \<and> i < elements
          \<and> held (stacks s) n - in_hand (thr (stacks s k) n) = rest n elements malloc k (Suc i)
          \<and> expected s = of_nat (k * elements + i) \<and> counted s = 0
      | Count k \<Rightarrow>
          away (Suc n) n (stacks s) \<and> (\<forall>t < n. spos s t = Finished) \<and> k \<le> n
          \<and> (\<forall>j < k. word0 (stacks s j) = 0)
          \<and> counted s = of_nat (card (held (stacks s) n)) \<and> expected s = of_nat (n * elements)
      | Counting k \<Rightarrow>
          (\<exists>pc. thr (stacks s k) n = Some (Op_pop, pc) \<and> current pc (stacks s k))
          \<and> (\<forall>t < n. spos s t = Finished) \<and> k < n \<and> (\<forall>j < k. word0 (stacks s j) = 0)
          \<and> counted s = of_nat (card (held (stacks s) n - in_hand (thr (stacks s k) n)))
          \<and> expected s = of_nat (n * elements)
      | Done \<Rightarrow>
          away (Suc n) n (stacks s) \<and> (\<forall>t < n. spos s t = Finished)
          \<and> (\<forall>j < n. word0 (stacks s j) = 0)
          \<and> counted s = of_nat (card (held (stacks s) n)) \<and> expected s = of_nat (n * elements)
      | _ \<Rightarrow>
          away (Suc n) n (stacks s) \<and> held (stacks s) n = {} \<and> expected s = of_nat (n * elements)
          \<and> counted s = 0)"

definition shuffle_inv ::
    "PlatformABASolution \<Rightarrow> nat \<Rightarrow> nat \<Rightarrow> (nat \<Rightarrow> nat \<Rightarrow> 'w::len word) \<Rightarrow> 'w word links \<Rightarrow>
     'w word shuffle \<Rightarrow> bool" where
  "shuffle_inv sol n elements malloc links s \<longleftrightarrow>
     pool_reach sol (Suc n) links (main_owns n (blocks n elements malloc)) (stacks s)
     \<and> (\<forall>t < n. worker_ok n s t) \<and> main_ok n elements malloc s
     \<and> (\<forall>j. n \<le> j \<longrightarrow> word0 (stacks s j) = 0)"

section \<open>What an action leaves alone\<close>

lemma pool_facts:
  assumes "pool_reach sol (Suc n) links (main_owns n (blocks n elements malloc)) P"
    and "distinct_blocks n elements malloc"
  shows "pool_ok (Suc n) (main_owns n (blocks n elements malloc)) P"
    and "\<exists>xs. stack_inv sol (main_owns n (blocks n elements malloc)) (P i) xs"
proof -
  have own: "main_owns n (blocks n elements malloc) 0 = None"
    using assms(2) by (simp add: distinct_blocks_def main_owns_def)
  have r: "pool_ok (Suc n) (main_owns n (blocks n elements malloc)) P
      \<and> (\<forall>j. reach sol links (main_owns n (blocks n elements malloc)) (P j))"
    by (rule pool_reach_stacks [OF assms(1) own]) (simp add: main_owns_def split: if_splits)
  then show "pool_ok (Suc n) (main_owns n (blocks n elements malloc)) P" by simp
  from r have "reach sol links (main_owns n (blocks n elements malloc)) (P i)" by simp
  from reach_stack_inv [OF this own]
  show "\<exists>xs. stack_inv sol (main_owns n (blocks n elements malloc)) (P i) xs" .
qed

text \<open>What the invariant says of a thread depends only on the operation it is in, on what it has
  in hand and on what it holds.\<close>

definition agree :: "tid \<Rightarrow> 'w::len word pool \<Rightarrow> 'w word pool \<Rightarrow> bool" where
  "agree u P P' \<longleftrightarrow>
     (\<forall>j. map_option fst (thr (P' j) u) = map_option fst (thr (P j) u)
        \<and> in_hand (thr (P' j) u) = in_hand (thr (P j) u))
     \<and> held P' u = held P u"

lemma agree_refl [simp]: "agree u P P"
  by (simp add: agree_def)

lemma inside_iff: "(\<exists>pc. x = Some (q, pc)) \<longleftrightarrow> map_option fst x = Some q"
  by (cases x) auto

lemma inside_push_iff: "(\<exists>b pc. x = Some (Op_push b, pc)) \<longleftrightarrow> (\<exists>b. map_option fst x = Some (Op_push b))"
  by (cases x) auto

lemma away_iff: "away n t P \<longleftrightarrow> t < n \<and> (\<forall>j. map_option fst (thr (P j) t) = None)"
  by (simp add: away_def)

lemma worker_ok_cong:
  assumes "agree u (stacks s) (stacks s')" and "spos s' u = spos s u"
    and "push_thread s' u = push_thread s u"
  shows "worker_ok n s' u = worker_ok n s u"
  using assms unfolding worker_ok_def inside_iff inside_push_iff away_iff agree_def
  by (simp split: spos.splits)

lemma act_agree:
  assumes ok: "pool_ok n own P" and ok': "pool_ok n own (pool_update n i x P)"
    and inv: "stack_inv sol own (P i) xs" and fr: "sol = DWCAS \<Longrightarrow> fresh (P i)"
    and act: "act sol a (P i) = Some x" and u: "u < n" "u \<noteq> actor a"
    and kind: "still a \<or> (\<exists>t e. a = Step t e)"
  shows "agree u P (pool_update n i x P)"
proof -
  have "held (pool_update n i x P) u = held P u"
    using kind
  proof
    assume "still a"
    from held_still [OF ok ok' act this u(1)] show ?thesis .
  next
    assume "\<exists>t e. a = Step t e"
    then obtain t e where a: "a = Step t e" by blast
    from held_step(1) [OF ok ok' inv fr act [unfolded a] u(1)] u(2) show ?thesis by (simp add: a)
  qed
  moreover have "thr (pool_update n i x P j) u = thr (P j) u" for j
    using act_other_thr [OF act u(2)] by (cases "j = i") simp_all
  ultimately show ?thesis by (simp add: agree_def)
qed

text \<open>Losing a monitor and racy reads change nothing for anybody.\<close>

lemma env_agree:
  assumes ok: "pool_ok n own P" and ok': "pool_ok n own (pool_update n i x P)"
    and act: "act sol a (P i) = Some x" and a: "a = Lose_monitor t \<or> a = Stale_read t v" and u: "u < n"
  shows "agree u P (pool_update n i x P)"
proof -
  have "still a" using a by auto
  have "map_option fst (thr x u) = map_option fst (thr (P i) u) \<and> in_hand (thr x u) = in_hand (thr (P i) u)"
    using act by (cases rule: act_elim) (use a in \<open>auto simp: lose_monitor_def\<close>)
  then have "map_option fst (thr (pool_update n i x P j) u) = map_option fst (thr (P j) u)
      \<and> in_hand (thr (pool_update n i x P j) u) = in_hand (thr (P j) u)" for j
    by (cases "j = i") simp_all
  with held_still [OF ok ok' act \<open>still a\<close> u] show ?thesis by (simp add: agree_def)
qed

section \<open>What an action does to its thread\<close>

text \<open>The pool before and after an action of the program.\<close>

definition moves ::
    "PlatformABASolution \<Rightarrow> nat \<Rightarrow> ('w::len word \<Rightarrow> tid option) \<Rightarrow> nat \<Rightarrow> 'w word action \<Rightarrow>
     'w word pool \<Rightarrow> 'w word pool \<Rightarrow> bool" where
  "moves sol m own i a P P' \<longleftrightarrow>
     (\<exists>x xs ys. act sol a (P i) = Some x \<and> P' = pool_update m i x P \<and> allowed m a P
        \<and> pool_ok m own P \<and> pool_ok m own P' \<and> stack_inv sol own (P i) xs \<and> stack_inv sol own x ys
        \<and> (sol = DWCAS \<longrightarrow> fresh (P i)))"

lemma movesE:
  assumes "moves sol m own i a P P'"
  obtains x xs ys where "act sol a (P i) = Some x" "P' = pool_update m i x P" "allowed m a P"
    "pool_ok m own P" "pool_ok m own P'" "stack_inv sol own (P i) xs" "stack_inv sol own x ys"
    "sol = DWCAS \<Longrightarrow> fresh (P i)"
  using assms unfolding moves_def by blast

lemma moves_agree:
  assumes "moves sol m own i a P P'" and "still a \<or> (\<exists>t e. a = Step t e)"
    and "u < m" "u \<noteq> actor a"
  shows "agree u P P'"
  using assms by (elim movesE) (auto intro: act_agree)

lemma moves_word0: "moves sol m own i a P P' \<Longrightarrow> j \<noteq> i \<or> still a \<Longrightarrow> word0 (P' j) = word0 (P j)"
  by (elim movesE, cases "j = i") (auto dest: act_still)

lemma moves_held:
  assumes "moves sol m own i a P P'" and "still a" and "u < m"
  shows "held P' u = held P u"
  using assms(1)
proof (rule movesE)
  fix x xs ys
  assume act: "act sol a (P i) = Some x" and P': "P' = pool_update m i x P"
    and ok: "pool_ok m own P" "pool_ok m own P'"
  from held_still [OF ok(1) ok(2) [unfolded P'] act assms(2,3)] show ?thesis by (simp add: P')
qed

lemma moves_begin_pop:
  assumes "moves sol m own i (Begin_pop t) P P'"
  shows "thr (P' i) t = Some (Op_pop, M_load) \<and> t < m"
  using assms by (elim movesE) (auto simp: begin_op_def away_def split: if_splits)

lemma moves_begin_push:
  assumes "moves sol m own i (Begin_push t b) P P'" and "b \<noteq> 0"
  shows "thr (P' i) t = Some (Op_push b, M_load) \<and> t < m"
  using assms
  by (elim movesE) (auto simp: begin_op_def away_def push_entry_def simp del: not_None_eq split: if_splits)

lemma moves_end:
  assumes "moves sol m own i (End t) P P'" and "t < m"
  shows "away m t P'"
  using assms(1)
proof (rule movesE)
  fix x xs ys
  assume act: "act sol (End t) (P i) = Some x" and P': "P' = pool_update m i x P"
    and ok: "pool_ok m own P"
  from act have busy: "thr (P i) t \<noteq> None" and x: "thr x t = None"
    by (auto simp: end_op_def split: option.splits mpc.splits)
  have "thr (P' j) t = None" for j
    using pool_okD(3) [OF ok busy, of j] x by (cases "j = i") (simp_all add: P')
  with assms(2) show ?thesis by (simp add: away_def)
qed

lemma moves_step:
  assumes "moves sol m own i (Step t e) P P'" and thr: "thr (P i) t = Some (q, pc)" and t: "t < m"
  shows "(\<exists>pc'. thr (P' i) t = Some (q, pc'))
    \<and> held P' t - in_hand (thr (P' i) t) = held P t - in_hand (thr (P i) t)
    \<and> in_hand (thr (P' i) t) \<subseteq> held P' t"
  using assms(1)
proof (rule movesE)
  fix x xs ys
  assume act: "act sol (Step t e) (P i) = Some x" and P': "P' = pool_update m i x P"
    and ok: "pool_ok m own P" "pool_ok m own P'"
    and inv: "stack_inv sol own (P i) xs" "stack_inv sol own x ys"
    and fr: "sol = DWCAS \<Longrightarrow> fresh (P i)"
  have "stack_inv sol own (P' i) ys" using inv(2) by (simp add: P')
  from in_hand_held [OF ok(2) this t] step_same_op [OF act thr]
    held_step(2) [OF ok(1) ok(2) [unfolded P'] inv(1) fr act t refl]
  show ?thesis by (simp add: P')
qed

text \<open>What the thread holds outside its operation stays the same.\<close>

lemma moves_step_all:
  assumes "moves sol m own i (Step t e) P P'" and "thr (P i) t = Some (q, pc)" and "t < m"
    and "held P t = in_hand (thr (P i) t)"
  shows "held P' t = in_hand (thr (P' i) t)"
  using moves_step [OF assms(1-3)] assms(4) by auto

lemma on_stack_moves:
  assumes inv: "shuffle_inv sol n elements malloc links s" and db: "distinct_blocks n elements malloc"
    and fr: "sol = DWCAS \<longrightarrow> (\<forall>j. fresh (stacks s j))" and on: "on_stack sol n i a s = Some s'"
  obtains P' where "s' = s\<lparr>stacks := P'\<rparr>"
    and "moves sol (Suc n) (main_owns n (blocks n elements malloc)) i a (stacks s) P'"
    and "pool_reach sol (Suc n) links (main_owns n (blocks n elements malloc)) P'"
proof -
  let ?own = "main_owns n (blocks n elements malloc)"
  from inv have pr: "pool_reach sol (Suc n) links ?own (stacks s)" by (simp add: shuffle_inv_def)
  from on obtain x where al: "allowed (Suc n) a (stacks s)" and act: "act sol a (stacks s i) = Some x"
    and s': "s' = s\<lparr>stacks := pool_update (Suc n) i x (stacks s)\<rparr>"
    by (auto simp: on_stack_def split: if_splits)
  let ?P = "pool_update (Suc n) i x (stacks s)"
  have pr': "pool_reach sol (Suc n) links ?own ?P" by (rule pool_reach.step [OF pr _ al act]) (use fr in simp)
  obtain xs where xs: "stack_inv sol ?own (stacks s i) xs" using pool_facts(2) [OF pr db] by blast
  obtain ys where "stack_inv sol ?own (?P i) ys" using pool_facts(2) [OF pr' db] by blast
  then have "moves sol (Suc n) ?own i a (stacks s) ?P"
    unfolding moves_def using xs al act fr pool_facts(1) [OF pr db] pool_facts(1) [OF pr' db] by auto
  then show ?thesis using that [OF s'] pr' by blast
qed

section \<open>The workers\<close>

definition workers_run :: "'v shuffle \<Rightarrow> bool" where
  "workers_run s \<longleftrightarrow> mpos s = Running \<or> mpos s = Joining"

lemma worker_runs:
  assumes "shuffle_inv sol n elements malloc links s" and "t < n"
    and "spos s t \<noteq> Not_started" "spos s t \<noteq> Finished"
  shows "workers_run s"
  using assms by (auto simp: shuffle_inv_def main_ok_def workers_run_def split: mpos.splits)

lemma main_ok_running:
  "workers_run s \<Longrightarrow> main_ok n elements malloc s \<longleftrightarrow>
     away (Suc n) n (stacks s) \<and> held (stacks s) n = {} \<and> expected s = of_nat (n * elements) \<and> counted s = 0"
  by (auto simp: main_ok_def workers_run_def)

text \<open>A worker that changes its own variables only, and one that acts on a stack.\<close>

lemma worker_local:
  assumes inv: "shuffle_inv sol n elements malloc links s" and run: "workers_run s" and t: "t < n"
    and same: "stacks s' = stacks s" "mpos s' = mpos s" "expected s' = expected s" "counted s' = counted s"
    and others: "\<And>u. u \<noteq> t \<Longrightarrow> spos s' u = spos s u \<and> push_thread s' u = push_thread s u"
    and me: "worker_ok n s' t"
  shows "shuffle_inv sol n elements malloc links s'"
proof -
  have "worker_ok n s' u" if "u < n" for u
    using me inv that others [of u] worker_ok_cong [of u s s' n] same(1)
    by (cases "u = t") (auto simp: shuffle_inv_def)
  moreover have "main_ok n elements malloc s'"
    using inv run same by (simp add: shuffle_inv_def main_ok_running workers_run_def)
  ultimately show ?thesis using inv same by (simp add: shuffle_inv_def)
qed

lemma worker_moves:
  assumes inv: "shuffle_inv sol n elements malloc links s" and run: "workers_run s"
    and t: "actor a = t" "t < n" and i: "i < n"
    and mv: "moves sol (Suc n) (main_owns n (blocks n elements malloc)) i a (stacks s) (stacks s')"
    and pr: "pool_reach sol (Suc n) links (main_owns n (blocks n elements malloc)) (stacks s')"
    and kind: "still a \<or> (\<exists>t e. a = Step t e)"
    and same: "mpos s' = mpos s" "expected s' = expected s" "counted s' = counted s"
    and others: "\<And>u. u \<noteq> t \<Longrightarrow> spos s' u = spos s u \<and> push_thread s' u = push_thread s u"
    and me: "worker_ok n s' t"
  shows "shuffle_inv sol n elements malloc links s'"
proof -
  have ag: "agree u (stacks s) (stacks s')" if "u \<le> n" "u \<noteq> t" for u
    by (rule moves_agree [OF mv kind]) (use that t in auto)
  have "worker_ok n s' u" if "u < n" for u
    using me inv that others [of u] worker_ok_cong [OF ag, of u n]
    by (cases "u = t") (auto simp: shuffle_inv_def)
  moreover have "main_ok n elements malloc s'"
    using inv run same ag [of n] t
    by (simp add: shuffle_inv_def main_ok_running workers_run_def away_iff agree_def)
  moreover have "word0 (stacks s' j) = 0" if "n \<le> j" for j
    using moves_word0 [OF mv, of j] inv that i by (simp add: shuffle_inv_def)
  ultimately show ?thesis using pr by (simp add: shuffle_inv_def)
qed

lemma load_end_test_only:
  "load_end_test t s = (stop, s1) \<Longrightarrow> \<exists>f c. s1 = s\<lparr>sview := f, end_test := c\<rparr>"
  by (auto simp: load_end_test_def split: prod.splits)

lemma local_updates [simp]:
  "shuffle_inv sol n elements malloc links (s\<lparr>sview := f, end_test := c\<rparr>)
     = shuffle_inv sol n elements malloc links s"
  "workers_run (s\<lparr>sview := f, end_test := c\<rparr>) = workers_run s"
  "workers_run (add_operations t k s) = workers_run s"
  "workers_run (goto t p s) = workers_run s"
  by (simp_all add: shuffle_inv_def worker_ok_def main_ok_def workers_run_def add_operations_def goto_def
    cong: spos.case_cong mpos.case_cong)

lemma shuffle_invD:
  assumes "shuffle_inv sol n elements malloc links s"
  shows "t < n \<Longrightarrow> worker_ok n s t" and "main_ok n elements malloc s"
    and "pool_reach sol (Suc n) links (main_owns n (blocks n elements malloc)) (stacks s)"
  using assms by (simp_all add: shuffle_inv_def)

lemma goto_keeps:
  assumes "shuffle_inv sol n elements malloc links s" "workers_run s" "t < n"
    and "worker_ok n (goto t p (add_operations t k s)) t"
  shows "shuffle_inv sol n elements malloc links (goto t p (add_operations t k s))"
  by (rule worker_local [OF assms(1-3)]) (use assms(4) in \<open>simp_all add: goto_def add_operations_def\<close>)

lemma add_zero: "goto t p s = goto t p (add_operations t 0 s)"
  by (simp add: goto_def add_operations_def)

text \<open>At the two loop tests a worker holds nothing.\<close>

definition resting :: "nat \<Rightarrow> 'w::len word shuffle \<Rightarrow> tid \<Rightarrow> bool" where
  "resting n s t \<longleftrightarrow>
     unat (push_thread s t) < n \<and> away (Suc n) t (stacks s) \<and> held (stacks s) t = {}"

lemma worker_resting:
  "spos s t \<in> {Not_started, Outer, Inner, Reporting, Finished} \<Longrightarrow> worker_ok n s t = resting n s t"
  by (auto simp: worker_ok_def resting_def)

lemma resting_updates [simp]:
  "resting n (goto t p s) u = resting n s u"
  "resting n (add_operations t k s) u = resting n s u"
  "resting n (s\<lparr>sview := f, end_test := c\<rparr>) u = resting n s u"
  "spos (goto t p s) t = p"
  by (simp_all add: resting_def goto_def add_operations_def)

lemma goto_resting:
  assumes "shuffle_inv sol n elements malloc links s" "workers_run s" "t < n" "resting n s t"
    and "p \<in> {Not_started, Outer, Inner, Reporting, Finished}"
  shows "shuffle_inv sol n elements malloc links (goto t p (add_operations t k s))"
  by (rule goto_keeps [OF assms(1-3)]) (use assms(4,5) in \<open>simp add: worker_resting\<close>)

text \<open>An action on a stack, followed by changes to the worker's own variables.\<close>

lemma worker_on_stack:
  assumes inv: "shuffle_inv sol n elements malloc links s" and db: "distinct_blocks n elements malloc"
    and fr: "sol = DWCAS \<longrightarrow> (\<forall>j. fresh (stacks s j))"
    and run: "workers_run s" and t: "actor a = t" "t < n" and i: "i < n"
    and kind: "still a \<or> (\<exists>t e. a = Step t e)"
    and on: "map_option f (on_stack sol n i a s) = Some s'"
    and local: "\<And>s. stacks (f s) = stacks s \<and> mpos (f s) = mpos s \<and> expected (f s) = expected s
      \<and> counted (f s) = counted s
      \<and> (\<forall>u. u \<noteq> t \<longrightarrow> spos (f s) u = spos s u \<and> push_thread (f s) u = push_thread s u)"
    and me: "\<And>P'. moves sol (Suc n) (main_owns n (blocks n elements malloc)) i a (stacks s) P' \<Longrightarrow>
      worker_ok n (f (s\<lparr>stacks := P'\<rparr>)) t"
  shows "shuffle_inv sol n elements malloc links s'"
proof -
  from on obtain s1 where s1: "on_stack sol n i a s = Some s1" and s': "s' = f s1" by auto
  obtain P' where P': "s1 = s\<lparr>stacks := P'\<rparr>"
    and mv: "moves sol (Suc n) (main_owns n (blocks n elements malloc)) i a (stacks s) P'"
    and pr: "pool_reach sol (Suc n) links (main_owns n (blocks n elements malloc)) P'"
    using on_stack_moves [OF inv db fr s1] by blast
  show ?thesis
    by (rule worker_moves [OF inv run t i _ _ kind]) (use mv pr local [of s1] me [OF mv] in \<open>simp_all add: P' s'\<close>)
qed

lemma worker_begins_pop:
  assumes "moves sol (Suc n) own t (Begin_pop t) (stacks s) P'" and "resting n s t" and "t < n"
  shows "worker_ok n (goto t Popping (s\<lparr>stacks := P'\<rparr>)) t"
  using moves_begin_pop [OF assms(1)] moves_held [OF assms(1), of t] assms(2,3)
  by (auto simp: worker_ok_def goto_def resting_def)

lemma worker_begins_push:
  assumes "moves sol (Suc n) own (unat (push_thread s t)) (Begin_push t b) (stacks s) P'"
    and "worker_ok n s t" "spos s t = Got b" and "t < n" and "b \<noteq> 0"
  shows "worker_ok n (goto t Pushing (s\<lparr>stacks := P'\<rparr>)) t"
  using moves_begin_push [OF assms(1,5)] moves_held [OF assms(1), of t] assms(2-4)
  by (auto simp: worker_ok_def goto_def)

lemma worker_steps:
  assumes "moves sol (Suc n) own i (Step t e) (stacks s) P'"
    and "worker_ok n s t" and "spos s t = Popping \<and> i = t \<or> spos s t = Pushing \<and> i = unat (push_thread s t)"
    and "t < n"
  shows "worker_ok n (s\<lparr>stacks := P'\<rparr>) t"
proof -
  from assms(2,3) obtain q pc where thr: "thr (stacks s i) t = Some (q, pc)"
    and hand: "held (stacks s) t = in_hand (thr (stacks s i) t)"
    by (auto simp: worker_ok_def)
  from assms(4) have t: "t < Suc n" by simp
  from moves_step [OF assms(1) thr t] moves_step_all [OF assms(1) thr t hand] assms(2,3) thr
  show ?thesis by (auto simp: worker_ok_def)
qed

text \<open>What a finished operation leaves with its thread.\<close>

lemma result_at_elim:
  assumes "result_at i t s = Some r"
  obtains q ok v where "thr (stacks s i) t = Some (q, M_done ok v)" "r = stack_return q v"
  using assms by (auto simp: result_at_def split: option.splits prod.splits mpc.splits)

lemma result_at_known:
  "result_at i t s = Some r \<Longrightarrow> thr (stacks s i) t = Some (q, pc) \<Longrightarrow>
   \<exists>ok v. pc = M_done ok v \<and> r = stack_return q v"
  by (erule result_at_elim) auto

lemma stack_return_hand:
  "in_hand (Some (Op_pop, M_done ok v)) = (case stack_return Op_pop v of Popped b \<Rightarrow> {b} | _ \<Rightarrow> {})"
  by (cases v) auto

lemma worker_ends_pop:
  assumes mv: "moves sol (Suc n) own t (End t) (stacks s) P'" and "worker_ok n s t" "spos s t = Popping"
    and "t < n" and "result_at t t s = Some r"
  shows "unat (push_thread s t) < n \<and> away (Suc n) t P' \<and> held P' t = (case r of Popped b \<Rightarrow> {b} | _ \<Rightarrow> {})"
  using moves_end [OF mv] moves_held [OF mv, of t] assms(2-4)
  by - (rule result_at_elim [OF assms(5)], auto simp: worker_ok_def stack_return_hand)

lemma worker_ends_push:
  assumes mv: "moves sol (Suc n) own (unat (push_thread s t)) (End t) (stacks s) P'"
    and "worker_ok n s t" "spos s t = Pushing" and "t < n"
    and "result_at (unat (push_thread s t)) t s = Some r"
  shows "unat (push_thread s t) < n \<and> away (Suc n) t P' \<and> held P' t = {}"
  using moves_end [OF mv] moves_held [OF mv, of t] assms(2-4)
  by - (rule result_at_elim [OF assms(5)], auto simp: worker_ok_def)

lemma next_stack: "0 < n \<Longrightarrow> n < 2 ^ 32 \<Longrightarrow> unat ((p + 1) mod of_nat n :: u32) < n"
  by (simp add: unat_mod unat_of_nat)

lemma worker_popping:
  assumes inv: "shuffle_inv sol n elements malloc links s" and db: "distinct_blocks n elements malloc"
    and fr: "sol = DWCAS \<longrightarrow> (\<forall>j. fresh (stacks s j))" and t: "t < n" and pos: "spos s t = Popping"
    and step: "shuffle_worker sol n t e s = Some s'"
  shows "shuffle_inv sol n elements malloc links s'"
proof -
  have run: "workers_run s" by (rule worker_runs [OF inv t]) (simp_all add: pos)
  note ok = shuffle_invD(1) [OF inv t]
  note rule = worker_on_stack [OF inv db fr run _ t t]
  show ?thesis
  proof (cases "result_at t t s")
    case None
    with step pos have on: "map_option id (on_stack sol n t (Step t e) s) = Some s'"
      by (simp add: shuffle_worker_def option.map_id)
    show ?thesis
      by (rule rule [OF _ _ on]) (use worker_steps [OF _ ok _ t] pos in auto)
  next
    case (Some r)
    let ?f = "\<lambda>s. case r of Popped b \<Rightarrow> goto t (Got b) (add_operations t 2 s)
      | _ \<Rightarrow> goto t Outer (add_operations t 1 s)"
    have on: "map_option ?f (on_stack sol n t (End t) s) = Some s'"
      using step pos Some by (cases r) (simp_all add: shuffle_worker_def)
    show ?thesis
      by (rule rule [OF _ _ on])
        (use worker_ends_pop [OF _ ok pos t Some] in
          \<open>auto simp: goto_def add_operations_def worker_ok_def split: stack_result.splits\<close>)
  qed
qed

lemma held_not_null:
  assumes "shuffle_inv sol n elements malloc links s" and "distinct_blocks n elements malloc"
  shows "0 \<notin> held (stacks s) t"
proof -
  obtain xs where "stack_inv sol (main_owns n (blocks n elements malloc)) (stacks s 0) xs"
    using pool_facts(2) [OF shuffle_invD(3) [OF assms(1)] assms(2)] by blast
  from stack_invD(4) [OF this] show ?thesis by (simp add: held_def)
qed

lemma worker_pushing:
  assumes inv: "shuffle_inv sol n elements malloc links s" and db: "distinct_blocks n elements malloc"
    and fr: "sol = DWCAS \<longrightarrow> (\<forall>j. fresh (stacks s j))" and t: "t < n" and n: "n < 2 ^ 32"
    and pos: "spos s t = Pushing" and step: "shuffle_worker sol n t e s = Some s'"
  shows "shuffle_inv sol n elements malloc links s'"
proof -
  have run: "workers_run s" by (rule worker_runs [OF inv t]) (simp_all add: pos)
  note ok = shuffle_invD(1) [OF inv t]
  then have i: "unat (push_thread s t) < n" by (simp add: worker_ok_def)
  note rule = worker_on_stack [OF inv db fr run _ t i]
  show ?thesis
  proof (cases "result_at (unat (push_thread s t)) t s")
    case None
    with step pos have on: "map_option id (on_stack sol n (unat (push_thread s t)) (Step t e) s) = Some s'"
      by (simp add: shuffle_worker_def option.map_id)
    show ?thesis
      by (rule rule [OF _ _ on]) (use worker_steps [OF _ ok _ t] pos in auto)
  next
    case (Some r)
    let ?f = "\<lambda>s. goto t Inner (s\<lparr>push_thread := (push_thread s)(t := (push_thread s t + 1) mod of_nat n)\<rparr>)"
    have on: "map_option ?f (on_stack sol n (unat (push_thread s t)) (End t) s) = Some s'"
      using step pos Some by (simp add: shuffle_worker_def Let_def)
    show ?thesis
      by (rule rule [OF _ _ on])
        (use worker_ends_push [OF _ ok pos t Some] next_stack [of n "push_thread s t"] t n in
          \<open>auto simp: goto_def worker_ok_def\<close>)
  qed
qed

lemma worker_got:
  assumes inv: "shuffle_inv sol n elements malloc links s" and db: "distinct_blocks n elements malloc"
    and fr: "sol = DWCAS \<longrightarrow> (\<forall>j. fresh (stacks s j))" and t: "t < n"
    and pos: "spos s t = Got b" and step: "shuffle_worker sol n t e s = Some s'"
  shows "shuffle_inv sol n elements malloc links s'"
proof -
  have run: "workers_run s" by (rule worker_runs [OF inv t]) (simp_all add: pos)
  note ok = shuffle_invD(1) [OF inv t]
  then have i: "unat (push_thread s t) < n" and "b \<in> held (stacks s) t"
    using pos by (simp_all add: worker_ok_def)
  then have b: "b \<noteq> 0" using held_not_null [OF inv db] by metis
  from step pos have on: "map_option (goto t Pushing)
      (on_stack sol n (unat (push_thread s t)) (Begin_push t b) s) = Some s'"
    by (simp add: shuffle_worker_def)
  show ?thesis
    by (rule worker_on_stack [OF inv db fr run _ t i _ on])
      (use worker_begins_push [OF _ ok pos t b] in \<open>auto simp: goto_def\<close>)
qed

lemma worker_tests:
  assumes inv: "shuffle_inv sol n elements malloc links s" and db: "distinct_blocks n elements malloc"
    and fr: "sol = DWCAS \<longrightarrow> (\<forall>j. fresh (stacks s j))" and t: "t < n"
    and pos: "spos s t \<in> {Outer, Inner, Reporting}" and step: "shuffle_worker sol n t e s = Some s'"
  shows "shuffle_inv sol n elements malloc links s'"
proof -
  have run: "workers_run s" by (rule worker_runs [OF inv t]) (use pos in auto)
  have res: "resting n s t" using shuffle_invD(1) [OF inv t] pos worker_resting [of s t n] by auto
  obtain stop s1 where l: "load_end_test t s = (stop, s1)" by fastforce
  then obtain f c where s1: "s1 = s\<lparr>sview := f, end_test := c\<rparr>" using load_end_test_only by blast
  have inv1: "shuffle_inv sol n elements malloc links s1" and run1: "workers_run s1"
    and res1: "resting n s1 t" and fr1: "sol = DWCAS \<longrightarrow> (\<forall>j. fresh (stacks s1 j))"
    using inv run res fr by (simp_all add: s1)
  consider "spos s t = Outer" | "spos s t = Inner" stop | "spos s t = Inner" "\<not> stop"
    | "spos s t = Reporting" using pos by auto
  then show ?thesis
  proof cases
    case 1
    then have "s' = goto t Reporting (add_operations t (- 1) s1) \<or> s' = goto t Inner (add_operations t 0 s1)"
      using step l add_zero [of t Inner s1] by (auto simp: shuffle_worker_def)
    then show ?thesis using goto_resting [OF inv1 run1 t res1] by auto
  next
    case 2
    then have "s' = goto t Outer (add_operations t 1 s1)" using step l by (auto simp: shuffle_worker_def)
    then show ?thesis using goto_resting [OF inv1 run1 t res1] by auto
  next
    case 3
    then have on: "map_option (goto t Popping) (on_stack sol n t (Begin_pop t) s1) = Some s'"
      using step l by (simp add: shuffle_worker_def)
    show ?thesis
      by (rule worker_on_stack [OF inv1 db fr1 run1 _ t t _ on])
        (use worker_begins_pop [OF _ res1 t] in \<open>auto simp: goto_def\<close>)
  next
    case 4
    then obtain f c where s': "s' = goto t Finished (s\<lparr>sview := f, overall_stack_operations := c\<rparr>)"
      using step by (auto simp: shuffle_worker_def split: prod.splits)
    have "spos s' t = Finished" and "resting n s' t"
      using res by (simp_all add: s' resting_def goto_def)
    then have "worker_ok n s' t" using worker_resting [of s' t n] by simp
    with s' show ?thesis by (intro worker_local [OF inv run t]) (simp_all add: goto_def)
  qed
qed

lemma shuffle_worker_inv:
  assumes inv: "shuffle_inv sol n elements malloc links s" and db: "distinct_blocks n elements malloc"
    and fr: "sol = DWCAS \<longrightarrow> (\<forall>j. fresh (stacks s j))" and t: "t < n" and n: "n < 2 ^ 32"
    and step: "shuffle_worker sol n t e s = Some s'"
  shows "shuffle_inv sol n elements malloc links s'"
proof (cases "spos s t")
  case Popping
  from worker_popping [OF inv db fr t this step] show ?thesis .
next
  case (Got b)
  from worker_got [OF inv db fr t this step] show ?thesis .
next
  case Pushing
  from worker_pushing [OF inv db fr t n this step] show ?thesis .
qed (use worker_tests [OF inv db fr t _ step] step in \<open>auto simp: shuffle_worker_def\<close>)

section \<open>The main thread\<close>

lemma main_on_stack:
  assumes inv: "shuffle_inv sol n elements malloc links s" and db: "distinct_blocks n elements malloc"
    and fr: "sol = DWCAS \<longrightarrow> (\<forall>j. fresh (stacks s j))"
    and a: "actor a = n" and k: "k < n" and kind: "still a \<or> (\<exists>t e. a = Step t e)"
    and on: "map_option f (on_stack sol n k a s) = Some s'"
    and local: "\<And>s. stacks (f s) = stacks s \<and> spos (f s) = spos s \<and> push_thread (f s) = push_thread s"
    and me: "\<And>P'. moves sol (Suc n) (main_owns n (blocks n elements malloc)) k a (stacks s) P' \<Longrightarrow>
      main_ok n elements malloc (f (s\<lparr>stacks := P'\<rparr>))"
  shows "shuffle_inv sol n elements malloc links s'"
proof -
  from on obtain s1 where s1: "on_stack sol n k a s = Some s1" and s': "s' = f s1" by auto
  obtain P' where P': "s1 = s\<lparr>stacks := P'\<rparr>"
    and mv: "moves sol (Suc n) (main_owns n (blocks n elements malloc)) k a (stacks s) P'"
    and pr: "pool_reach sol (Suc n) links (main_owns n (blocks n elements malloc)) P'"
    using on_stack_moves [OF inv db fr s1] by blast
  have "worker_ok n s' u" if "u < n" for u
  proof -
    have "agree u (stacks s) (stacks s')"
      using moves_agree [OF mv kind, of u] that a local [of s1] by (simp add: P' s')
    from worker_ok_cong [OF this] show ?thesis
      using shuffle_invD(1) [OF inv that] local [of s1] by (simp add: P' s')
  qed
  moreover have "word0 (stacks s' j) = 0" if "n \<le> j" for j
    using moves_word0 [OF mv, of j] inv that k local [of s1] by (simp add: shuffle_inv_def P' s')
  ultimately show ?thesis using pr me [OF mv] local [of s1] by (simp add: shuffle_inv_def P' s')
qed

lemma main_local:
  assumes "shuffle_inv sol n elements malloc links s" and "main_ok n elements malloc s'"
    and "stacks s' = stacks s" and "\<And>t. t < n \<Longrightarrow> worker_ok n s' t"
  shows "shuffle_inv sol n elements malloc links s'"
  using assms by (simp add: shuffle_inv_def)

lemma main_fill:
  assumes inv: "shuffle_inv sol n elements malloc links s" and db: "distinct_blocks n elements malloc"
    and fr: "sol = DWCAS \<longrightarrow> (\<forall>j. fresh (stacks s j))"
    and pos: "mpos s = Fill k i" and step: "shuffle_main sol std n elements malloc e s = Some s'"
  shows "shuffle_inv sol n elements malloc links s'"
proof -
  note ok = shuffle_invD(2) [OF inv, unfolded main_ok_def pos, simplified]
  consider "n \<le> k" | "k < n" "elements \<le> i" | "k < n" "i < elements" by linarith
  then show ?thesis
  proof cases
    case 1
    with step pos have s': "s' = s\<lparr>mpos := Running, spos := (\<lambda>t. if t < n then Outer else spos s t)\<rparr>"
      by (simp add: shuffle_main_def)
    show ?thesis
    proof (rule main_local [OF inv])
      show "main_ok n elements malloc s'"
        using ok 1 rest_end [of n k elements malloc i] by (simp add: main_ok_def s')
      show "worker_ok n s' t" if "t < n" for t
        using ok that shuffle_invD(1) [OF inv that] by (simp add: worker_ok_def s')
    qed (simp add: s')
  next
    case 2
    with step pos have s': "s' = s\<lparr>mpos := Fill (Suc k) 0\<rparr>" by (simp add: shuffle_main_def)
    show ?thesis
    proof (rule main_local [OF inv])
      show "main_ok n elements malloc s'"
        using ok 2 rest_next [of elements i n malloc k] by (simp add: main_ok_def s' add.commute)
      show "worker_ok n s' t" if "t < n" for t
        using shuffle_invD(1) [OF inv that] by (simp add: worker_ok_def s' cong: spos.case_cong)
    qed (simp add: s')
  next
    case 3
    with step pos have on: "map_option (\<lambda>s'. s'\<lparr>mpos := Filling k i\<rparr>)
        (on_stack sol n k (Begin_push n (malloc k i)) s) = Some s'"
      by (simp add: shuffle_main_def)
    have nn: "malloc k i \<noteq> 0" using db 3 by (auto simp: distinct_blocks_def blocks_def)
    show ?thesis
    proof (rule main_on_stack [OF inv db fr _ _ _ on])
      fix P'
      assume mv: "moves sol (Suc n) (main_owns n (blocks n elements malloc)) k
        (Begin_push n (malloc k i)) (stacks s) P'"
      from moves_begin_push [OF mv nn] moves_held [OF mv, of n] rest_Suc [OF db 3] ok 3
      show "main_ok n elements malloc (s\<lparr>stacks := P', mpos := Filling k i\<rparr>)"
        by (simp add: main_ok_def)
    qed (use 3 in simp_all)
  qed
qed

lemma main_filling:
  assumes inv: "shuffle_inv sol n elements malloc links s" and db: "distinct_blocks n elements malloc"
    and fr: "sol = DWCAS \<longrightarrow> (\<forall>j. fresh (stacks s j))"
    and pos: "mpos s = Filling k i" and step: "shuffle_main sol std n elements malloc e s = Some s'"
  shows "shuffle_inv sol n elements malloc links s'"
proof -
  note ok = shuffle_invD(2) [OF inv, unfolded main_ok_def pos, simplified]
  from ok obtain pc where thr: "thr (stacks s k) n = Some (Op_push (malloc k i), pc)" by blast
  show ?thesis
  proof (cases "result_at k n s")
    case None
    with step pos have on: "map_option id (on_stack sol n k (Step n e) s) = Some s'"
      by (simp add: shuffle_main_def option.map_id)
    show ?thesis
    proof (rule main_on_stack [OF inv db fr _ _ _ on])
      fix P'
      assume mv: "moves sol (Suc n) (main_owns n (blocks n elements malloc)) k (Step n e) (stacks s) P'"
      from moves_step [OF mv thr] ok pos
      show "main_ok n elements malloc (id (s\<lparr>stacks := P'\<rparr>))" by (simp add: main_ok_def)
    qed (use ok in simp_all)
  next
    case (Some r)
    from result_at_known [OF this thr] have hand: "in_hand (thr (stacks s k) n) = {}"
      by (auto simp: thr)
    from Some step pos have on: "map_option (\<lambda>s'. s'\<lparr>mpos := Fill k (Suc i), expected := expected s' + 1\<rparr>)
        (on_stack sol n k (End n) s) = Some s'"
      by (simp add: shuffle_main_def)
    show ?thesis
    proof (rule main_on_stack [OF inv db fr _ _ _ on])
      fix P'
      assume mv: "moves sol (Suc n) (main_owns n (blocks n elements malloc)) k (End n) (stacks s) P'"
      from moves_end [OF mv] moves_held [OF mv, of n] ok hand
      show "main_ok n elements malloc (s\<lparr>stacks := P', mpos := Fill k (Suc i),
          expected := expected (s\<lparr>stacks := P'\<rparr>) + 1\<rparr>)"
        by (simp add: main_ok_def)
    qed (use ok in simp_all)
  qed
qed

text \<open>With no other thread at work, a pop that finds the stack empty is right at its end, too.\<close>

lemma current_step:
  assumes inv: "stack_inv sol own s xs" and thr: "thr s t = Some (Op_pop, pc)" and cur: "current pc s"
    and act: "act sol (Step t e) s = Some s'"
  shows "\<exists>pc'. thr s' t = Some (Op_pop, pc') \<and> current pc' s'"
proof -
  obtain pc' s2 where step: "step_op sol stack_ops t e Op_pop pc s = (pc', s2)" by fastforce
  obtain s1 where s1: "modify_step sol (stack_ops Op_pop) t e pc s = (pc', s1)"
    and s2: "s2 = s1\<lparr>thr := (thr s1)(t := Some (Op_pop, pc'))\<rparr>"
    using step by (rule step_op_parts)
  have s': "s' = ghost_step t (lin_point Op_pop pc pc') s2" using act thr step by simp
  have "current pc' s1"
    using s1 stack_invD(7) [OF inv thr] cur
    by (cases rule: modify_step_elim)
      (auto simp: pop_modifier_def Let_def split: if_splits)
  then have "current pc' s'" by (cases pc') (simp_all add: s' s2 ghost_step_def)
  then show ?thesis by (simp add: s' s2 ghost_step_def)
qed

lemma moves_current:
  assumes "moves sol m own i (Step t e) P P'" and "thr (P i) t = Some (Op_pop, pc)" "current pc (P i)"
  shows "\<exists>pc'. thr (P' i) t = Some (Op_pop, pc') \<and> current pc' (P' i)"
  using assms(1) by (rule movesE) (use current_step [OF _ assms(2,3)] in auto)

lemma finished_pop:
  assumes inv: "shuffle_inv sol n elements malloc links s" and db: "distinct_blocks n elements malloc"
    and thr: "thr (stacks s i) t = Some (Op_pop, M_done ok v)" and cur: "current (M_done ok v) (stacks s i)"
  shows "(case stack_return Op_pop v of Popped b \<Rightarrow> True | _ \<Rightarrow> word0 (stacks s i) = 0)"
proof -
  obtain xs where "stack_inv sol (main_owns n (blocks n elements malloc)) (stacks s i) xs"
    using pool_facts(2) [OF shuffle_invD(3) [OF inv] db] by blast
  from stack_invD(7) [OF this thr] cur show ?thesis by (auto split: option.splits)
qed

lemma main_counting:
  assumes inv: "shuffle_inv sol n elements malloc links s" and db: "distinct_blocks n elements malloc"
    and fr: "sol = DWCAS \<longrightarrow> (\<forall>j. fresh (stacks s j))"
    and pos: "mpos s = Counting k" and step: "shuffle_main sol std n elements malloc e s = Some s'"
  shows "shuffle_inv sol n elements malloc links s'"
proof -
  note ok = shuffle_invD(2) [OF inv, unfolded main_ok_def pos, simplified]
  from ok obtain pc where thr: "thr (stacks s k) n = Some (Op_pop, pc)" and cur: "current pc (stacks s k)"
    by blast
  from ok have k: "k < n" by simp
  show ?thesis
  proof (cases "result_at k n s")
    case None
    with step pos have on: "map_option id (on_stack sol n k (Step n e) s) = Some s'"
      by (simp add: shuffle_main_def option.map_id)
    show ?thesis
    proof (rule main_on_stack [OF inv db fr _ k _ on])
      fix P'
      assume mv: "moves sol (Suc n) (main_owns n (blocks n elements malloc)) k (Step n e) (stacks s) P'"
      from moves_step [OF mv thr] moves_current [OF mv thr cur] moves_word0 [OF mv] ok pos
      show "main_ok n elements malloc (id (s\<lparr>stacks := P'\<rparr>))" by (simp add: main_ok_def)
    qed simp_all
  next
    case (Some r)
    from result_at_known [OF this thr] obtain b v
      where pc: "pc = M_done b v" and r: "r = stack_return Op_pop v" by blast
    let ?f = "\<lambda>s'. case r of Popped b \<Rightarrow> s'\<lparr>mpos := Count k, counted := counted s' + 1\<rparr>
      | _ \<Rightarrow> s'\<lparr>mpos := Count (Suc k)\<rparr>"
    have on: "map_option ?f (on_stack sol n k (End n) s) = Some s'"
      using Some step pos by (cases r) (simp_all add: shuffle_main_def)
    show ?thesis
    proof (rule main_on_stack [OF inv db fr _ k _ on])
      fix P'
      assume mv: "moves sol (Suc n) (main_owns n (blocks n elements malloc)) k (End n) (stacks s) P'"
      have held: "held P' n = held (stacks s) n" and away: "away (Suc n) n P'"
        and w0: "word0 (P' j) = word0 (stacks s j)" for j
        using moves_held [OF mv] moves_end [OF mv] moves_word0 [OF mv] by simp_all
      have hand: "in_hand (thr (stacks s k) n) \<subseteq> held (stacks s) n"
        using in_hand_held pool_facts [OF shuffle_invD(3) [OF inv] db] by (metis lessI)
      show "main_ok n elements malloc (?f (s\<lparr>stacks := P'\<rparr>))"
      proof (cases r)
        case (Popped x)
        then have "in_hand (thr (stacks s k) n) = {x}"
          by (simp add: thr pc stack_return_hand del: stack_return.simps in_hand.simps flip: r)
        then have "card (held (stacks s) n) = Suc (card (held (stacks s) n - in_hand (thr (stacks s k) n)))"
          using hand card_Suc_Diff1 [of "held (stacks s) n" x] by simp
        with Popped ok held away w0 show ?thesis by (simp add: main_ok_def)
      qed (use ok held away w0 k finished_pop [OF inv db thr [unfolded pc] cur [unfolded pc]]
          stack_return_hand [of b v] in
          \<open>simp_all add: main_ok_def less_Suc_eq all_conj_distrib thr pc
            del: stack_return.simps in_hand.simps flip: r\<close>)
    qed (simp_all split: stack_result.splits)
  qed
qed

lemma worker_ok_same:
  "spos s' = spos s \<Longrightarrow> push_thread s' = push_thread s \<Longrightarrow> stacks s' = stacks s \<Longrightarrow>
   worker_ok n s' t = worker_ok n s t"
  by (simp add: worker_ok_def cong: spos.case_cong)

lemma main_other:
  assumes inv: "shuffle_inv sol n elements malloc links s" and db: "distinct_blocks n elements malloc"
    and fr: "sol = DWCAS \<longrightarrow> (\<forall>j. fresh (stacks s j))"
    and pos: "mpos s \<in> {Running, Joining, Count k, Done}"
    and step: "shuffle_main sol std n elements malloc e s = Some s'"
  shows "shuffle_inv sol n elements malloc links s'"
proof -
  note ok = shuffle_invD(2) [OF inv, unfolded main_ok_def]
  consider "mpos s = Running" | "mpos s = Joining" | "mpos s = Count k" "n \<le> k"
    | "mpos s = Count k" "k < n" using pos step by (cases "n \<le> k") (auto simp: shuffle_main_def)
  then show ?thesis
  proof cases
    case 1
    with step obtain c where s': "s' = s\<lparr>mpos := Joining, end_test := c\<rparr>"
      by (auto simp: shuffle_main_def)
    show ?thesis
      by (rule main_local [OF inv])
        (use ok 1 shuffle_invD(1) [OF inv] worker_ok_same [of s' s] in \<open>simp_all add: main_ok_def s'\<close>)
  next
    case 2
    with step have s': "s' = s\<lparr>mpos := Count 0\<rparr>" and fin: "\<forall>t < n. spos s t = Finished"
      by (auto simp: shuffle_main_def split: if_splits)
    show ?thesis
      by (rule main_local [OF inv])
        (use ok 2 fin shuffle_invD(1) [OF inv] worker_ok_same [of s' s] in \<open>simp_all add: main_ok_def s'\<close>)
  next
    case 3
    with step obtain v f c where s': "s' = s\<lparr>mpos := Done, performance := v, sview := f,
        overall_stack_operations := c\<rparr>"
      by (auto simp: shuffle_main_def split: prod.splits)
    show ?thesis
      by (rule main_local [OF inv])
        (use ok 3 shuffle_invD(1) [OF inv] worker_ok_same [of s' s] in \<open>simp_all add: main_ok_def s'\<close>)
  next
    case 4
    with step have on: "map_option (\<lambda>s'. s'\<lparr>mpos := Counting k\<rparr>) (on_stack sol n k (Begin_pop n) s) = Some s'"
      by (simp add: shuffle_main_def)
    show ?thesis
    proof (rule main_on_stack [OF inv db fr _ 4(2) _ on])
      fix P'
      assume mv: "moves sol (Suc n) (main_owns n (blocks n elements malloc)) k (Begin_pop n) (stacks s) P'"
      from moves_begin_pop [OF mv] moves_held [OF mv, of n] moves_word0 [OF mv] ok 4
      show "main_ok n elements malloc (s\<lparr>stacks := P', mpos := Counting k\<rparr>)" by (simp add: main_ok_def)
    qed simp_all
  qed
qed

lemma shuffle_main_inv:
  assumes inv: "shuffle_inv sol n elements malloc links s" and db: "distinct_blocks n elements malloc"
    and fr: "sol = DWCAS \<longrightarrow> (\<forall>j. fresh (stacks s j))"
    and step: "shuffle_main sol std n elements malloc e s = Some s'"
  shows "shuffle_inv sol n elements malloc links s'"
proof (cases "mpos s")
  case (Fill k i)
  from main_fill [OF inv db fr this step] show ?thesis .
next
  case (Filling k i)
  from main_filling [OF inv db fr this step] show ?thesis .
next
  case (Counting k)
  from main_counting [OF inv db fr this step] show ?thesis .
qed (use main_other [OF inv db fr _ step] in auto)

section \<open>Lost monitors and racy reads\<close>

text \<open>They leave the threads in their operations, with what they hold and have seen.\<close>

lemma current_cong: "word0 x' = word0 x \<Longrightarrow> current pc x' = current pc x"
  by (cases pc) simp_all

lemma env_keeps_pc:
  assumes "act sol a x = Some x'" and "a = Lose_monitor t \<or> a = Stale_read t v"
    and "thr x u = Some (q, pc)"
  shows "\<exists>pc'. thr x' u = Some (q, pc') \<and> (current pc x \<longrightarrow> current pc' x')"
  using assms(1)
proof (cases rule: act_elim)
  case (switched t)
  with assms(3) show ?thesis by (cases pc) (auto simp: lose_monitor_def)
next
  case (stale t v d k)
  with assms(3) show ?thesis by (auto intro: current_cong [THEN iffD2])
qed (use assms(2) in simp_all)

lemma env_inv:
  assumes inv: "shuffle_inv sol n elements malloc links s" and db: "distinct_blocks n elements malloc"
    and fr: "sol = DWCAS \<longrightarrow> (\<forall>j. fresh (stacks s j))"
    and a: "a = Lose_monitor t \<or> a = Stale_read t v" and on: "on_stack sol n i a s = Some s'"
  shows "shuffle_inv sol n elements malloc links s'"
proof -
  obtain P' where s': "s' = s\<lparr>stacks := P'\<rparr>"
    and mv: "moves sol (Suc n) (main_owns n (blocks n elements malloc)) i a (stacks s) P'"
    and pr: "pool_reach sol (Suc n) links (main_owns n (blocks n elements malloc)) P'"
    using on_stack_moves [OF inv db fr on] by blast
  have w0: "word0 (P' j) = word0 (stacks s j)" for j using moves_word0 [OF mv] a by auto
  have ag: "agree u (stacks s) P'" if "u \<le> n" for u
    using mv that by (elim movesE) (auto intro: env_agree [OF _ _ _ a])
  have worker: "worker_ok n s' u" if "u < n" for u
    using shuffle_invD(1) [OF inv that] worker_ok_cong [of u s s' n] ag that by (simp add: s')
  have pc: "\<exists>pc'. thr (P' k) n = Some (q, pc') \<and> (current pc (stacks s k) \<longrightarrow> current pc' (P' k))"
    if thr: "thr (stacks s k) n = Some (q, pc)" for k q pc
    using mv
  proof (rule movesE)
    fix x
    assume act: "act sol a (stacks s i) = Some x" and P': "P' = pool_update (Suc n) i x (stacks s)"
    show ?thesis
    proof (cases "k = i")
      case True
      with env_keeps_pc [OF act a, of n q pc] thr show ?thesis by (simp add: P')
    next
      case False
      with thr show ?thesis by (auto simp: P' intro: current_cong [THEN iffD2])
    qed
  qed
  have "main_ok n elements malloc s'"
    using shuffle_invD(2) [OF inv] ag [of n] w0
    by (auto simp: main_ok_def s' agree_def away_iff split: mpos.splits dest!: pc)
  with inv pr w0 worker show ?thesis by (simp add: shuffle_inv_def s')
qed

section \<open>The program\<close>

lemma ssys_init_parts [simp]:
  "thr (ssys_init sol links own) t = None" "owner (ssys_init sol links own) = own"
  "word0 (ssys_init sol links own) = 0"
  by (simp_all add: ssys_init_def aba_init_def Let_def)

lemma shuffle_init_inv:
  assumes "0 < n"
  shows "shuffle_inv sol n elements malloc links (shuffle_init sol std n elements malloc links)"
  using assms pool_reach.init [of sol "Suc n" links "main_owns n (blocks n elements malloc)"]
  by (auto simp: shuffle_inv_def shuffle_init_def worker_ok_def main_ok_def held_def away_def
      main_owns_def rest_start)

theorem shuffle_reach_inv:
  assumes "shuffle_reach sol std n elements malloc links s" and "distinct_blocks n elements malloc"
    and "0 < n" "n < 2 ^ 32"
  shows "shuffle_inv sol n elements malloc links s"
  using assms(1)
proof (induction rule: shuffle_reach.induct)
  case init
  show ?case by (rule shuffle_init_inv [OF assms(3)])
next
  case (step s a s')
  have fr: "sol = DWCAS \<longrightarrow> (\<forall>j. fresh (stacks s j))" using step.hyps(2) by blast
  note rules = shuffle_worker_inv [OF step.IH assms(2) fr _ assms(4)] shuffle_main_inv [OF step.IH assms(2) fr]
    env_inv [OF step.IH assms(2) fr]
  from step.hyps(3) show ?case
    by (cases a) (auto intro: rules split: if_splits)
qed

text \<open>What the workers report adds up.\<close>

definition finished :: "nat \<Rightarrow> 'v shuffle \<Rightarrow> tid set" where
  "finished n s = {t. t < n \<and> spos s t = Finished}"

definition reports_ok :: "nat \<Rightarrow> 'v shuffle \<Rightarrow> bool" where
  "reports_ok n s \<longleftrightarrow>
     (mpos s \<noteq> Done \<longrightarrow> atomic (overall_stack_operations s)
        = (\<Sum>t \<in> finished n s. stack_operations s t))
     \<and> (mpos s = Done \<longrightarrow> performance s = (\<Sum>t < n. stack_operations s t))"

lemma on_stack_only: "on_stack sol n i a s = Some s' \<Longrightarrow> \<exists>P'. s' = s\<lparr>stacks := P'\<rparr>"
  by (auto simp: on_stack_def split: if_splits)

lemma worker_reports:
  assumes "shuffle_worker sol n t e s = Some s'"
  shows "mpos s' = mpos s" and "spos s t \<noteq> Finished"
    and "u \<noteq> t \<Longrightarrow> spos s' u = spos s u \<and> stack_operations s' u = stack_operations s u"
    and "spos s' t \<noteq> Finished \<Longrightarrow> atomic (overall_stack_operations s') = atomic (overall_stack_operations s)"
    and "spos s' t = Finished \<Longrightarrow>
      atomic (overall_stack_operations s') = atomic (overall_stack_operations s) + stack_operations s' t"
  using assms
  by (auto simp: shuffle_worker_def goto_def add_operations_def Let_def add_fetch_def rmw_def
      dest!: on_stack_only load_end_test_only
      split: spos.splits prod.splits if_splits option.splits stack_result.splits)

lemma worker_reports_ok:
  assumes inv: "shuffle_inv sol n elements malloc links s" and t: "t < n"
    and rep: "reports_ok n s" and step: "shuffle_worker sol n t e s = Some s'"
  shows "reports_ok n s'"
proof -
  note w = worker_reports [OF step]
  have nd: "mpos s \<noteq> Done" "mpos s' \<noteq> Done"
    using shuffle_invD(2) [OF inv] t w(1,2) by (auto simp: main_ok_def split: mpos.splits)
  have "stack_operations s' u = stack_operations s u" if "u \<in> finished n s" for u
    using that w(2) w(3) [of u] by (cases "u = t") (auto simp: finished_def)
  then have same: "(\<Sum>u \<in> finished n s. stack_operations s' u) = (\<Sum>u \<in> finished n s. stack_operations s u)"
    by simp
  show ?thesis
  proof (cases "spos s' t = Finished")
    case True
    have "finished n s' = insert t (finished n s)" using w(3) True t by (auto simp: finished_def, metis+)
    moreover have "t \<notin> finished n s" "finite (finished n s)" using w(2) by (simp_all add: finished_def)
    ultimately show ?thesis using same rep nd w(5) [OF True] by (simp add: reports_ok_def add.commute)
  next
    case False
    have "finished n s' = finished n s" using w(2,3) False unfolding finished_def by (metis (mono_tags, lifting))
    with same show ?thesis using rep nd w(4) [OF False] by (simp add: reports_ok_def)
  qed
qed

lemma main_reports:
  assumes "shuffle_main sol std n elements malloc e s = Some s'"
  obtains (same) "mpos s \<noteq> Done" "mpos s' \<noteq> Done" "stack_operations s' = stack_operations s"
      "spos s' = spos s" "overall_stack_operations s' = overall_stack_operations s"
  | (start) k i where "mpos s = Fill k i" "mpos s' = Running" "stack_operations s' = stack_operations s"
      "\<forall>t < n. spos s' t = Outer" "overall_stack_operations s' = overall_stack_operations s"
  | (finish) k where "mpos s = Count k" "mpos s' = Done" "stack_operations s' = stack_operations s"
      "performance s' = atomic (overall_stack_operations s)"
proof -
  have "mpos s \<noteq> Done \<and> stack_operations s' = stack_operations s
    \<and> (mpos s' \<noteq> Done \<and> spos s' = spos s \<and> overall_stack_operations s' = overall_stack_operations s
       \<or> (\<exists>k i. mpos s = Fill k i) \<and> mpos s' = Running \<and> (\<forall>t < n. spos s' t = Outer)
         \<and> overall_stack_operations s' = overall_stack_operations s
       \<or> (\<exists>k. mpos s = Count k) \<and> mpos s' = Done \<and> performance s' = atomic (overall_stack_operations s))"
    using assms
    by (cases "mpos s")
      (auto simp: shuffle_main_def load_def dest!: on_stack_only
        split: if_splits option.splits stack_result.splits)
  with same start finish show ?thesis by blast
qed

lemma main_reports_ok:
  assumes inv: "shuffle_inv sol n elements malloc links s"
    and rep: "reports_ok n s" and step: "shuffle_main sol std n elements malloc e s = Some s'"
  shows "reports_ok n s'"
  using step
proof (cases rule: main_reports)
  case same
  with rep show ?thesis by (simp add: reports_ok_def finished_def)
next
  case (start k i)
  have "finished n s = {}" "finished n s' = {}"
    using start(1,4) shuffle_invD(2) [OF inv] by (auto simp: main_ok_def finished_def)
  with rep start show ?thesis unfolding reports_ok_def by simp
next
  case (finish k)
  have "finished n s = {..<n}"
    using finish(1) shuffle_invD(2) [OF inv] by (auto simp: main_ok_def finished_def)
  with rep finish show ?thesis unfolding reports_ok_def by simp
qed

theorem shuffle_reach_reports:
  assumes "shuffle_reach sol std n elements malloc links s" and "distinct_blocks n elements malloc"
    and "0 < n" "n < 2 ^ 32"
  shows "reports_ok n s"
  using assms(1)
proof (induction rule: shuffle_reach.induct)
  case init
  show ?case by (simp add: reports_ok_def finished_def shuffle_init_def Atomic_init_def store_def)
next
  case (step s a s')
  note inv = shuffle_reach_inv [OF step.hyps(1) assms(2-4)]
  have env: "on_stack sol n i b s = Some s' \<Longrightarrow> reports_ok n s'" for i b
    using step.IH by (auto simp: reports_ok_def finished_def dest!: on_stack_only)
  from step.hyps(3) show ?case
    by (cases a) (auto intro: worker_reports_ok [OF inv _ step.IH] main_reports_ok [OF inv step.IH] env
        split: if_splits)
qed

section \<open>A run to the end\<close>

text \<open>One worker and one block, at 16.\<close>

definition one_block :: "nat \<Rightarrow> nat \<Rightarrow> u32" where
  "one_block k i = 16"

abbreviation shuffle_demo :: "u32 shuffle_action list \<Rightarrow> u32 shuffle \<Rightarrow> u32 shuffle option" where
  "shuffle_demo \<equiv> shuffle_run LLSC CXX20 1 1 one_block"

text \<open>No operation is running: the program counters, the top of stack 0, the owner of the block
  and the flag.\<close>

definition demo_at ::
    "u32 shuffle \<Rightarrow> mpos \<Rightarrow> u32 spos \<Rightarrow> u32 \<Rightarrow> tid option \<Rightarrow> bool \<Rightarrow> bool" where
  "demo_at s m p w own stop \<longleftrightarrow>
     mpos s = m \<and> spos s 0 = p \<and> (\<forall>j t. thr (stacks s j) t = None) \<and> word0 (stacks s 0) = w
     \<and> owner (stacks s 0) 16 = own \<and> heap (stacks s 0) 16 = 0 \<and> push_thread s 0 = 0
     \<and> atomic (end_test s) = stop"

lemma shuffle_run_append:
  "shuffle_run sol std n el malloc as s = Some s1 \<Longrightarrow> shuffle_run sol std n el malloc bs s1 = Some s2 \<Longrightarrow>
   shuffle_run sol std n el malloc (as @ bs) s = Some s2"
  by (induction sol std n el malloc "as" s rule: shuffle_run.induct) (auto split: option.splits)

lemma shuffle_run_reach:
  "shuffle_run sol std n el malloc as s = Some s' \<Longrightarrow> sol \<noteq> DWCAS \<Longrightarrow>
   shuffle_reach sol std n el malloc links s \<Longrightarrow> shuffle_reach sol std n el malloc links s'"
  by (induction sol std n el malloc "as" s rule: shuffle_run.induct)
    (auto split: option.splits intro: shuffle_reach.step)

lemmas shuffle_eval = shuffle_worker_def shuffle_main_def on_stack_def result_at_def goto_def
  add_operations_def load_end_test_def load_def store_def add_fetch_def rmw_def one_block_def Let_def

lemma demo_fill:
  assumes "demo_at s (Fill 0 0) p 0 (Some 1) False"
  shows "\<exists>s'. shuffle_demo [Main Whole, Main Whole, Main Whole, Main Whole, Main Whole] s = Some s'
     \<and> demo_at s' (Fill 0 1) p 16 None False"
  using assms by (simp add: demo_at_def shuffle_eval pool_eval)

lemma demo_start:
  assumes "demo_at s (Fill 0 1) p 16 None False"
  shows "\<exists>s'. shuffle_demo [Main Whole, Main Whole, Worker 0 Whole] s = Some s'
     \<and> demo_at s' Running Inner 16 None False"
  using assms by (simp add: demo_at_def shuffle_eval)

lemma demo_pop:
  assumes "demo_at s Running Inner 16 None False"
  shows "\<exists>s'. shuffle_demo [Worker 0 Whole, Worker 0 Whole, Worker 0 Whole, Worker 0 Whole, Worker 0 Whole] s
       = Some s'
     \<and> demo_at s' Running (Got 16) 0 (Some 0) False"
  using assms by (simp add: demo_at_def shuffle_eval pool_eval)

lemma demo_push:
  assumes "demo_at s Running (Got 16) 0 (Some 0) False"
  shows "\<exists>s'. shuffle_demo [Worker 0 Whole, Worker 0 Whole, Worker 0 Whole, Worker 0 Whole, Worker 0 Whole] s
       = Some s'
     \<and> demo_at s' Running Inner 16 None False"
  using assms by (simp add: demo_at_def shuffle_eval pool_eval)

lemma demo_stop:
  assumes "demo_at s Running Inner 16 None False"
  shows "\<exists>s'. shuffle_demo [Main Whole, Worker 0 Whole, Worker 0 Whole, Worker 0 Whole, Main Whole] s = Some s'
     \<and> demo_at s' (Count 0) Finished 16 None True"
  using assms by (simp add: demo_at_def shuffle_eval)

lemma demo_count:
  assumes "demo_at s (Count 0) p 16 None stop"
  shows "\<exists>s'. shuffle_demo [Main Whole, Main Whole, Main Whole, Main Whole, Main Whole] s = Some s'
     \<and> demo_at s' (Count 0) p 0 (Some 1) stop"
  using assms by (simp add: demo_at_def shuffle_eval pool_eval)

lemma demo_finish:
  assumes "demo_at s (Count 0) p 0 (Some 1) stop"
  shows "\<exists>s'. shuffle_demo [Main Whole, Main Whole, Main Whole, Main Whole, Main Whole] s = Some s'
     \<and> mpos s' = Done"
  using assms by (simp add: demo_at_def shuffle_eval pool_eval)

lemma blocks_one: "blocks (Suc 0) (Suc 0) one_block = {16}"
  by (auto simp: blocks_def one_block_def)

lemma shuffle_demo_reaches_Done:
  "\<exists>s. shuffle_reach LLSC CXX20 1 1 one_block (\<lambda>_. 0) s \<and> mpos s = Done"
proof -
  let ?s = "shuffle_init LLSC CXX20 1 1 one_block (\<lambda>_. 0)"
  have "demo_at ?s (Fill 0 0) Not_started 0 (Some 1) False"
    by (simp add: demo_at_def shuffle_init_def blocks_one main_owns_def ssys_init_def aba_init_def
        Atomic_init_def store_def)
  then obtain "as" s where "shuffle_demo as ?s = Some s" "mpos s = Done"
    using demo_fill demo_start demo_pop demo_push demo_stop demo_count demo_finish shuffle_run_append
    by meson
  with shuffle_run_reach [OF _ _ shuffle_reach.init] show ?thesis by blast
qed

section \<open>Properties\<close>

text \<open>A worker that first runs when the flag is already set reports one operation less than none.\<close>

lemma late_worker_underflows:
  assumes "spos s t = Outer" and "atomic (end_test s)" and "stack_operations s t = 0"
  shows "\<exists>s'. shuffle_worker sol n t e s = Some s' \<and> spos s' t = Reporting
    \<and> stack_operations s' t = 0xFFFFFFFFFFFFFFFF"
  using assms
  by (simp add: shuffle_worker_def load_end_test_def load_def goto_def add_operations_def)

lemma all_collected:
  assumes inv: "shuffle_inv sol n elements malloc links s" and db: "distinct_blocks n elements malloc"
    and fin: "mpos s = Done"
  shows "held (stacks s) n = blocks n elements malloc"
proof -
  let ?own = "main_owns n (blocks n elements malloc)"
  note ok = pool_facts(1) [OF shuffle_invD(3) [OF inv] db]
  have main: "\<forall>t < n. spos s t = Finished" "\<forall>j < n. word0 (stacks s j) = 0"
    using shuffle_invD(2) [OF inv] fin by (simp_all add: main_ok_def)
  have w0: "word0 (stacks s j) = 0" for j
    using main(2) inv by (cases "j < n") (simp_all add: shuffle_inv_def)
  have owned: "(owner (stacks s j) b \<noteq> None) = (b \<in> blocks n elements malloc)" for j b
  proof -
    obtain xs where xs: "stack_inv sol ?own (stacks s j) xs"
      using pool_facts(2) [OF shuffle_invD(3) [OF inv] db] by blast
    have "xs = []" using stack_invD(2) [OF xs] by (cases xs) (simp_all add: w0)
    with stack_invD(5) [OF xs] have "owner (stacks s j) b \<noteq> None \<longleftrightarrow> ?own b \<noteq> None" by auto
    then show ?thesis by (simp add: main_owns_def)
  qed
  have "owner (stacks s 0) b = Some n" if b: "b \<in> blocks n elements malloc" for b
  proof -
    from pool_okD(4) [OF ok, of b] owned b obtain u where u: "u < Suc n" "owner (stacks s 0) b = Some u"
      unfolding placed_def by (metis main_owns_def)
    have "held (stacks s) t = {}" if "t < n" for t
      using shuffle_invD(1) [OF inv that] main(1) that by (simp add: worker_ok_def)
    with u have "\<not> u < n" by (auto simp: held_def)
    with u show ?thesis by (simp add: less_Suc_eq)
  qed
  with owned show ?thesis by (auto simp: held_def)
qed

text \<open>C20. The concurrent stack test passes. However the workers and the main thread are scheduled,
  whatever monitors are lost and whatever racy reads return: when the main thread has emptied all
  stacks it has every block exactly once, the number it counted is the number of pushed blocks, and
  the reported number of operations is the sum of the workers' own counts. On DWCAS the
  executions are those in which no stack's counter makes a whole turn during an attempt in
  progress.\<close>

theorem shuffle_counts_agree:
  assumes "shuffle_reach sol std n elements malloc links s" and "distinct_blocks n elements malloc"
    and "0 < n" "n < 2 ^ 32" and "mpos s = Done"
  shows "counted s = expected s \<and> expected s = of_nat (n * elements)
    \<and> held (stacks s) n = blocks n elements malloc
    \<and> performance s = (\<Sum>t < n. stack_operations s t)"
proof -
  note inv = shuffle_reach_inv [OF assms(1-4)]
  have "counted s = of_nat (card (blocks n elements malloc))" "expected s = of_nat (n * elements)"
    using shuffle_invD(2) [OF inv] all_collected [OF inv assms(2,5)] assms(5) by (simp_all add: main_ok_def)
  with card_blocks [OF assms(2)] all_collected [OF inv assms(2,5)]
    shuffle_reach_reports [OF assms(1-4)] assms(5)
  show ?thesis by (simp add: reports_ok_def)
qed

theorem shuffle_counts_agree_witness:
  "\<exists>s. shuffle_reach LLSC CXX20 1 1 one_block (\<lambda>_. 0) s \<and> mpos s = Done
     \<and> counted s = 1 \<and> expected s = 1 \<and> held (stacks s) 1 = {16}"
proof -
  obtain s where s: "shuffle_reach LLSC CXX20 1 1 one_block (\<lambda>_. 0) s" "mpos s = Done"
    using shuffle_demo_reaches_Done by blast
  have "distinct_blocks 1 1 one_block"
    by (simp add: distinct_blocks_def blocks_one inj_on_def)
  from shuffle_counts_agree [OF s(1) this _ _ s(2)] s show ?thesis by (auto simp: blocks_one)
qed

end
