(* ===== verification/Test_Timeout.thy ===== *)
theory Test_Timeout
  imports Futex_System
begin

text \<open>
  The test of \<open>test_futex.cpp\<close> with short timeouts: workers that acquire one futex with
  \<open>trylock_timeout\<close> and detect with an atomic counter whether two of them are inside.
\<close>

section \<open>State\<close>

text \<open>
  \<open>Test_flag\<close>: at the loop test; \<open>Try\<close> and \<open>Trying\<close>: before and inside \<open>trylock_timeout\<close>;
  \<open>Fetched v\<close>: after \<open>add_fetch\<close> has returned \<open>v\<close>; \<open>Noted\<close>: after \<open>or_fetch\<close>; \<open>Marked\<close>: after the
  store to \<open>test_locked\<close>; \<open>Left\<close> and \<open>Releasing\<close>: before and inside \<open>unlock\<close>; \<open>Late\<close>: when
  \<open>trylock_timeout\<close> has returned false. A worker whose call has thrown takes no further step.
\<close>

datatype tpos =
    Test_flag | Try | Trying | Fetched u32 | Noted | Marked | Left | Releasing | Late | Ended

text \<open>The objects the lambda captures by reference; \<open>n_inside\<close> is its \<open>inside\<close>. \<open>attempted\<close> is a
  ghost: whether a worker has entered the body of the loop.\<close>

record timeouts =
  futex :: futex_sys
  stop :: "bool cell"
  test_locked :: "bool cell"
  test_timeout :: "bool cell"
  n_inside :: "u32 cell"
  detector :: "u32 cell"
  tpos :: "tid \<Rightarrow> tpos"
  tview :: "tid \<Rightarrow> tview"
  attempted :: bool

definition fresh_cell :: "cxx_std \<Rightarrow> tid \<Rightarrow> 'v \<Rightarrow> 'v cell" where
  "fresh_cell std t v = snd (Atomic_init std t v (tview_init, \<lparr>atomic = v, heads = []\<rparr>))"

definition timeouts_init :: "cxx_std \<Rightarrow> nat \<Rightarrow> tid \<Rightarrow> timeouts" where
  "timeouts_init std n main =
     \<lparr>futex = futex_init std None, stop = fresh_cell std main False,
      test_locked = fresh_cell std main False, test_timeout = fresh_cell std main False,
      n_inside = fresh_cell std main 0, detector = fresh_cell std main 0,
      tpos = (\<lambda>t. if t < n then Test_flag else Ended), tview = (\<lambda>_. tview_init),
      attempted = False\<rparr>"

section \<open>Steps\<close>

definition on_futex :: "tid \<Rightarrow> tpos \<Rightarrow> futex_sys option \<Rightarrow> timeouts \<Rightarrow> timeouts option" where
  "on_futex t p f s = map_option (\<lambda>f'. s\<lparr>futex := f', tpos := (tpos s)(t := p)\<rparr>) f"

text \<open>A worker has used an atomic object and has the view \<open>v\<close>.\<close>

definition seen :: "tid \<Rightarrow> tview \<Rightarrow> tpos \<Rightarrow> timeouts \<Rightarrow> timeouts" where
  "seen t v p s = s\<lparr>tview := (tview s)(t := v), tpos := (tpos s)(t := p)\<rparr>"

definition one_ns :: timespec where
  "one_ns = \<lparr>tv_sec = 0, tv_nsec = 1\<rparr>"

definition timeout_worker ::
    "cxx_std \<Rightarrow> futex_kernel \<Rightarrow> tid \<Rightarrow> timeouts \<Rightarrow> timeouts option" where
  "timeout_worker std K t s =
     (case tpos s t of
        Test_flag \<Rightarrow>
          (case load RELAXED (tview s t, stop s) of
             (stopped, v, c) \<Rightarrow> Some (seen t v (if stopped = False then Try else Ended) (s\<lparr>stop := c\<rparr>)))
      | Try \<Rightarrow>
          on_futex t Trying (fact std K (Call_trylock_timeout t (Some one_ns)) (futex s)) (s\<lparr>attempted := True\<rparr>)
      | Trying \<Rightarrow>
          (case pc (futex s) t of
             Locked \<Rightarrow>
               (case add_fetch RELAXED t 1 (tview s t, n_inside s) of
                  (fetched, v, c) \<Rightarrow> Some (seen t v (Fetched fetched) (s\<lparr>n_inside := c\<rparr>)))
           | Refused \<Rightarrow> Some (s\<lparr>tpos := (tpos s)(t := Late)\<rparr>)
           | _ \<Rightarrow> on_futex t Trying (fact std K (Run t) (futex s)) s)
      | Fetched fetched \<Rightarrow>
          (case or_fetch RELAXED t fetched (tview s t, detector s) of
             (_, v, c) \<Rightarrow> Some (seen t v Noted (s\<lparr>detector := c\<rparr>)))
      | Noted \<Rightarrow>
          (case store std RELAXED t True (tview s t, test_locked s) of
             (v, c) \<Rightarrow> Some (seen t v Marked (s\<lparr>test_locked := c\<rparr>)))
      | Marked \<Rightarrow>
          (case sub_fetch RELAXED t 1 (tview s t, n_inside s) of
             (_, v, c) \<Rightarrow> Some (seen t v Left (s\<lparr>n_inside := c\<rparr>)))
      | Left \<Rightarrow> on_futex t Releasing (fact std K (Call_unlock t) (futex s)) s
      | Releasing \<Rightarrow>
          if pc (futex s) t = Idle then Some (s\<lparr>tpos := (tpos s)(t := Test_flag)\<rparr>)
          else on_futex t Releasing (fact std K (Run t) (futex s)) s
      | Late \<Rightarrow>
          (case store std RELAXED t True (tview s t, test_timeout s) of
             (v, c) \<Rightarrow> Some (seen t v Test_flag (s\<lparr>test_timeout := c\<rparr>)))
      | Ended \<Rightarrow> None)"

text \<open>Besides, system calls return or fail, and the main thread sets \<open>stop\<close>.\<close>

datatype timeout_action =
    Worker tid
  | Kernel tid wait_result
  | Kernel_error tid errno
  | Stop tid

fun timeout_act ::
    "cxx_std \<Rightarrow> futex_kernel \<Rightarrow> timeout_action \<Rightarrow> timeouts \<Rightarrow> timeouts option" where
  "timeout_act std K (Worker t) s = timeout_worker std K t s"
| "timeout_act std K (Kernel t r) s =
     (if tpos s t = Trying then on_futex t Trying (fact std K (Wait_returns t r) (futex s)) s
      else None)"
| "timeout_act std K (Kernel_error t e) s =
     (if tpos s t = Releasing then on_futex t Releasing (fact std K (Wake_fails t e) (futex s)) s
      else None)"
| "timeout_act std K (Stop main) s =
     Some (s\<lparr>stop := snd (store std RELAXED main True (tview s main, stop s))\<rparr>)"

inductive timeout_reach :: "cxx_std \<Rightarrow> futex_kernel \<Rightarrow> nat \<Rightarrow> tid \<Rightarrow> timeouts \<Rightarrow> bool"
  for std K n main where
  init: "timeout_reach std K n main (timeouts_init std n main)"
| step: "timeout_reach std K n main s \<Longrightarrow> timeout_act std K a s = Some s' \<Longrightarrow>
     timeout_reach std K n main s'"

fun timeout_run ::
    "cxx_std \<Rightarrow> futex_kernel \<Rightarrow> timeout_action list \<Rightarrow> timeouts \<Rightarrow> timeouts option" where
  "timeout_run std K [] s = Some s"
| "timeout_run std K (a # as) s =
     (case timeout_act std K a s of None \<Rightarrow> None | Some s' \<Rightarrow> timeout_run std K as s')"

text \<open>The three checks after the threads have been joined.\<close>

definition timeout_checks :: "tid \<Rightarrow> timeouts \<Rightarrow> bool list" where
  "timeout_checks main s =
     [fst (load RELAXED (tview s main, detector s)) = 1,
      fst (load RELAXED (tview s main, test_locked s)) = True,
      fst (load RELAXED (tview s main, test_timeout s)) = True]"

section \<open>What a step does\<close>

inductive timeout_step :: "cxx_std \<Rightarrow> futex_kernel \<Rightarrow> timeouts \<Rightarrow> timeouts \<Rightarrow> bool" for std K s where
  halt: "timeout_step std K s (s\<lparr>stop := c\<rparr>)"
| flag: "tpos s t = Test_flag \<Longrightarrow> p = Try \<or> p = Ended \<Longrightarrow>
    timeout_step std K s (seen t v p (s\<lparr>stop := c\<rparr>))"
| call: "tpos s t = Try \<Longrightarrow> fact std K (Call_trylock_timeout t (Some one_ns)) (futex s) = Some f \<Longrightarrow>
    timeout_step std K s (s\<lparr>attempted := True, futex := f, tpos := (tpos s)(t := Trying)\<rparr>)"
| acquiring: "tpos s t = Trying \<Longrightarrow> thread_of a = t \<Longrightarrow> fact std K a (futex s) = Some f \<Longrightarrow>
    pc (futex s) t \<noteq> Locked \<Longrightarrow>
    timeout_step std K s (s\<lparr>futex := f, tpos := (tpos s)(t := Trying)\<rparr>)"
| enter: "tpos s t = Trying \<Longrightarrow> pc (futex s) t = Locked \<Longrightarrow> atomic c = atomic (n_inside s) + 1 \<Longrightarrow>
    timeout_step std K s (seen t v (Fetched (atomic c)) (s\<lparr>n_inside := c\<rparr>))"
| refused: "tpos s t = Trying \<Longrightarrow> pc (futex s) t = Refused \<Longrightarrow>
    timeout_step std K s (s\<lparr>tpos := (tpos s)(t := Late)\<rparr>)"
| detect: "tpos s t = Fetched w \<Longrightarrow> atomic c = or (atomic (detector s)) w \<Longrightarrow>
    timeout_step std K s (seen t v Noted (s\<lparr>detector := c\<rparr>))"
| mark: "tpos s t = Noted \<Longrightarrow> atomic c \<Longrightarrow>
    timeout_step std K s (seen t v Marked (s\<lparr>test_locked := c\<rparr>))"
| leave: "tpos s t = Marked \<Longrightarrow> atomic c = atomic (n_inside s) - 1 \<Longrightarrow>
    timeout_step std K s (seen t v Left (s\<lparr>n_inside := c\<rparr>))"
| unlock: "tpos s t = Left \<Longrightarrow> fact std K (Call_unlock t) (futex s) = Some f \<Longrightarrow>
    timeout_step std K s (s\<lparr>futex := f, tpos := (tpos s)(t := Releasing)\<rparr>)"
| waking: "tpos s t = Releasing \<Longrightarrow> a = Run t \<or> (\<exists>e. a = Wake_fails t e) \<Longrightarrow>
    fact std K a (futex s) = Some f \<Longrightarrow>
    timeout_step std K s (s\<lparr>futex := f, tpos := (tpos s)(t := Releasing)\<rparr>)"
| again: "tpos s t = Releasing \<Longrightarrow> pc (futex s) t = Idle \<Longrightarrow>
    timeout_step std K s (s\<lparr>tpos := (tpos s)(t := Test_flag)\<rparr>)"
| late: "tpos s t = Late \<Longrightarrow> timeout_step std K s (seen t v Test_flag (s\<lparr>test_timeout := c\<rparr>))"

inductive_cases timeout_stepE: "timeout_step std K s s'"

lemma on_futex_Some:
  "on_futex t p m s = Some s' \<longleftrightarrow>
     (\<exists>f. m = Some f \<and> s' = s\<lparr>futex := f, tpos := (tpos s)(t := p)\<rparr>)"
  by (auto simp: on_futex_def)

lemma waiting_not_locked:
  "fact std K (Run t) f = Some f' \<Longrightarrow> pc f t \<noteq> Locked"
  "fact std K (Wait_returns t r) f = Some f' \<Longrightarrow> pc f t \<noteq> Locked"
  by (auto split: if_splits)

text \<open>The atomic counters after the operations of the worker.\<close>

lemma counter_ops:
  "add_fetch mo t k (v, c) = (r, v', c') \<Longrightarrow> r = atomic c' \<and> atomic c' = atomic c + k"
  "sub_fetch mo t k (v, c) = (r, v', c') \<Longrightarrow> atomic c' = atomic c - k"
  "or_fetch mo t k (v, c) = (r, v', c') \<Longrightarrow> atomic c' = or (atomic c) k"
  "store std mo t x (v, d) = (v', d') \<Longrightarrow> atomic d' = x"
  by (auto simp: add_fetch_def sub_fetch_def or_fetch_def rmw_def store_def Let_def)

lemma timeout_worker_step: "timeout_worker std K t s = Some s' \<Longrightarrow> timeout_step std K s s'"
proof -
  assume act: "timeout_worker std K t s = Some s'"
  show ?thesis
  proof (cases "tpos s t")
    case Test_flag
    with act show ?thesis
      by (auto simp: timeout_worker_def split: prod.splits if_splits intro!: timeout_step.flag)
  next
    case Try
    with act show ?thesis
      by (auto simp: timeout_worker_def on_futex_Some simp del: fact.simps intro!: timeout_step.call)
  next
    case Trying
    with act show ?thesis
      by (auto simp: timeout_worker_def on_futex_Some simp del: fact.simps
          split: fpc.splits prod.splits intro!: timeout_step.acquiring [where a = "Run t"]
          timeout_step.enter timeout_step.refused dest: counter_ops)
  next
    case (Fetched w)
    with act show ?thesis
      by (auto simp: timeout_worker_def split: prod.splits intro!: timeout_step.detect dest: counter_ops)
  next
    case Noted
    with act show ?thesis
      by (auto simp: timeout_worker_def split: prod.splits intro!: timeout_step.mark dest: counter_ops)
  next
    case Marked
    with act show ?thesis
      by (auto simp: timeout_worker_def split: prod.splits intro!: timeout_step.leave dest: counter_ops)
  next
    case Left
    with act show ?thesis
      by (auto simp: timeout_worker_def on_futex_Some simp del: fact.simps intro!: timeout_step.unlock)
  next
    case Releasing
    with act show ?thesis
      by (auto simp: timeout_worker_def on_futex_Some simp del: fact.simps split: if_splits
          intro!: timeout_step.again intro: timeout_step.waking)
  next
    case Late
    with act show ?thesis
      by (auto simp: timeout_worker_def split: prod.splits intro!: timeout_step.late)
  next
    case Ended
    with act show ?thesis by (simp add: timeout_worker_def)
  qed
qed

lemma timeout_act_step: "timeout_act std K a s = Some s' \<Longrightarrow> timeout_step std K s s'"
proof (cases a)
  case (Kernel t r)
  assume "timeout_act std K a s = Some s'"
  with Kernel show ?thesis
    by (auto simp: on_futex_Some simp del: fact.simps split: if_splits
        intro!: timeout_step.acquiring [where a = "Wait_returns t r"] dest: waiting_not_locked(2))
next
  case (Kernel_error t e)
  assume "timeout_act std K a s = Some s'"
  with Kernel_error show ?thesis
    by (auto simp: on_futex_Some simp del: fact.simps split: if_splits intro: timeout_step.waking)
qed (auto intro: timeout_worker_step timeout_step.halt)

section \<open>The invariant\<close>

text \<open>Counted by \<open>inside\<close>; and between the return of \<open>trylock_timeout\<close> and the call of \<open>unlock\<close>.\<close>

fun counted :: "tpos \<Rightarrow> bool" where
  "counted (Fetched v) \<longleftrightarrow> True"
| "counted Noted \<longleftrightarrow> True"
| "counted Marked \<longleftrightarrow> True"
| "counted _ \<longleftrightarrow> False"

definition holding :: "tpos \<Rightarrow> bool" where
  "holding p \<longleftrightarrow> counted p \<or> p = Left"

definition guarded_inv :: "timeouts \<Rightarrow> bool" where
  "guarded_inv s \<longleftrightarrow>
     mutex_inv (futex s)
     \<and> (\<forall>t. holding (tpos s t) \<longrightarrow> pc (futex s) t = Locked)"

text \<open>What the workers have stored.\<close>

definition detector_inv :: "timeouts \<Rightarrow> bool" where
  "detector_inv s \<longleftrightarrow>
     atomic (n_inside s) = (if \<exists>t. counted (tpos s t) then 1 else 0)
     \<and> (\<forall>t v. tpos s t = Fetched v \<longrightarrow> v = 1)
     \<and> atomic (detector s) \<in> {0, 1}
     \<and> ((\<exists>t. tpos s t = Noted) \<or> atomic (test_locked s) \<longrightarrow> atomic (detector s) = 1)"

lemma guarded_invD:
  assumes "guarded_inv s"
  shows "mutex_inv (futex s)" "holding (tpos s t) \<Longrightarrow> pc (futex s) t = Locked"
    "counted (tpos s t) \<Longrightarrow> pc (futex s) t = Locked"
  using assms by (auto simp: guarded_inv_def holding_def)

lemma seen_simps [simp]:
  "tpos (seen t v p s) = (tpos s)(t := p)" "futex (seen t v p s) = futex s"
  "n_inside (seen t v p s) = n_inside s" "detector (seen t v p s) = detector s"
  "test_locked (seen t v p s) = test_locked s" "attempted (seen t v p s) = attempted s"
  "test_timeout (seen t v p s) = test_timeout s"
  by (simp_all add: seen_def)

text \<open>Two workers inside are one, by the contract of the futex.\<close>

lemma counted_unique:
  "guarded_inv s \<Longrightarrow> pc (futex s) t = Locked \<Longrightarrow> counted (tpos s u) \<Longrightarrow> u = t"
  using futex_lock.exclusive [OF guarded_invD(1)] guarded_invD(3) by blast

lemma guarded_inv_futex:
  assumes inv: "guarded_inv s" and act: "fact std K a (futex s) = Some f" "thread_of a = t"
    and s': "futex s' = f" "tpos s' = (tpos s)(t := p)" and p: "\<not> holding p"
  shows "guarded_inv s'"
proof -
  have steps: "futex_steps std K t (futex s) f" using act by (auto simp: futex_steps_def)
  have "mutex_inv f" by (rule futex_lock.keeps [OF guarded_invD(1) [OF inv] steps])
  moreover have "pc f u = Locked" if "holding (tpos s u)" "u \<noteq> t" for u
    using futex_lock.undisturbed [OF guarded_invD(1) [OF inv] steps that(2)]
      guarded_invD(2) [OF inv that(1)] by simp
  ultimately show ?thesis using p s' by (simp add: guarded_inv_def)
qed

lemma guarded_inv_local:
  assumes "guarded_inv s" and "futex s' = futex s" and "tpos s' = (tpos s)(t := p)"
    and "holding p \<Longrightarrow> pc (futex s) t = Locked"
  shows "guarded_inv s'"
  using assms by (auto simp: guarded_inv_def)

lemma guarded_inv_step:
  assumes inv: "guarded_inv s" and "timeout_step std K s s'"
  shows "guarded_inv s'"
  using assms(2)
proof (cases rule: timeout_step.cases)
  case (halt c)
  with inv show ?thesis by (simp add: guarded_inv_def)
next
  case (call t f)
  then show ?thesis by (intro guarded_inv_futex [where p = Trying, OF inv call(3)]) (simp_all add: holding_def)
next
  case (acquiring t a f)
  then show ?thesis by (intro guarded_inv_futex [where p = Trying, OF inv acquiring(4,3)]) (simp_all add: holding_def)
next
  case (unlock t f)
  then show ?thesis by (intro guarded_inv_futex [where p = Releasing, OF inv unlock(3)]) (simp_all add: holding_def)
next
  case (waking t a f)
  then show ?thesis by (intro guarded_inv_futex [where p = Releasing, OF inv waking(4)]) (auto simp: holding_def)
next
  case (flag t p v c)
  then show ?thesis by (intro guarded_inv_local [OF inv, of s' t p]) (auto simp: holding_def)
next
  case (enter t c v)
  then show ?thesis by (intro guarded_inv_local [OF inv, of s' t "Fetched (atomic c)"]) simp_all
next
  case (detect t w c v)
  then show ?thesis
    using guarded_invD(2) [OF inv, of t] by (intro guarded_inv_local [OF inv, of s' t Noted]) (simp_all add: holding_def)
next
  case (mark t c v)
  then show ?thesis
    using guarded_invD(2) [OF inv, of t] by (intro guarded_inv_local [OF inv, of s' t Marked]) (simp_all add: holding_def)
next
  case (leave t c v)
  then show ?thesis
    using guarded_invD(2) [OF inv, of t] by (intro guarded_inv_local [OF inv, of s' t Left]) (simp_all add: holding_def)
next
  case (refused t)
  then show ?thesis by (intro guarded_inv_local [OF inv, of s' t Late]) (simp_all add: holding_def)
next
  case (again t)
  then show ?thesis by (intro guarded_inv_local [OF inv, of s' t Test_flag]) (simp_all add: holding_def)
next
  case (late t v c)
  then show ?thesis by (intro guarded_inv_local [OF inv, of s' t Test_flag]) (simp_all add: holding_def)
qed

text \<open>A step that leaves the counters alone and moves a thread that is not counted.\<close>

lemma detector_inv_same:
  assumes "detector_inv s" and "n_inside s' = n_inside s" "detector s' = detector s"
    "test_locked s' = test_locked s" and "tpos s' = (tpos s)(t := p)"
    and "\<not> counted p" "\<not> counted (tpos s t)"
  shows "detector_inv s'"
proof -
  have "(\<exists>u. counted (tpos s' u)) = (\<exists>u. counted (tpos s u))"
    using assms(5-7) by (metis fun_upd_apply)
  moreover have "\<forall>u v. tpos s' u = Fetched v \<longrightarrow> tpos s u = Fetched v"
    "\<forall>u. tpos s' u = Noted \<longrightarrow> tpos s u = Noted"
    using assms(5,6) by auto
  ultimately show ?thesis using assms(1-4) unfolding detector_inv_def by simp blast
qed

lemma detector_invD:
  assumes "detector_inv s"
  shows "atomic (n_inside s) = (if \<exists>t. counted (tpos s t) then 1 else 0)"
    "tpos s t = Fetched v \<Longrightarrow> v = 1" "atomic (detector s) = 0 \<or> atomic (detector s) = 1"
    "tpos s t = Noted \<Longrightarrow> atomic (detector s) = 1"
    "atomic (test_locked s) \<Longrightarrow> atomic (detector s) = 1"
  using assms by (auto simp: detector_inv_def)

lemma detector_invI:
  assumes "atomic (n_inside s) = (if \<exists>t. counted (tpos s t) then 1 else 0)"
    and "\<And>t v. tpos s t = Fetched v \<Longrightarrow> v = 1" "atomic (detector s) = 0 \<or> atomic (detector s) = 1"
    and "\<And>t. tpos s t = Noted \<Longrightarrow> atomic (detector s) = 1"
    and "atomic (test_locked s) \<Longrightarrow> atomic (detector s) = 1"
  shows "detector_inv s"
  using assms unfolding detector_inv_def by blast

text \<open>The worker inside is the only one there is.\<close>

lemma alone_inside:
  assumes "guarded_inv s" and "counted (tpos s t)" and "tpos s' = (tpos s)(t := p)"
  shows "counted (tpos s' u) \<longleftrightarrow> u = t \<and> counted p"
  using counted_unique [OF assms(1) guarded_invD(3) [OF assms(1,2)], of u] assms(3) by auto

lemma detector_inv_alone:
  assumes "guarded_inv s" and "counted (tpos s t)" and "tpos s' = (tpos s)(t := p)"
    and "atomic (n_inside s') = (if counted p then 1 else 0)" and "\<And>v. p \<noteq> Fetched v"
    and "atomic (detector s') = 0 \<or> atomic (detector s') = 1"
    and "p = Noted \<or> atomic (test_locked s') \<Longrightarrow> atomic (detector s') = 1"
  shows "detector_inv s'"
proof -
  note al = alone_inside [OF assms(1-3)]
  have "tpos s' u \<noteq> Fetched v" and "tpos s' u = Noted \<Longrightarrow> p = Noted" for u v
    using al [of u] assms(3,5) by (auto split: if_splits)
  moreover have "(\<exists>u. counted (tpos s' u)) = counted p" using al by auto
  ultimately show ?thesis using assms(4,6,7) by (intro detector_invI) auto
qed

lemma inside_one: "detector_inv s \<Longrightarrow> counted (tpos s t) \<Longrightarrow> atomic (n_inside s) = 1"
  using detector_invD(1) by auto

lemma detector_inv_step:
  assumes inv: "detector_inv s" and g: "guarded_inv s" and "timeout_step std K s s'"
  shows "detector_inv s'"
  using assms(3)
proof (cases rule: timeout_step.cases)
  case (enter t c v)
  have none: "\<not> counted (tpos s u)" for u
    using counted_unique [OF g enter(3), of u] enter(2) by auto
  then have "atomic (n_inside s) = 0" using detector_invD(1) [OF inv] by simp
  with enter(4) have c: "atomic c = 1" by simp
  have p: "tpos s u \<noteq> Fetched w" "tpos s u \<noteq> Noted" for u w
    using none [of u] by auto
  show ?thesis
    by (rule detector_invI)
      (use enter c p none detector_invD(3,5) [OF inv] in \<open>auto split: if_splits\<close>)
next
  case (detect t w c v)
  have "atomic c = 1" using detector_invD(2) [OF inv detect(2)] detector_invD(3) [OF inv] detect(3) by auto
  with detect inside_one [OF inv, of t] show ?thesis
    by (intro detector_inv_alone [OF g, of t s' Noted]) simp_all
next
  case (mark t c v)
  with detector_invD(4) [OF inv mark(2)] inside_one [OF inv, of t] show ?thesis
    by (intro detector_inv_alone [OF g, of t s' Marked]) simp_all
next
  case (leave t c v)
  with detector_invD(3,5) [OF inv] inside_one [OF inv, of t] show ?thesis
    by (intro detector_inv_alone [OF g, of t s' Left]) simp_all
next
  case (halt c)
  with inv show ?thesis by (simp add: detector_inv_def)
next
  case (flag t p v c)
  then show ?thesis by (intro detector_inv_same [OF inv, where t = t and p = p]) auto
next
  case (call t f)
  then show ?thesis by (intro detector_inv_same [OF inv, where t = t and p = Trying]) simp_all
next
  case (acquiring t a f)
  then show ?thesis by (intro detector_inv_same [OF inv, where t = t and p = Trying]) simp_all
next
  case (refused t)
  then show ?thesis by (intro detector_inv_same [OF inv, where t = t and p = Late]) simp_all
next
  case (unlock t f)
  then show ?thesis by (intro detector_inv_same [OF inv, where t = t and p = Releasing]) simp_all
next
  case (waking t a f)
  then show ?thesis by (intro detector_inv_same [OF inv, where t = t and p = Releasing]) simp_all
next
  case (again t)
  then show ?thesis by (intro detector_inv_same [OF inv, where t = t and p = Test_flag]) simp_all
next
  case (late t v c)
  then show ?thesis by (intro detector_inv_same [OF inv, where t = t and p = Test_flag]) simp_all
qed

text \<open>The first attempt succeeds, since nobody else has locked the futex before.\<close>

definition leading :: "timeouts \<Rightarrow> tid \<Rightarrow> bool" where
  "leading s t \<longleftrightarrow>
     (tpos s t = Trying \<or> tpos s t = Noted \<or> (\<exists>v. tpos s t = Fetched v)) \<and> pc (futex s) t = Locked"

definition first_inv :: "timeouts \<Rightarrow> bool" where
  "first_inv s \<longleftrightarrow>
     (if attempted s then atomic (test_locked s) \<or> (\<exists>t. leading s t)
      else atomic (value (futex s)) = 0 \<and> (\<forall>t. tpos s t \<in> {Test_flag, Try, Ended}))"

lemma leading_step:
  assumes "leading s t" and g: "guarded_inv s" and step: "timeout_step std K s s'"
  shows "leading s' t \<or> atomic (test_locked s')"
proof -
  have l: "tpos s t = Trying \<or> tpos s t = Noted \<or> (\<exists>v. tpos s t = Fetched v)" "pc (futex s) t = Locked"
    using assms(1) by (auto simp: leading_def)
  have stays: "pc f t = Locked" if "fact std K a (futex s) = Some f" "thread_of a \<noteq> t" for a f
    using fact_other_holds [OF that(1), of t] that(2) l(2) by auto
  from step show ?thesis
  proof (cases rule: timeout_step.cases)
    case (call u f)
    with l stays [OF call(3)] show ?thesis by (auto simp: leading_def)
  next
    case (acquiring u a f)
    with l stays [OF acquiring(4)] show ?thesis by (auto simp: leading_def)
  next
    case (unlock u f)
    with l stays [OF unlock(3)] show ?thesis by (auto simp: leading_def)
  next
    case (waking u a f)
    then have "thread_of a = u" by auto
    with waking l stays [OF waking(4)] show ?thesis by (auto simp: leading_def)
  qed (use l in \<open>auto simp: leading_def\<close>)
qed

lemma test_locked_step: "timeout_step std K s s' \<Longrightarrow> atomic (test_locked s) \<Longrightarrow> atomic (test_locked s')"
  by (erule timeout_stepE) simp_all

lemma first_inv_step:
  assumes inv: "first_inv s" and g: "guarded_inv s" and step: "timeout_step std K s s'"
  shows "first_inv s'"
proof (cases "attempted s")
  case True
  have "attempted s'" using step True by (cases rule: timeout_step.cases) simp_all
  moreover have "atomic (test_locked s') \<or> (\<exists>t. leading s' t)"
    using inv True leading_step [OF _ g step] test_locked_step [OF step] by (auto simp: first_inv_def)
  ultimately show ?thesis by (simp add: first_inv_def)
next
  case False
  with inv have new: "atomic (value (futex s)) = 0" "tpos s t \<in> {Test_flag, Try, Ended}" for t
    by (auto simp: first_inv_def)
  from step show ?thesis
  proof (cases rule: timeout_step.cases)
    case (call t f)
    then have "leading s' t"
      using new(1) by (auto simp: leading_def attempts attempt_simps split: if_splits)
    with call(1) show ?thesis by (auto simp: first_inv_def)
  next
    case (halt c)
    with new False show ?thesis by (simp add: first_inv_def)
  next
    case (flag t p v c)
    with new False show ?thesis by (auto simp: first_inv_def)
  qed (use new(2) in \<open>metis insertE tpos.distinct empty_iff\<close>)+
qed

lemma timeouts_init_inv:
  "guarded_inv (timeouts_init std n main) \<and> detector_inv (timeouts_init std n main)
   \<and> first_inv (timeouts_init std n main)"
proof -
  have "\<not> counted (tpos (timeouts_init std n main) t)" for t
    by (simp add: timeouts_init_def)
  moreover have "atomic (value (futex_init std None)) = 0"
    by (simp add: futex_init_def Atomic_init_def store_def)
  ultimately show ?thesis
    by (auto simp: guarded_inv_def detector_inv_def first_inv_def timeouts_init_def mutex_inv_init holding_def
        fresh_cell_def Atomic_init_def store_def split: if_splits)
qed

lemma timeout_reach_inv:
  "timeout_reach std K n main s \<Longrightarrow> guarded_inv s \<and> detector_inv s \<and> first_inv s"
proof (induction rule: timeout_reach.induct)
  case init
  show ?case by (rule timeouts_init_inv)
next
  case (step s a s')
  from timeout_act_step [OF step.hyps(2)] step.IH show ?case
    by (auto intro: guarded_inv_step detector_inv_step first_inv_step)
qed

section \<open>Properties\<close>

text \<open>Worker 1 waits while worker 0 is inside, and times out; in the second run it does not get to
  the loop before worker 0 has left, and nobody times out.\<close>

definition late_demo :: "timeout_action list" where
  "late_demo =
     map Worker [0, 0, 0, 1, 1, 1, 1] @ [Kernel 1 (Failed ETIMEDOUT)]
     @ map Worker [1, 1, 0, 0, 0, 0, 0, 0, 0] @ [Stop 9, Worker 0, Worker 1]"

definition early_demo :: "timeout_action list" where
  "early_demo = map Worker [0, 0, 0, 0, 0, 0, 0, 0] @ [Stop 9, Worker 0, Worker 1]"

lemmas timeout_eval = futex_eval timeout_worker_def on_futex_def seen_def timeouts_init_def
  fresh_cell_def timeout_checks_def

lemma late_run:
  "\<exists>s. timeout_run CXX20 fifo_kernel late_demo (timeouts_init CXX20 2 9) = Some s
     \<and> (\<forall>t. tpos s t = Ended) \<and> attempted s \<and> timeout_checks 9 s ! 2"
  by (simp add: timeout_eval late_demo_def)

lemma early_run:
  "\<exists>s. timeout_run CXX20 fifo_kernel early_demo (timeouts_init CXX20 2 9) = Some s
     \<and> (\<forall>t. tpos s t = Ended) \<and> attempted s \<and> \<not> timeout_checks 9 s ! 2"
  by (simp add: timeout_eval early_demo_def)

lemma timeout_run_reach:
  "timeout_run std K as s = Some s' \<Longrightarrow> timeout_reach std K n main s \<Longrightarrow> timeout_reach std K n main s'"
  by (induction "as" arbitrary: s) (auto split: option.splits intro: timeout_reach.step)

text \<open>C21. The timeout test of the futex. Under every schedule, kernel behaviour and number of
  workers, at most one worker is between a \<open>trylock_timeout\<close> that has returned true and the call
  of \<open>unlock\<close>, the moment after it has left the counter included, and the detector never
  shows another number than 0 and 1. If any worker has entered its loop, the first two checks
  after the join hold: the very first attempt finds the futex free. The third check, that some
  attempt has timed out, depends on the schedule; the witness has a run of either kind.\<close>

theorem timeout_test_detects:
  assumes "timeout_reach std K n main s"
  shows "(\<forall>t u. holding (tpos s t) \<and> holding (tpos s u) \<longrightarrow> t = u)
    \<and> (atomic (detector s) = 0 \<or> atomic (detector s) = 1)
    \<and> ((\<forall>t. tpos s t = Ended) \<and> attempted s \<longrightarrow> take 2 (timeout_checks main s) = [True, True])"
proof -
  have g: "guarded_inv s" and d: "detector_inv s" and f: "first_inv s"
    using timeout_reach_inv [OF assms] by blast+
  have "t = u" if "holding (tpos s t)" "holding (tpos s u)" for t u
    by (rule futex_lock.exclusive [OF guarded_invD(1,2) [OF g] guarded_invD(2) [OF g]])
      (use that in simp_all)
  moreover have "take 2 (timeout_checks main s) = [True, True]"
    if "\<forall>t. tpos s t = Ended" "attempted s"
  proof -
    have "atomic (test_locked s)" using f that by (auto simp: first_inv_def leading_def)
    with detector_invD(5) [OF d] show ?thesis by (simp add: timeout_checks_def load_def)
  qed
  ultimately show ?thesis using detector_invD(3) [OF d] by blast
qed

theorem timeout_test_detects_witness:
  "\<exists>s s'. timeout_reach CXX20 fifo_kernel 2 9 s \<and> timeout_checks 9 s = [True, True, True]
     \<and> timeout_reach CXX20 fifo_kernel 2 9 s' \<and> timeout_checks 9 s' = [True, True, False]"
proof -
  obtain s s' where run: "timeout_run CXX20 fifo_kernel late_demo (timeouts_init CXX20 2 9) = Some s"
      "timeout_run CXX20 fifo_kernel early_demo (timeouts_init CXX20 2 9) = Some s'"
    and s: "\<forall>t. tpos s t = Ended" "attempted s" "timeout_checks 9 s ! 2"
    and s': "\<forall>t. tpos s' t = Ended" "attempted s'" "\<not> timeout_checks 9 s' ! 2"
    using late_run early_run by blast
  have r: "timeout_reach CXX20 fifo_kernel 2 9 s" "timeout_reach CXX20 fifo_kernel 2 9 s'"
    using timeout_run_reach timeout_reach.init run by blast+
  have "timeout_checks 9 s = [True, True, True]" "timeout_checks 9 s' = [True, True, False]"
    using timeout_test_detects [OF r(1)] timeout_test_detects [OF r(2)] s s'
    by (simp_all add: timeout_checks_def)
  with r show ?thesis by blast
qed

end
