(* ===== verification/Test_Trylock.thy ===== *)
theory Test_Trylock
  imports Futex_System
begin

text \<open>
  The tests \<open>test_trylock_fail\<close> and \<open>test_trylock\<close> of \<open>test_futex.cpp\<close>, with the main thread:
  workers that try to lock the futexes of an array in turn, and count the successes in a plain
  counter under the futex and the failures in an atomic one. In the first test the main
  thread holds all futexes while the workers run, so that no attempt may succeed.
\<close>

section \<open>State\<close>

text \<open>
  A worker: \<open>Await\<close> before it is started; \<open>Test_end i\<close> at the loop test with \<open>thread_access = i\<close>;
  \<open>Do_try i\<close> before \<open>trylock\<close>; \<open>Tried i\<close> when it has returned; \<open>Put i v\<close>: the value read from
  \<open>passes_locked\<close> is \<open>v\<close>, the increment not yet written; \<open>Do_free i\<close> and \<open>Freeing i\<close>: before and
  inside \<open>unlock\<close>. The main thread: \<open>Prepare i\<close>, \<open>Preparing i\<close>, \<open>Zero i\<close>: the first loop, at entry
  \<open>i\<close>, inside \<open>lock\<close>, and after it; \<open>Start\<close>, \<open>Sleep\<close>, \<open>Join\<close>, \<open>Sum i\<close>: the body of \<open>run_for\<close>;
  \<open>Release i\<close>, \<open>Releasing i\<close>: the loop of unlocks; \<open>Check i\<close>: the last loop; \<open>Crashed\<close>: after an
  integer division by zero, whose behaviour is undefined.
\<close>

datatype ypos =
    Await | Test_end nat | Do_try nat | Tried nat | Put nat u32 | Do_free nat | Freeing nat | Stopped

datatype main_pos =
    Prepare nat | Preparing nat | Zero nat | Start | Sleep | Join | Sum nat | Release nat
  | Releasing nat | Check nat | Returned | Thrown | Crashed

text \<open>\<open>total\<close> is the local variable \<open>passes\<close> of \<open>run_for\<close>; \<open>passes\<close> is a ghost: how many passes over
  an entry have been counted in either counter.\<close>

record tryers =
  mutex :: "nat \<Rightarrow> futex_sys"
  passes_locked :: "nat \<Rightarrow> u32"
  passes_atomic :: "nat \<Rightarrow> u32 cell"
  stop_threads :: "bool cell"
  ypos :: "tid \<Rightarrow> ypos"
  yview :: "tid \<Rightarrow> tview"
  main_pos :: main_pos
  total :: u64
  passes :: "nat \<Rightarrow> nat"

text \<open>The vector has value-initialised its entries.\<close>

definition tryers_init :: "cxx_std \<Rightarrow> nat \<Rightarrow> tryers" where
  "tryers_init std main =
     \<lparr>mutex = (\<lambda>_. futex_init std None), passes_locked = (\<lambda>_. 0),
      passes_atomic = (\<lambda>_. \<lparr>atomic = 0, heads = []\<rparr>),
      stop_threads = snd (Atomic_init std main False (tview_init, \<lparr>atomic = False, heads = []\<rparr>)),
      ypos = (\<lambda>_. Await), yview = (\<lambda>_. tview_init), main_pos = Prepare 0, total = 0,
      passes = (\<lambda>_. 0)\<rparr>"

section \<open>Steps\<close>

text \<open>The futex of entry \<open>i\<close> has made a step.\<close>

definition mutex_step :: "nat \<Rightarrow> futex_sys option \<Rightarrow> tryers \<Rightarrow> tryers option" where
  "mutex_step i m s = map_option (\<lambda>f. s\<lparr>mutex := (mutex s)(i := f)\<rparr>) m"

definition at :: "tid \<Rightarrow> ypos \<Rightarrow> tryers \<Rightarrow> tryers" where
  "at t p s = s\<lparr>ypos := (ypos s)(t := p)\<rparr>"

definition main_at :: "main_pos \<Rightarrow> tryers \<Rightarrow> tryers" where
  "main_at p s = s\<lparr>main_pos := p\<rparr>"

definition count_pass :: "nat \<Rightarrow> tryers \<Rightarrow> tryers" where
  "count_pass i s = s\<lparr>passes := (passes s)(i := Suc (passes s i))\<rparr>"

definition try_worker ::
    "cxx_std \<Rightarrow> futex_kernel \<Rightarrow> nat \<Rightarrow> tid \<Rightarrow> tryers \<Rightarrow> tryers option" where
  "try_worker std K n t s =
     (case ypos s t of
        Test_end i \<Rightarrow>
          (case load RELAXED (yview s t, stop_threads s) of
             (stopped, v, c) \<Rightarrow>
               Some (at t (if stopped = False then Do_try i else Stopped)
                       (s\<lparr>yview := (yview s)(t := v), stop_threads := c\<rparr>)))
      | Do_try i \<Rightarrow>
          map_option (at t (Tried i)) (mutex_step i (fact std K (Call_trylock t) (mutex s i)) s)
      | Tried i \<Rightarrow>
          if pc (mutex s i) t = Locked then Some (at t (Put i (passes_locked s i)) s)
          else (case fetch_add SEQ_CST t 1 (yview s t, passes_atomic s i) of
                  (old, v, c) \<Rightarrow>
                    Some (count_pass i (at t (Test_end ((i + 1) mod n))
                            (s\<lparr>yview := (yview s)(t := v),
                               passes_atomic := (passes_atomic s)(i := c)\<rparr>))))
      | Put i v \<Rightarrow>
          Some (count_pass i (at t (Do_free i)
                  (s\<lparr>passes_locked := (passes_locked s)(i := v + 1)\<rparr>)))
      | Do_free i \<Rightarrow>
          map_option (at t (Freeing i)) (mutex_step i (fact std K (Call_unlock t) (mutex s i)) s)
      | Freeing i \<Rightarrow>
          if pc (mutex s i) t = Idle then Some (at t (Test_end ((i + 1) mod n)) s)
          else mutex_step i (fact std K (Run t) (mutex s i)) s
      | _ \<Rightarrow> None)"

text \<open>\<open>fail\<close> tells the two tests apart: \<open>test_trylock_fail\<close> locks the futexes first, and unlocks
  and checks at the end. \<open>n\<close> is also the number of the main thread.\<close>

definition try_main ::
    "cxx_std \<Rightarrow> futex_kernel \<Rightarrow> bool \<Rightarrow> nat \<Rightarrow> tryers \<Rightarrow> tryers option" where
  "try_main std K fail n s =
     (case main_pos s of
        Prepare i \<Rightarrow>
          if i \<ge> n then Some (main_at Start s)
          else if fail
          then map_option (main_at (Preparing i)) (mutex_step i (fact std K (Call_lock n) (mutex s i)) s)
          else Some (main_at (Zero i) s)
      | Preparing i \<Rightarrow>
          if pc (mutex s i) n = Locked then Some (main_at (Zero i) s)
          else mutex_step i (fact std K (Run n) (mutex s i)) s
      | Zero i \<Rightarrow>
          Some (main_at (Prepare (Suc i))
                 (s\<lparr>passes_locked := (passes_locked s)(i := 0),
                    passes_atomic := (passes_atomic s)(i :=
                      snd (store std RELAXED n 0 (yview s n, passes_atomic s i)))\<rparr>))
      | Start \<Rightarrow>
          Some (main_at Sleep (s\<lparr>ypos := (\<lambda>t. if t < n then Test_end 0 else ypos s t)\<rparr>))
      | Sleep \<Rightarrow>
          Some (main_at Join (s\<lparr>stop_threads :=
            snd (store std RELAXED n True (yview s n, stop_threads s))\<rparr>))
      | Join \<Rightarrow>
          if \<forall>t \<in> {..<n}. ypos s t = Stopped then Some (main_at (Sum 0) (s\<lparr>total := 0\<rparr>)) else None
      | Sum i \<Rightarrow>
          if i \<ge> n
          then Some (main_at (if total s = 0 then Crashed else if fail then Release 0 else Returned) s)
          else Some (main_at (Sum (Suc i))
                 (s\<lparr>total := total s + ucast (fst (load RELAXED (yview s n, passes_atomic s i)))\<rparr>))
      | Release i \<Rightarrow>
          if i \<ge> n then Some (main_at (Check 0) s)
          else map_option (main_at (Releasing i)) (mutex_step i (fact std K (Call_unlock n) (mutex s i)) s)
      | Releasing i \<Rightarrow>
          if pc (mutex s i) n = Idle then Some (main_at (Release (Suc i)) s)
          else mutex_step i (fact std K (Run n) (mutex s i)) s
      | Check i \<Rightarrow>
          if i \<ge> n then Some (main_at Returned s)
          else Some (main_at (if passes_locked s i \<noteq> 0 then Thrown else Check (Suc i)) s)
      | _ \<Rightarrow> None)"

text \<open>Besides, a wait of the main thread returns, and wakes fail.\<close>

datatype try_action = Worker tid | Main | Main_kernel wait_result | Kernel_error tid errno

fun try_act ::
    "cxx_std \<Rightarrow> futex_kernel \<Rightarrow> bool \<Rightarrow> nat \<Rightarrow> try_action \<Rightarrow> tryers \<Rightarrow> tryers option" where
  "try_act std K fail n (Worker t) s = (if t < n then try_worker std K n t s else None)"
| "try_act std K fail n Main s = try_main std K fail n s"
| "try_act std K fail n (Main_kernel r) s =
     (case main_pos s of
        Preparing i \<Rightarrow> mutex_step i (fact std K (Wait_returns n r) (mutex s i)) s
      | _ \<Rightarrow> None)"
| "try_act std K fail n (Kernel_error t e) s =
     (case (main_pos s, ypos s t) of
        (Releasing i, _) \<Rightarrow> if t = n then mutex_step i (fact std K (Wake_fails n e) (mutex s i)) s else None
      | (_, Freeing i) \<Rightarrow> if t < n then mutex_step i (fact std K (Wake_fails t e) (mutex s i)) s else None
      | _ \<Rightarrow> None)"

inductive try_reach :: "cxx_std \<Rightarrow> futex_kernel \<Rightarrow> bool \<Rightarrow> nat \<Rightarrow> tryers \<Rightarrow> bool" for std K fail n where
  init: "try_reach std K fail n (tryers_init std n)"
| step: "try_reach std K fail n s \<Longrightarrow> try_act std K fail n a s = Some s' \<Longrightarrow>
     try_reach std K fail n s'"

fun try_run ::
    "cxx_std \<Rightarrow> futex_kernel \<Rightarrow> bool \<Rightarrow> nat \<Rightarrow> try_action list \<Rightarrow> tryers \<Rightarrow> tryers option" where
  "try_run std K fail n [] s = Some s"
| "try_run std K fail n (a # as) s =
     (case try_act std K fail n a s of None \<Rightarrow> None | Some s' \<Rightarrow> try_run std K fail n as s')"

section \<open>What a step does\<close>

lemma mutex_step_Some:
  "mutex_step i m s = Some s' \<longleftrightarrow> (\<exists>f. m = Some f \<and> s' = s\<lparr>mutex := (mutex s)(i := f)\<rparr>)"
  by (auto simp: mutex_step_def)

text \<open>A worker's step: on its futex, on its own variables, or on a counter.\<close>

inductive worker_does ::
    "cxx_std \<Rightarrow> futex_kernel \<Rightarrow> nat \<Rightarrow> tid \<Rightarrow> tryers \<Rightarrow> tryers \<Rightarrow> bool" for std K n t s where
  test: "ypos s t = Test_end i \<Longrightarrow> p = Do_try i \<or> p = Stopped \<Longrightarrow>
    worker_does std K n t s (at t p (s\<lparr>yview := v, stop_threads := c\<rparr>))"
| try_it: "ypos s t = Do_try i \<Longrightarrow> fact std K (Call_trylock t) (mutex s i) = Some f \<Longrightarrow>
    worker_does std K n t s (at t (Tried i) (s\<lparr>mutex := (mutex s)(i := f)\<rparr>))"
| got: "ypos s t = Tried i \<Longrightarrow> pc (mutex s i) t = Locked \<Longrightarrow>
    worker_does std K n t s (at t (Put i (passes_locked s i)) s)"
| missed: "ypos s t = Tried i \<Longrightarrow> pc (mutex s i) t \<noteq> Locked \<Longrightarrow>
    atomic c = atomic (passes_atomic s i) + 1 \<Longrightarrow>
    worker_does std K n t s (count_pass i (at t (Test_end (Suc i mod n))
      (s\<lparr>yview := v, passes_atomic := (passes_atomic s)(i := c)\<rparr>)))"
| put: "ypos s t = Put i v \<Longrightarrow>
    worker_does std K n t s (count_pass i (at t (Do_free i)
      (s\<lparr>passes_locked := (passes_locked s)(i := v + 1)\<rparr>)))"
| free: "ypos s t = Do_free i \<Longrightarrow> fact std K (Call_unlock t) (mutex s i) = Some f \<Longrightarrow>
    worker_does std K n t s (at t (Freeing i) (s\<lparr>mutex := (mutex s)(i := f)\<rparr>))"
| wake: "ypos s t = Freeing i \<Longrightarrow> a = Run t \<or> (\<exists>e. a = Wake_fails t e) \<Longrightarrow>
    fact std K a (mutex s i) = Some f \<Longrightarrow>
    worker_does std K n t s (s\<lparr>mutex := (mutex s)(i := f)\<rparr>)"
| freed: "ypos s t = Freeing i \<Longrightarrow> pc (mutex s i) t = Idle \<Longrightarrow>
    worker_does std K n t s (at t (Test_end (Suc i mod n)) s)"

inductive_cases worker_doesE: "worker_does std K n t s s'"

lemma fetch_add_result: "fetch_add mo t v (w, c) = (r, w', c') \<Longrightarrow> atomic c' = atomic c + v"
  by (auto simp: fetch_add_def rmw_def Let_def)

lemma try_worker_does: "try_worker std K n t s = Some s' \<Longrightarrow> worker_does std K n t s s'"
  by (cases "ypos s t")
    (auto simp: try_worker_def mutex_step_Some simp del: fact.simps
      split: prod.splits if_splits intro: worker_does.intros fetch_add_result)

text \<open>All that a worker does to a futex is one of its own actions.\<close>

lemma at_simps [simp]:
  "mutex (at t p s) = mutex s" "ypos (at t p s) = (ypos s)(t := p)" "main_pos (at t p s) = main_pos s"
  "passes_locked (at t p s) = passes_locked s" "passes_atomic (at t p s) = passes_atomic s"
  "passes (at t p s) = passes s" "total (at t p s) = total s"
  "mutex (count_pass i s) = mutex s" "ypos (count_pass i s) = ypos s"
  "main_pos (count_pass i s) = main_pos s" "passes_locked (count_pass i s) = passes_locked s"
  "passes_atomic (count_pass i s) = passes_atomic s" "total (count_pass i s) = total s"
  "passes (count_pass i s) = (passes s)(i := Suc (passes s i))"
  by (simp_all add: at_def count_pass_def)

lemma main_at_simps [simp]:
  "mutex (main_at p s) = mutex s" "ypos (main_at p s) = ypos s" "main_pos (main_at p s) = p"
  "passes_locked (main_at p s) = passes_locked s" "passes_atomic (main_at p s) = passes_atomic s"
  "passes (main_at p s) = passes s" "total (main_at p s) = total s"
  by (simp_all add: main_at_def)

definition moved_by :: "cxx_std \<Rightarrow> futex_kernel \<Rightarrow> tid \<Rightarrow> tryers \<Rightarrow> tryers \<Rightarrow> bool" where
  "moved_by std K t s s' \<longleftrightarrow>
     (\<forall>j. mutex s' j = mutex s j \<or> (\<exists>a. thread_of a = t \<and> fact std K a (mutex s j) = Some (mutex s' j)))"

lemma moved_by_same: "mutex s' = mutex s \<Longrightarrow> moved_by std K t s s'"
  by (simp add: moved_by_def)

lemma moved_by_one:
  "mutex s' = (mutex s)(i := f) \<Longrightarrow> fact std K a (mutex s i) = Some f \<Longrightarrow> thread_of a = t \<Longrightarrow>
   moved_by std K t s s'"
  by (auto simp: moved_by_def)

lemma moved_by_keeps:
  assumes "moved_by std K t s s'" and "mutex_inv (mutex s j)"
  shows "mutex_inv (mutex s' j)"
    and "u \<noteq> t \<Longrightarrow> (pc (mutex s' j) u = Locked) = (pc (mutex s j) u = Locked)"
proof -
  from assms(1) have "mutex s' j = mutex s j \<or> futex_steps std K t (mutex s j) (mutex s' j)"
    by (auto simp: moved_by_def futex_steps_def)
  then show "mutex_inv (mutex s' j)"
    "u \<noteq> t \<Longrightarrow> (pc (mutex s' j) u = Locked) = (pc (mutex s j) u = Locked)"
    using futex_lock.keeps [OF assms(2)] futex_lock.undisturbed [OF assms(2)] assms(2) by auto
qed

lemma worker_moved_by:
  assumes "worker_does std K n t s s'"
  shows "moved_by std K t s s' \<and> main_pos s' = main_pos s \<and> total s' = total s
    \<and> (\<forall>u. u \<noteq> t \<longrightarrow> ypos s' u = ypos s u)"
  using assms
proof (cases rule: worker_does.cases)
  case (try_it i f)
  then show ?thesis using moved_by_one [of s' s i f std K "Call_trylock t" t] by auto
next
  case (free i f)
  then show ?thesis using moved_by_one [of s' s i f std K "Call_unlock t" t] by auto
next
  case (wake i a f)
  then show ?thesis using moved_by_one [of s' s i f std K a t] by auto
qed (auto intro: moved_by_same)

section \<open>The invariant\<close>

fun within :: "nat \<Rightarrow> ypos \<Rightarrow> bool" where
  "within i (Put j v) \<longleftrightarrow> j = i"
| "within i (Do_free j) \<longleftrightarrow> j = i"
| "within i _ \<longleftrightarrow> False"

fun entry :: "ypos \<Rightarrow> nat" where
  "entry (Test_end i) = i"
| "entry (Do_try i) = i"
| "entry (Tried i) = i"
| "entry (Put i v) = i"
| "entry (Do_free i) = i"
| "entry (Freeing i) = i"
| "entry _ = 0"

text \<open>The futexes the main thread holds in \<open>test_trylock_fail\<close>, and what the workers may be doing.\<close>

fun main_holds :: "main_pos \<Rightarrow> nat \<Rightarrow> bool" where
  "main_holds (Prepare k) i \<longleftrightarrow> i < k"
| "main_holds (Preparing k) i \<longleftrightarrow> i < k"
| "main_holds (Zero k) i \<longleftrightarrow> i \<le> k"
| "main_holds (Release k) i \<longleftrightarrow> k \<le> i"
| "main_holds (Releasing k) i \<longleftrightarrow> k < i"
| "main_holds (Check k) i \<longleftrightarrow> False"
| "main_holds Returned i \<longleftrightarrow> False"
| "main_holds Thrown i \<longleftrightarrow> False"
| "main_holds _ i \<longleftrightarrow> True"

fun may_be :: "main_pos \<Rightarrow> ypos \<Rightarrow> bool" where
  "may_be (Prepare k) p \<longleftrightarrow> p = Await"
| "may_be (Preparing k) p \<longleftrightarrow> p = Await"
| "may_be (Zero k) p \<longleftrightarrow> p = Await"
| "may_be Start p \<longleftrightarrow> p = Await"
| "may_be Sleep p \<longleftrightarrow> True"
| "may_be Join p \<longleftrightarrow> True"
| "may_be _ p \<longleftrightarrow> p = Stopped"

definition starting :: "main_pos \<Rightarrow> bool" where
  "starting p \<longleftrightarrow> (\<forall>q. may_be p q \<longrightarrow> q = Await)"

lemma starting_simps [simp]:
  "starting (Prepare i)" "starting (Preparing i)" "starting (Zero i)" "starting Start"
  "\<not> starting Sleep" "\<not> starting Join" "\<not> starting (Sum i)" "\<not> starting (Release i)"
  "\<not> starting (Releasing i)" "\<not> starting (Check i)" "\<not> starting Returned" "\<not> starting Thrown"
  "\<not> starting Crashed"
  by (auto simp: starting_def)

definition try_inv :: "bool \<Rightarrow> nat \<Rightarrow> tryers \<Rightarrow> bool" where
  "try_inv fail n s \<longleftrightarrow>
     (\<forall>i. mutex_inv (mutex s i))
     \<and> (\<forall>t < n. may_be (main_pos s) (ypos s t) \<and> entry (ypos s t) < n
          \<and> (\<forall>i. within i (ypos s t) \<longrightarrow> pc (mutex s i) t = Locked)
          \<and> (\<forall>i v. ypos s t = Put i v \<longrightarrow> v = passes_locked s i))
     \<and> (fail \<longrightarrow> (\<forall>i < n. main_holds (main_pos s) i \<longrightarrow> pc (mutex s i) n = Locked))"

definition count_inv :: "bool \<Rightarrow> nat \<Rightarrow> tryers \<Rightarrow> bool" where
  "count_inv fail n s \<longleftrightarrow>
     (\<forall>i. passes_locked s i + atomic (passes_atomic s i) = of_nat (passes s i)
        \<and> (starting (main_pos s) \<longrightarrow> passes s i = 0)
        \<and> (fail \<longrightarrow> passes_locked s i = 0))
     \<and> (fail \<longrightarrow> main_pos s \<noteq> Thrown \<and> (\<forall>t < n. \<forall>i. \<not> within i (ypos s t)))"

lemma try_invD:
  assumes "try_inv fail n s"
  shows "mutex_inv (mutex s i)" and "t < n \<Longrightarrow> may_be (main_pos s) (ypos s t)"
    and "t < n \<Longrightarrow> entry (ypos s t) < n"
    and "t < n \<Longrightarrow> within i (ypos s t) \<Longrightarrow> pc (mutex s i) t = Locked"
    and "t < n \<Longrightarrow> ypos s t = Put i v \<Longrightarrow> v = passes_locked s i"
    and "fail \<Longrightarrow> i < n \<Longrightarrow> main_holds (main_pos s) i \<Longrightarrow> pc (mutex s i) n = Locked"
  using assms by (auto simp: try_inv_def)

lemma one_holder:
  "try_inv fail n s \<Longrightarrow> pc (mutex s i) t = Locked \<Longrightarrow> pc (mutex s i) u = Locked \<Longrightarrow> t = u"
  using futex_lock.exclusive [OF try_invD(1)] by blast

text \<open>The steps of the workers.\<close>

lemma worker_active:
  "try_inv fail n s \<Longrightarrow> t < n \<Longrightarrow> worker_does std K n t s s' \<Longrightarrow> main_pos s = Sleep \<or> main_pos s = Join"
  using try_invD(2) [of fail n s t] by (cases "main_pos s") (auto elim!: worker_doesE)

lemma worker_within:
  assumes inv: "try_inv fail n s" and t: "t < n" and step: "worker_does std K n t s s'"
  shows "entry (ypos s' t) < n" and "within i (ypos s' t) \<Longrightarrow> pc (mutex s' i) t = Locked"
    and "ypos s' t = Put i v \<Longrightarrow> v = passes_locked s' i"
  using step try_invD(3-5) [OF inv t] t
  by (cases rule: worker_does.cases; force)+

lemma try_inv_worker:
  assumes inv: "try_inv fail n s" and t: "t < n" and step: "worker_does std K n t s s'"
  shows "try_inv fail n s'"
proof -
  note mv = worker_moved_by [OF step]
  then have moved: "moved_by std K t s s'" and mp: "main_pos s' = main_pos s"
    and oth: "u \<noteq> t \<Longrightarrow> ypos s' u = ypos s u" for u by blast+
  note keeps = moved_by_keeps [OF moved try_invD(1) [OF inv]]
  have act: "main_pos s = Sleep \<or> main_pos s = Join" by (rule worker_active [OF inv t step])
  have put: "v = passes_locked s' i" if u: "u < n" "u \<noteq> t" "ypos s u = Put i v" for u i v
  proof -
    have "passes_locked s' i = passes_locked s i"
      using step
    proof (cases rule: worker_does.cases)
      case (put j w)
      have "j \<noteq> i"
        using one_holder [OF inv try_invD(4) [OF inv t, of i] try_invD(4) [OF inv u(1), of i]] put(2) u(2,3)
        by auto
      with put show ?thesis by simp
    qed simp_all
    with try_invD(5) [OF inv u(1,3)] show ?thesis by simp
  qed
  have "may_be (main_pos s') (ypos s' u) \<and> entry (ypos s' u) < n
      \<and> (\<forall>i. within i (ypos s' u) \<longrightarrow> pc (mutex s' i) u = Locked)
      \<and> (\<forall>i v. ypos s' u = Put i v \<longrightarrow> v = passes_locked s' i)" if u: "u < n" for u
  proof (cases "u = t")
    case True
    with worker_within [OF inv t step] act mp show ?thesis by auto
  next
    case False
    with oth [OF False] try_invD(3,4) [OF inv u] keeps(2) [OF False] put [OF u False] act mp
    show ?thesis by auto
  qed
  moreover have "pc (mutex s' i) n = Locked" if "fail" "i < n" "main_holds (main_pos s') i" for i
    using try_invD(6) [OF inv that(1,2)] that(3) mp keeps(2) [of n i] t by auto
  ultimately show ?thesis using keeps(1) by (simp add: try_inv_def)
qed

lemma try_count_invD:
  assumes "count_inv fail n s"
  shows "passes_locked s i + atomic (passes_atomic s i) = of_nat (passes s i)"
    and "fail \<Longrightarrow> passes_locked s i = 0" and "fail \<Longrightarrow> t < n \<Longrightarrow> \<not> within i (ypos s t)"
    and "fail \<Longrightarrow> main_pos s \<noteq> Thrown"
  using assms by (auto simp: count_inv_def)

text \<open>In \<open>test_trylock_fail\<close> the main thread holds the futex that a worker has tried to lock.\<close>

lemma no_success:
  assumes "try_inv True n s" and "t < n" and "ypos s t = Tried i" "main_pos s = Sleep \<or> main_pos s = Join"
  shows "pc (mutex s i) t \<noteq> Locked"
proof -
  have "pc (mutex s i) n = Locked"
    using try_invD(6) [OF assms(1), of i] try_invD(3) [OF assms(1,2)] assms(3,4) by auto
  with one_holder [OF assms(1), of i n t] assms(2) show ?thesis by auto
qed

lemma count_inv_worker:
  assumes c: "count_inv fail n s" and inv: "try_inv fail n s" and t: "t < n"
    and step: "worker_does std K n t s s'"
  shows "count_inv fail n s'"
proof -
  have act: "main_pos s = Sleep \<or> main_pos s = Join" by (rule worker_active [OF inv t step])
  have mp: "main_pos s' = main_pos s" and oth: "u \<noteq> t \<Longrightarrow> ypos s' u = ypos s u" for u
    using worker_moved_by [OF step] by blast+
  have "passes_locked s' i + atomic (passes_atomic s' i) = of_nat (passes s' i)" for i
    using step try_count_invD(1) [OF c, of i] try_invD(5) [OF inv t]
    by (cases rule: worker_does.cases) (auto simp: algebra_simps)
  moreover have "\<not> within i (ypos s' t)" "passes_locked s' i = 0" if fail for i
    using step try_count_invD(2,3) [OF c that] no_success [OF _ t _ act] inv that t
    by (cases rule: worker_does.cases; fastforce)+
  moreover have "\<not> starting (main_pos s')" "main_pos s' \<noteq> Thrown" using act mp by auto
  moreover have "\<not> within i (ypos s' u)" if fail "u < n" "u \<noteq> t" for i u
    using try_count_invD(3) [OF c that(1,2)] oth [OF that(3)] by simp
  ultimately show ?thesis unfolding count_inv_def by metis
qed

text \<open>The steps of the main thread: on one of the futexes, or elsewhere.\<close>

lemma try_inv_main_mutex:
  assumes inv: "try_inv fail n s" and act: "fact std K a (mutex s i) = Some f"
    and s': "s' = main_at p (s\<lparr>mutex := (mutex s)(i := f)\<rparr>)" and a: "thread_of a = n"
    and may: "\<And>q. may_be (main_pos s) q \<Longrightarrow> may_be p q"
    and holds: "\<And>j. main_holds p j \<Longrightarrow> main_holds (main_pos s) j \<and> j \<noteq> i"
  shows "try_inv fail n s'"
proof -
  have moved: "moved_by std K n s s'" by (rule moved_by_one [OF _ act a]) (simp add: s')
  note keeps = moved_by_keeps [OF moved try_invD(1) [OF inv]]
  have "may_be (main_pos s') (ypos s' u) \<and> entry (ypos s' u) < n
      \<and> (\<forall>j. within j (ypos s' u) \<longrightarrow> pc (mutex s' j) u = Locked)
      \<and> (\<forall>j v. ypos s' u = Put j v \<longrightarrow> v = passes_locked s' j)" if u: "u < n" for u
    using try_invD(2-5) [OF inv u] may keeps(2) [of u] u by (auto simp: s')
  moreover have "pc (mutex s' j) n = Locked" if "fail" "j < n" "main_holds (main_pos s') j" for j
    using try_invD(6) [OF inv that(1,2)] holds [of j] that(3) by (auto simp: s')
  ultimately show ?thesis using keeps(1) by (simp add: try_inv_def)
qed

lemma try_inv_main_local:
  assumes inv: "try_inv fail n s" and s': "mutex s' = mutex s" "ypos s' = ypos s"
    and may: "\<And>q. may_be (main_pos s) q \<Longrightarrow> may_be (main_pos s') q"
    and holds: "\<And>j. j < n \<Longrightarrow> main_holds (main_pos s') j \<Longrightarrow>
      main_holds (main_pos s) j \<or> pc (mutex s j) n = Locked"
    and put: "passes_locked s' = passes_locked s \<or> starting (main_pos s)"
  shows "try_inv fail n s'"
proof -
  have "v = passes_locked s' j" if "u < n" "ypos s' u = Put j v" for u j v
    using put
  proof
    assume "passes_locked s' = passes_locked s"
    with try_invD(5) [OF inv that(1)] that(2) s'(2) show ?thesis by simp
  next
    assume "starting (main_pos s)"
    with try_invD(2) [OF inv that(1)] that(2) s'(2) show ?thesis by (force simp: starting_def)
  qed
  with inv s' may holds show ?thesis unfolding try_inv_def by metis
qed

lemma try_inv_prepare:
  assumes inv: "try_inv fail n s" and step: "try_main std K fail n s = Some s'"
    and pos: "(\<exists>i. main_pos s = Prepare i) \<or> (\<exists>i. main_pos s = Preparing i) \<or> (\<exists>i. main_pos s = Zero i)"
  shows "try_inv fail n s'"
  using pos
proof (elim disjE exE)
  fix i assume Prepare: "main_pos s = Prepare i"
  show ?thesis
  proof (cases "i < n \<and> fail")
    case True
    with step Prepare obtain f where "fact std K (Call_lock n) (mutex s i) = Some f"
      and "s' = main_at (Preparing i) (s\<lparr>mutex := (mutex s)(i := f)\<rparr>)"
      by (auto simp: try_main_def mutex_step_Some simp del: fact.simps)
    then show ?thesis by (rule try_inv_main_mutex [OF inv]) (simp_all add: Prepare)
  next
    case False
    with step Prepare have "s' = main_at (if i \<ge> n then Start else Zero i) s \<and> (i < n \<longrightarrow> \<not> fail)"
      by (auto simp: try_main_def split: if_splits)
    then show ?thesis using inv by (auto simp: try_inv_def Prepare)
  qed
next
  fix i assume Preparing: "main_pos s = Preparing i"
  show ?thesis
  proof (cases "pc (mutex s i) n = Locked")
    case True
    with step Preparing have "s' = main_at (Zero i) s" by (simp add: try_main_def)
    with True show ?thesis
      by (intro try_inv_main_local [OF inv]) (auto simp: Preparing nat_less_le)
  next
    case False
    with step Preparing obtain f where "fact std K (Run n) (mutex s i) = Some f"
      and "s' = main_at (Preparing i) (s\<lparr>mutex := (mutex s)(i := f)\<rparr>)"
      by (auto simp: try_main_def mutex_step_Some main_at_def simp del: fact.simps)
    then show ?thesis by (rule try_inv_main_mutex [OF inv]) (simp_all add: Preparing)
  qed
next
  fix i assume Zero: "main_pos s = Zero i"
  with step show ?thesis
    by (intro try_inv_main_local [OF inv]) (auto simp: try_main_def)
qed

lemma try_inv_release:
  assumes inv: "try_inv fail n s" and step: "try_main std K fail n s = Some s'"
    and pos: "(\<exists>i. main_pos s = Release i) \<or> (\<exists>i. main_pos s = Releasing i)"
  shows "try_inv fail n s'"
  using pos
proof (elim disjE exE)
  fix i assume Release: "main_pos s = Release i"
  show ?thesis
  proof (cases "i < n")
    case True
    with step Release obtain f where "fact std K (Call_unlock n) (mutex s i) = Some f"
      and "s' = main_at (Releasing i) (s\<lparr>mutex := (mutex s)(i := f)\<rparr>)"
      by (auto simp: try_main_def mutex_step_Some simp del: fact.simps)
    then show ?thesis by (rule try_inv_main_mutex [OF inv]) (auto simp: Release)
  next
    case False
    with step Release show ?thesis
      by (intro try_inv_main_local [OF inv]) (auto simp: try_main_def)
  qed
next
  fix i assume Releasing: "main_pos s = Releasing i"
  show ?thesis
  proof (cases "pc (mutex s i) n = Idle")
    case True
    with step Releasing show ?thesis
      by (intro try_inv_main_local [OF inv]) (auto simp: try_main_def)
  next
    case False
    with step Releasing obtain f where "fact std K (Run n) (mutex s i) = Some f"
      and "s' = main_at (Releasing i) (s\<lparr>mutex := (mutex s)(i := f)\<rparr>)"
      by (auto simp: try_main_def mutex_step_Some main_at_def simp del: fact.simps)
    then show ?thesis by (rule try_inv_main_mutex [OF inv]) (auto simp: Releasing)
  qed
qed

lemma try_inv_main:
  assumes inv: "try_inv fail n s" and step: "try_main std K fail n s = Some s'" and n: "0 < n"
  shows "try_inv fail n s'"
proof (cases "main_pos s")
  case Start
  with step have s': "s' = main_at Sleep (s\<lparr>ypos := (\<lambda>t. if t < n then Test_end 0 else ypos s t)\<rparr>)"
    by (simp add: try_main_def)
  with inv n show ?thesis by (simp add: try_inv_def Start)
next
  case Sleep
  with step show ?thesis
    by (intro try_inv_main_local [OF inv]) (auto simp: try_main_def)
next
  case Join
  with step have "s' = main_at (Sum 0) (s\<lparr>total := 0\<rparr>)" and "\<forall>t < n. ypos s t = Stopped"
    by (auto simp: try_main_def split: if_splits)
  with inv show ?thesis by (auto simp: try_inv_def Join)
next
  case (Sum i)
  with step show ?thesis
    by (intro try_inv_main_local [OF inv]) (auto simp: try_main_def split: if_splits)
next
  case (Check i)
  with step show ?thesis
    by (intro try_inv_main_local [OF inv]) (auto simp: try_main_def split: if_splits)
qed (use step try_inv_prepare [OF inv step] try_inv_release [OF inv step] in
    \<open>simp_all add: try_main_def\<close>)

lemma main_counters:
  assumes "try_main std K fail n s = Some s'"
  shows "passes s' = passes s" and "starting (main_pos s') \<Longrightarrow> starting (main_pos s)"
    and "(passes_locked s' = passes_locked s \<and> passes_atomic s' = passes_atomic s)
      \<or> (\<exists>i c. main_pos s = Zero i \<and> passes_locked s' = (passes_locked s)(i := 0)
           \<and> passes_atomic s' = (passes_atomic s)(i := c) \<and> atomic c = 0)"
    and "ypos s' = ypos s \<or> (\<forall>t < n. ypos s' t = Test_end 0)"
    and "main_pos s' = Thrown \<Longrightarrow> \<exists>i. passes_locked s i \<noteq> 0"
  using assms
  by (cases "main_pos s"; force simp: try_main_def mutex_step_Some main_at_def store_def
      simp del: fact.simps split: if_splits)+

lemma count_inv_main:
  assumes c: "count_inv fail n s" and step: "try_main std K fail n s = Some s'"
  shows "count_inv fail n s'"
proof -
  note m = main_counters [OF step]
  have zero: "main_pos s = Zero i \<Longrightarrow> passes s j = 0" for i j
    using c by (simp add: count_inv_def)
  have "passes_locked s' i + atomic (passes_atomic s' i) = of_nat (passes s' i)"
    "fail \<Longrightarrow> passes_locked s' i = 0" for i
    using m(1,3) try_count_invD(1,2) [OF c, of i] zero by (auto simp: fun_upd_apply)
  moreover have "starting (main_pos s') \<Longrightarrow> passes s' i = 0" for i
    using m(1,2) c by (auto simp: count_inv_def)
  moreover have "\<not> within i (ypos s' t)" if "fail" "t < n" for i t
    using m(4) try_count_invD(3) [OF c that(1,2)] that(2) by auto
  moreover have "main_pos s' \<noteq> Thrown" if fail
    using m(5) try_count_invD(2) [OF c that] by auto
  ultimately show ?thesis by (simp add: count_inv_def)
qed

lemma kernel_kinds:
  assumes "a = Main_kernel r \<or> a = Kernel_error t e" and "try_act std K fail n a s = Some s'"
  shows "t < n \<and> worker_does std K n t s s'
    \<or> (\<exists>i b f. fact std K b (mutex s i) = Some f \<and> thread_of b = n
        \<and> s' = s\<lparr>mutex := (mutex s)(i := f)\<rparr> \<and> (main_pos s = Preparing i \<or> main_pos s = Releasing i))"
  using assms(1)
proof
  assume a: "a = Main_kernel r"
  with assms(2) obtain i f where "main_pos s = Preparing i"
    "fact std K (Wait_returns n r) (mutex s i) = Some f" "s' = s\<lparr>mutex := (mutex s)(i := f)\<rparr>"
    by (auto simp: mutex_step_Some simp del: fact.simps split: main_pos.splits)
  then show ?thesis by (metis thread_of.simps(6))
next
  assume a: "a = Kernel_error t e"
  show ?thesis
  proof (cases "\<exists>i. main_pos s = Releasing i")
    case True
    with a assms(2) obtain i f where "main_pos s = Releasing i"
      "fact std K (Wake_fails n e) (mutex s i) = Some f" "s' = s\<lparr>mutex := (mutex s)(i := f)\<rparr>"
      by (auto simp: mutex_step_Some simp del: fact.simps split: if_splits)
    then show ?thesis by (metis thread_of.simps(7))
  next
    case False
    with a assms(2) obtain i f where "t < n" "ypos s t = Freeing i"
      "fact std K (Wake_fails t e) (mutex s i) = Some f" "s' = s\<lparr>mutex := (mutex s)(i := f)\<rparr>"
      by (auto simp: mutex_step_Some simp del: fact.simps split: main_pos.splits ypos.splits if_splits)
    then show ?thesis by (blast intro: worker_does.wake)
  qed
qed

lemma kernel_steps:
  assumes "try_inv fail n s" and "count_inv fail n s" and "a = Main_kernel r \<or> a = Kernel_error t e"
    and "try_act std K fail n a s = Some s'"
  shows "try_inv fail n s' \<and> count_inv fail n s'"
proof -
  consider (worker) "t < n" "worker_does std K n t s s'"
    | (main) i b f where "fact std K b (mutex s i) = Some f"
        "s' = main_at (main_pos s) (s\<lparr>mutex := (mutex s)(i := f)\<rparr>)" "thread_of b = n"
        "main_pos s = Preparing i \<or> main_pos s = Releasing i"
    using kernel_kinds [OF assms(3,4)] by (auto simp: main_at_def)
  then show ?thesis
  proof cases
    case worker
    with try_inv_worker count_inv_worker assms(1,2) show ?thesis by blast
  next
    case main
    have "try_inv fail n s'"
      by (rule try_inv_main_mutex [OF assms(1) main(1-3)]) (use main(4) in auto)
    moreover have "count_inv fail n s'" using assms(2) main(2) by (simp add: count_inv_def)
    ultimately show ?thesis ..
  qed
qed

lemma try_reach_inv:
  assumes "try_reach std K fail n s" and "0 < n"
  shows "try_inv fail n s \<and> count_inv fail n s"
  using assms(1)
proof (induction rule: try_reach.induct)
  case init
  then show ?case
    using assms(2) by (auto simp: try_inv_def count_inv_def tryers_init_def mutex_inv_init)
next
  case (step s a s')
  then have inv: "try_inv fail n s" "count_inv fail n s" by simp_all
  show ?case
  proof (cases a)
    case (Worker t)
    with step.hyps(2) have "t < n" "try_worker std K n t s = Some s'" by (auto split: if_splits)
    with inv try_worker_does show ?thesis by (blast intro: try_inv_worker count_inv_worker)
  next
    case Main
    with step.hyps(2) have "try_main std K fail n s = Some s'" by simp
    with inv assms(2) show ?thesis by (blast intro: try_inv_main count_inv_main)
  qed (use kernel_steps [OF inv _ step.hyps(2)] in auto)
qed

section \<open>A single worker\<close>

text \<open>With one worker and no one else to hold the futex, every attempt succeeds.\<close>

fun alone_ok :: "ypos \<Rightarrow> futex_sys \<Rightarrow> bool" where
  "alone_ok (Tried i) f \<longleftrightarrow> pc f 0 = Locked \<and> atomic (value f) = 1"
| "alone_ok (Put i v) f \<longleftrightarrow> atomic (value f) = 1"
| "alone_ok (Do_free i) f \<longleftrightarrow> atomic (value f) = 1"
| "alone_ok p f \<longleftrightarrow> pc f 0 = Idle \<and> atomic (value f) = 0"

definition single_inv :: "tryers \<Rightarrow> bool" where
  "single_inv s \<longleftrightarrow>
     (\<forall>i. atomic (passes_atomic s i) = 0) \<and> alone_ok (ypos s 0) (mutex s 0)
     \<and> (case main_pos s of
          Preparing i \<Rightarrow> False | Release i \<Rightarrow> False | Releasing i \<Rightarrow> False | Check i \<Rightarrow> False
        | Returned \<Rightarrow> False | Sum i \<Rightarrow> total s = 0 | _ \<Rightarrow> True)"

lemma single_worker:
  assumes "single_inv s" and "entry (ypos s 0) = 0" and step: "worker_does std K 1 0 s s'"
  shows "single_inv s'"
  using step
proof (cases rule: worker_does.cases)
  case (wake i a f)
  with assms(1,2) show ?thesis by (auto simp: single_inv_def)
qed (use assms(1,2) worker_moved_by [OF step] in
    \<open>auto simp: single_inv_def attempts attempt_simps unlock_simps
      split: main_pos.splits if_splits\<close>)

lemma single_main:
  assumes "single_inv s" and "try_inv False 1 s" and step: "try_main std K False 1 s = Some s'"
  shows "single_inv s'"
  using assms(1,3) try_invD(2) [OF assms(2), of 0]
  by (cases "main_pos s")
    (auto simp: try_main_def single_inv_def load_def store_def split: if_splits)

lemma single_reach: "try_reach std K False 1 s \<Longrightarrow> single_inv s"
proof (induction rule: try_reach.induct)
  case init
  show ?case
    by (simp add: single_inv_def tryers_init_def futex_init_def Atomic_init_def store_def)
next
  case (step s a s')
  have inv: "try_inv False 1 s" using try_reach_inv [OF step.hyps(1)] by simp
  have e: "entry (ypos s 0) = 0" using try_invD(3) [OF inv, of 0] by simp
  show ?case
  proof (cases a)
    case (Worker t)
    with step.hyps(2) have "t = 0" "try_worker std K 1 t s = Some s'" by (auto split: if_splits)
    with try_worker_does single_worker [OF step.IH e] show ?thesis by blast
  next
    case Main
    with step.hyps(2) single_main [OF step.IH inv] show ?thesis by simp
  next
    case (Main_kernel r)
    with step.hyps(2) step.IH show ?thesis by (auto simp: single_inv_def split: main_pos.splits)
  next
    case (Kernel_error t e)
    with step.hyps(2) step.IH inv show ?thesis
      using try_invD(3) [OF inv, of 0]
      by (auto simp: single_inv_def mutex_step_Some split: main_pos.splits ypos.splits if_splits)
  qed
qed

section \<open>Properties\<close>

text \<open>One worker against the main thread, and one worker alone.\<close>

definition fail_demo :: "try_action list" where
  "fail_demo =
    [Main, Main, Main, Main, Main, Worker 0, Worker 0, Worker 0, Main, Worker 0,
     Main, Main, Main, Main, Main, Main, Main, Main]"

definition single_demo :: "try_action list" where
  "single_demo =
    [Main, Main, Main, Main, Worker 0, Worker 0, Worker 0, Worker 0, Worker 0, Worker 0,
     Main, Worker 0, Main, Main, Main]"

lemmas try_eval = futex_eval try_worker_def try_main_def mutex_step_def at_def main_at_def
  count_pass_def tryers_init_def

lemma fail_run:
  "\<exists>s. try_run CXX20 fifo_kernel True 1 fail_demo (tryers_init CXX20 1) = Some s
     \<and> main_pos s = Returned \<and> passes s 0 = 1"
  by (simp add: fail_demo_def try_eval)

lemma single_run:
  "\<exists>s. try_run CXX20 fifo_kernel False 1 single_demo (tryers_init CXX20 1) = Some s
     \<and> main_pos s = Crashed \<and> passes s 0 = 1"
  by (simp add: single_demo_def try_eval)

lemma try_run_reach:
  "try_run std K fail n as s = Some s' \<Longrightarrow> try_reach std K fail n s \<Longrightarrow> try_reach std K fail n s'"
  by (induction "as" arbitrary: s) (auto split: option.splits intro: try_reach.step)

text \<open>C22. The trylock tests. Any number of workers try the futexes of an array in turn. Every pass
  is counted exactly once, in the plain counter when the attempt succeeded and in the atomic one
  when it failed, up to the wrap-around of 32 bits. In \<open>test_trylock_fail\<close>, where the main thread
  has locked all futexes, no worker ever gets one: the plain counters stay 0 and the test does
  not throw.\<close>

theorem trylock_counts:
  assumes "try_reach std K fail n s" and "0 < n"
  shows "passes_locked s i + atomic (passes_atomic s i) = of_nat (passes s i)
    \<and> (fail \<longrightarrow> passes_locked s i = 0 \<and> main_pos s \<noteq> Thrown)"
  using try_count_invD(1,2,4) try_reach_inv [OF assms] by blast

theorem trylock_counts_witness:
  "\<exists>s. try_reach CXX20 fifo_kernel True 1 s \<and> main_pos s = Returned \<and> passes_locked s 0 = 0
     \<and> atomic (passes_atomic s 0) = 1"
proof -
  obtain s where s: "try_run CXX20 fifo_kernel True 1 fail_demo (tryers_init CXX20 1) = Some s"
    "main_pos s = Returned" "passes s 0 = 1" using fail_run by blast
  have r: "try_reach CXX20 fifo_kernel True 1 s" by (rule try_run_reach [OF s(1) try_reach.init])
  from trylock_counts [OF r, of 0] s(2,3) r show ?thesis by auto
qed

text \<open>C33. \<open>test_trylock\<close> divides by zero when no attempt fails. It counts the failed attempts
  only; a single worker never fails, so that \<open>run_for\<close> divides the runtime by a number of passes
  that is 0, and the test never returns.\<close>

theorem single_trylock_never_returns:
  assumes "try_reach std K False 1 s"
  shows "atomic (passes_atomic s i) = 0 \<and> main_pos s \<noteq> Returned
    \<and> (main_pos s = Sum 1 \<longrightarrow> (\<exists>s'. try_main std K False 1 s = Some s' \<and> main_pos s' = Crashed))"
  using single_reach [OF assms] by (auto simp: single_inv_def try_main_def)

theorem single_trylock_never_returns_witness:
  "\<exists>s. try_reach CXX20 fifo_kernel False 1 s \<and> passes s 0 = 1 \<and> atomic (passes_atomic s 0) = 0
     \<and> main_pos s = Crashed"
proof -
  obtain s where s: "try_run CXX20 fifo_kernel False 1 single_demo (tryers_init CXX20 1) = Some s"
    "main_pos s = Crashed" "passes s 0 = 1" using single_run by blast
  have r: "try_reach CXX20 fifo_kernel False 1 s" by (rule try_run_reach [OF s(1) try_reach.init])
  from single_trylock_never_returns [OF r, of 0] s(2,3) r show ?thesis by blast
qed

end
