(* ===== verification/Sysconf.thy ===== *)
theory Sysconf
  imports Prelude
begin

text \<open>
  \<open>sysconf.hpp\<close> and \<open>sysconf.cpp\<close>: the wrapper of sysconf(3) that turns its error
  convention into an exception, and the two functions that keep its result in a static
  variable. The C library function is a parameter: it maps a name and the state of the
  process (with \<open>errno\<close>) to its result and the new state.
\<close>

section \<open>The wrapper\<close>

record 'k process =
  errno :: int
  kernel :: 'k

type_synonym ('k, 'l) os_sysconf = "int \<Rightarrow> 'k process \<Rightarrow> 'l word \<times> 'k process"

datatype sysconf_error = System_error int

text \<open>\<open>'l\<close> is the width of \<open>long\<close>, \<open>'t\<close> that of the type \<open>T\<close> the result is cast to.\<close>

definition sysconf ::
    "('k, 'l::len) os_sysconf \<Rightarrow> int \<Rightarrow> 'k process \<Rightarrow>
     (sysconf_error + 't::len word) \<times> 'k process" where
  "sysconf S sysconf_name p =
     (case S sysconf_name (p\<lparr>errno := 0\<rparr>) of
        (result, p') \<Rightarrow>
          if result = - 1 \<and> errno p' \<noteq> 0
          then (Inl (System_error (errno p')), p')
          else (Inr (scast result), p'))"

text \<open>The error convention of sysconf(3) is decided by this call alone: a stale \<open>errno\<close> has
  no influence, an exception carries the error the call itself has reported, and the result
  -1 without an error (no limit) is a value, the largest one of an unsigned type.\<close>

lemma sysconf_outcome:
  "sysconf S n (p\<lparr>errno := e\<rparr>) = sysconf S n p
     \<and> (case S n (p\<lparr>errno := 0\<rparr>) of (result, p') \<Rightarrow>
          snd (sysconf S n p) = p'
          \<and> (fst (sysconf S n p) = Inl (System_error x)
               \<longleftrightarrow> result = - 1 \<and> errno p' \<noteq> 0 \<and> x = errno p')
          \<and> (fst (sysconf S n p) = Inr v
               \<longleftrightarrow> (result \<noteq> - 1 \<or> errno p' = 0) \<and> v = scast result))"
  by (auto simp: sysconf_def split: prod.splits)

section \<open>The cached values\<close>

text \<open>The local static variables; \<open>None\<close> before their initialisation. An exception in the
  initialiser leaves the variable uninitialised, so that the next call tries again.\<close>

record 't statics =
  cache_line_value :: "'t option"
  page_size_value :: "'t option"

definition statics_init :: "'t statics" where
  "statics_init = \<lparr>cache_line_value = None, page_size_value = None\<rparr>"

text \<open>\<open>lc\<close> and \<open>pg\<close> stand for \<open>_SC_LEVEL1_DCACHE_LINESIZE\<close> and \<open>_SC_PAGESIZE\<close>.\<close>

definition cache_line ::
    "int \<Rightarrow> ('k, 'l::len) os_sysconf \<Rightarrow> 't::len word statics \<times> 'k process \<Rightarrow>
     (sysconf_error + 't word) \<times> 't word statics \<times> 'k process" where
  "cache_line lc S sp =
     (case sp of (st, p) \<Rightarrow>
       case cache_line_value st of
         Some v \<Rightarrow> (Inr v, st, p)
       | None \<Rightarrow>
           (case sysconf S lc p of
              (Inl e, p') \<Rightarrow> (Inl e, st, p')
            | (Inr v, p') \<Rightarrow> (Inr v, st\<lparr>cache_line_value := Some v\<rparr>, p')))"

definition page_size ::
    "int \<Rightarrow> ('k, 'l::len) os_sysconf \<Rightarrow> 't::len word statics \<times> 'k process \<Rightarrow>
     (sysconf_error + 't word) \<times> 't word statics \<times> 'k process" where
  "page_size pg S sp =
     (case sp of (st, p) \<Rightarrow>
       case page_size_value st of
         Some v \<Rightarrow> (Inr v, st, p)
       | None \<Rightarrow>
           (case sysconf S pg p of
              (Inl e, p') \<Rightarrow> (Inl e, st, p')
            | (Inr v, p') \<Rightarrow> (Inr v, st\<lparr>page_size_value := Some v\<rparr>, p')))"

section \<open>Sequences of calls\<close>

text \<open>A program that calls the two functions; the answers of the system may change from call
  to call. The results are collected in order.\<close>

datatype query = Cache_line | Page_size

definition ask ::
    "int \<Rightarrow> int \<Rightarrow> query \<Rightarrow> ('k, 'l::len) os_sysconf \<Rightarrow> 't::len word statics \<times> 'k process \<Rightarrow>
     (sysconf_error + 't word) \<times> 't word statics \<times> 'k process" where
  "ask lc pg q S sp = (case q of Cache_line \<Rightarrow> cache_line lc S sp | Page_size \<Rightarrow> page_size pg S sp)"

fun asks ::
    "int \<Rightarrow> int \<Rightarrow> (query \<times> ('k, 'l::len) os_sysconf) list \<Rightarrow>
     't::len word statics \<times> 'k process \<Rightarrow>
     (query \<times> (sysconf_error + 't word)) list \<times> 't word statics \<times> 'k process" where
  "asks lc pg [] sp = ([], sp)"
| "asks lc pg ((q, S) # qs) sp =
     (case ask lc pg q S sp of
        (r, sp') \<Rightarrow> (case asks lc pg qs sp' of (rs, sp'') \<Rightarrow> ((q, r) # rs, sp'')))"

definition static_of :: "query \<Rightarrow> 't statics \<Rightarrow> 't option" where
  "static_of q st = (case q of Cache_line \<Rightarrow> cache_line_value st | Page_size \<Rightarrow> page_size_value st)"

lemmas query_defs = ask_def cache_line_def page_size_def static_of_def

lemma ask_static:
  "static_of q st = Some v \<Longrightarrow> ask lc pg q S (st, p) = (Inr v, st, p)"
  by (cases q) (simp_all add: query_defs)

lemma ask_sets:
  "ask lc pg q S (st, p) = (Inr v, st', p') \<Longrightarrow> static_of q st' = Some v"
  by (cases q) (auto simp: query_defs split: option.splits sum.splits prod.splits)

lemma ask_keeps:
  "ask lc pg q S (st, p) = (r, st', p') \<Longrightarrow> static_of q' st = Some v \<Longrightarrow> static_of q' st' = Some v"
  by (cases q; cases q') (auto simp: query_defs split: option.splits sum.splits prod.splits)

lemma asks_initialised:
  assumes "asks lc pg qs (st, p) = (rs, sp')" and "static_of q st = Some v" and "(q, r) \<in> set rs"
  shows "r = Inr v"
  using assms
proof (induction qs arbitrary: st p rs)
  case Nil
  then show ?case by simp
next
  case (Cons qS qs)
  obtain q0 S where qS: "qS = (q0, S)" by fastforce
  obtain r0 st1 p1 where a: "ask lc pg q0 S (st, p) = (r0, st1, p1)" by (metis prod_cases3)
  obtain rs1 where b: "asks lc pg qs (st1, p1) = (rs1, sp')" and rs: "rs = (q0, r0) # rs1"
    using Cons.prems(1) a by (auto simp: qS split: prod.splits)
  show ?case
  proof (cases "(q, r) \<in> set rs1")
    case True
    with Cons.IH [OF b ask_keeps [OF a Cons.prems(2)]] show ?thesis by blast
  next
    case False
    with Cons.prems(3) rs have "q0 = q" "r0 = r" by auto
    with a ask_static [OF Cons.prems(2), of lc pg S p] show ?thesis by simp
  qed
qed

lemma asks_agree:
  assumes "asks lc pg qs (st, p) = (rs, sp')" and "(q, Inr v) \<in> set rs" and "(q, Inr w) \<in> set rs"
  shows "v = w"
  using assms
proof (induction qs arbitrary: st p rs)
  case Nil
  then show ?case by simp
next
  case (Cons qS qs)
  obtain q0 S where qS: "qS = (q0, S)" by fastforce
  obtain r0 st1 p1 where a: "ask lc pg q0 S (st, p) = (r0, st1, p1)" by (metis prod_cases3)
  obtain rs1 where b: "asks lc pg qs (st1, p1) = (rs1, sp')" and rs: "rs = (q0, r0) # rs1"
    using Cons.prems(1) a by (auto simp: qS split: prod.splits)
  have first: "x = y" if q: "q0 = q" "r0 = Inr x" and y: "(q, Inr y) \<in> set rs" for x y
  proof -
    have "static_of q st1 = Some x" using ask_sets [OF a [unfolded q]] .
    from asks_initialised [OF b this] y q show ?thesis by (auto simp: rs)
  qed
  from Cons.prems(2,3) rs have
    "q0 = q \<and> r0 = Inr v \<or> (q, Inr v) \<in> set rs1" "q0 = q \<and> r0 = Inr w \<or> (q, Inr w) \<in> set rs1"
    by auto
  then consider "q0 = q" "r0 = Inr v" | "q0 = q" "r0 = Inr w" |
    "(q, Inr v) \<in> set rs1" "(q, Inr w) \<in> set rs1" by argo
  then show ?case
  proof cases
    case 1
    from first [OF this Cons.prems(3)] show ?thesis .
  next
    case 2
    from first [OF this Cons.prems(2)] show ?thesis by simp
  next
    case 3
    from Cons.IH [OF b this] show ?thesis .
  qed
qed

section \<open>Properties\<close>

text \<open>The cached values are stable: in any sequence of calls of \<open>cache_line\<close> and \<open>page_size\<close>,
  whatever the system answers each time, all calls of one function that return a value
  return the same one.\<close>

lemma static_values_stable:
  assumes "fst (asks lc pg qs (statics_init, p)) = rs"
    and "(q, Inr v) \<in> set rs" and "(q, Inr w) \<in> set rs"
  shows "v = w"
  using asks_agree [of lc pg qs statics_init p rs "snd (asks lc pg qs (statics_init, p))"] assms
  by (metis prod.collapse)

end
