(* ===== verification/Test_Units.thy ===== *)
theory Test_Units
  imports Stack Concurrent_Ptr Asm_X86 Futex_System Sysconf Build "HOL-Library.Monad_Syntax"
begin

text \<open>
  The test cases of one thread: \<open>test_aba_wrapper.cpp\<close>, \<open>test_concurrent_ptr.cpp\<close>,
  \<open>test_x86_asm.cpp\<close>, \<open>test_sysconf.cpp\<close>, the first one of \<open>test_stack.cpp\<close> and the one with
  timeouts of \<open>test_futex.cpp\<close>. Each is the list of its checks;
  \<open>None\<close> stands for a call that throws where no exception is expected, or does not return.
\<close>

section \<open>One stack\<close>

definition push_returns ::
    "PlatformABASolution \<Rightarrow> tid \<Rightarrow> 'w::len word \<Rightarrow> ('w word, 'w word links) aba \<Rightarrow>
     ('w word, 'w word links) aba option" where
  "push_returns sol t block s = (case push sol t block s of Inl e \<Rightarrow> None | Inr r \<Rightarrow> r)"

definition throws :: "'e + 'a \<Rightarrow> bool" where
  "throws r \<longleftrightarrow> (case r of Inl e \<Rightarrow> True | Inr x \<Rightarrow> False)"

definition check_one_stack ::
    "PlatformABASolution \<Rightarrow> 'w::len word \<Rightarrow> 'w word links \<Rightarrow> bool list option" where
  "check_one_stack sol block links =
     do {
       (popped1, s1) \<leftarrow> pop sol 0 (stack_init sol links);
       let thrown = throws (push sol 0 0 s1);
       s2 \<leftarrow> push_returns sol 0 block s1;
       (popped2, s3) \<leftarrow> pop sol 0 s2;
       (popped3, s4) \<leftarrow> pop sol 0 s3;
       Some [popped1 = Some 0, thrown, popped2 = Some block, popped3 = Some 0]
     }"

section \<open>The wrapper\<close>

text \<open>The modifier in \<open>Test32Bit::set\<close> is that of \<open>Concurrent_Ptr::set\<close>, with a number.\<close>

definition test_set_modifier :: "'v \<Rightarrow> ('v, 'h, unit) modifier" where
  "test_set_modifier value_init h ptr_cached = (Some value_init, h, ())"

definition test_set ::
    "PlatformABASolution \<Rightarrow> tid \<Rightarrow> u32 \<Rightarrow> (u32, unit) aba \<Rightarrow> (u32, unit) aba option" where
  "test_set sol t value_init s =
     map_option (\<lambda>(success, captured, s'). s') (modify_run 6 sol (test_set_modifier value_init) t M_load s)"

text \<open>The numbers are 32 bits wide, and so is the counter: the differences wrap around.\<close>

definition check_aba_wrapper :: "target \<Rightarrow> bool list option" where
  "check_aba_wrapper p =
     do {
       sol \<leftarrow> PLATFORM_ABA_SOLUTION p;
       let dwcas = (if ABA_IS_PLATFORM_DWCAS p then 1 else 0 :: nat);
       let s0 = aba_init sol 1234567890 ();
       let counter = aba_get_counter sol s0;
       s1 \<leftarrow> test_set sol 0 (- 2000000000) s0;
       s2 \<leftarrow> test_set sol 0 2000000000 s1;
       Some [ABA_ATOMIC_ALIGNMENT p 4 = (1 + dwcas) * 4,
             aba_get s1 = - 2000000000,
             aba_get s2 = 2000000000,
             aba_get_counter sol s2 - counter = of_nat (2 * dwcas)]
     }"

section \<open>The pointer\<close>

text \<open>\<open>mem\<close> is the memory with the three variables at \<open>x1\<close>, \<open>x2\<close> and \<open>x3\<close>; \<open>sizeof_ptr\<close> the size
  of a pointer.\<close>

definition sizeof_ptr :: "target \<Rightarrow> nat" where
  "sizeof_ptr p = (if PLATFORM_WIDTH p = Some WIDTH_64 then 8 else 4)"

definition check_concurrent_ptr ::
    "target \<Rightarrow> 'w::len word \<Rightarrow> 'w word \<Rightarrow> 'w word \<Rightarrow> ('w word \<Rightarrow> 16 word) \<Rightarrow> bool list option" where
  "check_concurrent_ptr p x1 x2 x3 mem0 =
     do {
       sol \<leftarrow> PLATFORM_ABA_SOLUTION p;
       let dwcas = (if ABA_IS_PLATFORM_DWCAS p then 1 else 0 :: nat);
       let s0 = cptr_init sol 0;
       let counter = cptr_get_counter sol s0;
       let memory = mem0(x1 := 42, x2 := 4711, x3 := 0x0815);
       s1 \<leftarrow> cptr_set sol 0 x1 s0;
       s2 \<leftarrow> cptr_set sol 0 x2 s1;
       s3 \<leftarrow> cptr_set sol 0 x3 s2;
       Some [ABA_ATOMIC_ALIGNMENT p (sizeof_ptr p) = (1 + dwcas) * sizeof_ptr p,
             memory (cptr_get s1) = 42,
             memory (cptr_get s2) = 4711,
             memory (cptr_get s3) = 0x0815,
             cptr_get_counter sol s3 - counter = of_nat (3 * dwcas)]
     }"

section \<open>The assembler functions\<close>

text \<open>The processor is in any state before each of the calls, \<open>r i\<close> before the \<open>i\<close>-th; the arrays
  hold the initial values of the test.\<close>

definition check_dwcas64 :: "(nat \<Rightarrow> (u64, u64) x86) \<Rightarrow> bool list option" where
  "check_dwcas64 r =
     do {
       let array = (0xDEADBEEF01234567, 0x1CEDCAFE89ABCDEF);
       let fast_result = fst (dw_load64_fast [] (set_mem array (r 0)));
       let slow_result = fst (dw_load64_slow [] (set_mem array (r 1)));
       let store_value = (0x0123456789ABCDEF, 0xFEDCBA9876543210);
       let fast_atomic = mem (dw_store64_fast store_value [] (set_mem (5, 6) (r 2)));
       after \<leftarrow> dw_store64_slow 2 store_value [] (set_mem (7, 8) (r 3));
       let slow_atomic = mem after;
       Some [fst fast_result = fst slow_result \<and> snd fast_result = snd slow_result,
             fst fast_atomic = fst slow_atomic \<and> snd fast_atomic = snd slow_atomic]
     }"

text \<open>On x86_64 the macros make no difference for 32-bit halves; on i686 there is one variant, too.\<close>

definition check_dwcas32_x64 :: "(nat \<Rightarrow> (u64, u32) x86) \<Rightarrow> bool list option" where
  "check_dwcas32_x64 r =
     do {
       let array = (0xDEADBEEF, 0x1CEDCAFE);
       let fast_result = fst (dw_load32_x64 [] (set_mem array (r 0)));
       let slow_result = fst (dw_load32_x64 [] (set_mem array (r 1)));
       let store_value = (0x01234567, 0xFEDCBA98);
       let fast_atomic = mem (dw_store32_x64 store_value [] (set_mem (5, 6) (r 2)));
       let slow_atomic = mem (dw_store32_x64 store_value [] (set_mem (7, 8) (r 3)));
       Some [fst fast_result = fst slow_result \<and> snd fast_result = snd slow_result,
             fst fast_atomic = fst slow_atomic \<and> snd fast_atomic = snd slow_atomic]
     }"

definition check_dwcas32_i686 :: "(nat \<Rightarrow> (u32, u32) x86) \<Rightarrow> bool list option" where
  "check_dwcas32_i686 r =
     do {
       let array = (0xDEADBEEF, 0x1CEDCAFE);
       let fast_result = fst (dw_load32_i686 [] (set_mem array (r 0)));
       let slow_result = fst (dw_load32_i686 [] (set_mem array (r 1)));
       let store_value = (0x01234567, 0xFEDCBA98);
       after_fast \<leftarrow> dw_store32_i686 2 store_value [] (set_mem (5, 6) (r 2));
       after_slow \<leftarrow> dw_store32_i686 2 store_value [] (set_mem (7, 8) (r 3));
       let fast_atomic = mem after_fast;
       let slow_atomic = mem after_slow;
       Some [fst fast_result = fst slow_result \<and> snd fast_result = snd slow_result,
             fst fast_atomic = fst slow_atomic \<and> snd fast_atomic = snd slow_atomic]
     }"

section \<open>Timeouts of one thread\<close>

text \<open>One turn of the loop in \<open>wait_timeout\<close> by a thread alone: the exchange, unless the call
  has found the futex with waiters, then the system call, to which the kernel answers \<open>r\<close>.\<close>

definition wait_turn :: "futex_kernel \<Rightarrow> tid \<Rightarrow> wait_result \<Rightarrow> futex_sys \<Rightarrow> futex_sys" where
  "wait_turn K t r f =
     (let f1 = (case pc f t of Xchg w \<Rightarrow> wait_exchange w t f | _ \<Rightarrow> f);
          f2 = (case pc f1 t of Syscall w \<Rightarrow> wait_syscall K w t f1 | _ \<Rightarrow> f1)
      in case pc f2 t of Blocked w \<Rightarrow> wait_return w t r f2 | _ \<Rightarrow> f2)"

text \<open>The value \<open>trylock_timeout\<close> returns, when it has. \<open>rs\<close> are the answers the kernel gives
  in this order; the call does not return when they run out.\<close>

fun wait_alone ::
    "futex_kernel \<Rightarrow> tid \<Rightarrow> wait_result list \<Rightarrow> futex_sys \<Rightarrow> (bool \<times> futex_sys) option" where
  "wait_alone K t rs f =
     (case pc f t of
        Locked \<Rightarrow> Some (True, f)
      | Refused \<Rightarrow> Some (False, f)
      | Threw e \<Rightarrow> None
      | _ \<Rightarrow> (case rs of [] \<Rightarrow> None | r # rs' \<Rightarrow> wait_alone K t rs' (wait_turn K t r f)))"

declare wait_alone.simps [simp del]

definition check_futex_timeouts ::
    "cxx_std \<Rightarrow> futex_kernel \<Rightarrow> wait_result list \<Rightarrow> (bool list \<times> futex_sys) option" where
  "check_futex_timeouts std K answers =
     (let timeout = \<lparr>tv_sec = 0, tv_nsec = 1000\<rparr> in do {
       (locked1, f1) \<leftarrow> wait_alone K 0 [] (trylock_timeout (Some timeout) 0 (futex_init std None));
       (locked2, f2) \<leftarrow> wait_alone K 0 answers (trylock_timeout (Some timeout) 0 f1);
       let f3 = unlock 0 f2;
       let f4 = (if pc f3 0 = Wake_store then wake_call K 0 (wake_store std 0 f3) else f3);
       Some ([locked1 = True, locked2 = False], f4)
     })"

text \<open>An answer after which \<open>wait_timeout\<close> tries again.\<close>

definition retry :: "wait_result \<Rightarrow> bool" where
  "retry r \<longleftrightarrow> r \<in> {Woken, Failed EAGAIN, Failed EINTR}"

section \<open>System configuration\<close>

text \<open>The test of \<open>test_sysconf.cpp\<close>. A check of a call that throws fails, and the test goes on.\<close>

definition check_sysconf ::
    "int \<Rightarrow> int \<Rightarrow> ('k, 'l::len) os_sysconf \<Rightarrow> 't::len word itself \<Rightarrow> 'k process \<Rightarrow> bool list" where
  "check_sysconf lc pg S T p =
     (let (r1 :: sysconf_error + 't word, p1) = sysconf S (- 1) p;
          (r2, st2, p2) = cache_line lc S (statics_init :: 't word statics, p1);
          (r3, st3, p3) = page_size pg S (st2, p2);
          (r4, st4, p4) = cache_line lc S (st3, p3);
          (r5, st5, p5) = page_size pg S (st4, p4)
      in [throws r1, \<not> throws r2, \<not> throws r3, r4 = Inr 64, r5 = Inr 4096])"

section \<open>Version\<close>

text \<open>The test of \<open>test_version.cpp\<close>, for the numbers CMake writes into \<open>config.hpp\<close>; \<open>None\<close> when
  they are rejected by the compiler.\<close>

definition check_version :: "int \<Rightarrow> int \<Rightarrow> int \<Rightarrow> bool list option" where
  "check_version major minor patch =
     map_option (\<lambda>v. [MAJOR v = 0, MINOR v = 0, PATCH v = 6]) (version_of major minor patch)"

section \<open>All checks hold\<close>

lemma modifier_alone:
  assumes "\<And>h c. f h c = (Some v, h, ())"
  shows "\<exists>ok r s'. modify_run 6 sol f t M_load s = Some (ok, r, s') \<and> word0 s' = v
    \<and> aba_get_counter sol s' = aba_get_counter sol s + (if sol = DWCAS then 1 else 0)"
  using modify_run_alone [of 3 sol f t s] by (auto simp: modified_def assms aba_get_counter_def)

lemma test_set_alone:
  "\<exists>s'. test_set sol t v s = Some s' \<and> aba_get s' = v
    \<and> aba_get_counter sol s' = aba_get_counter sol s + (if sol = DWCAS then 1 else 0)"
  using modifier_alone [of "test_set_modifier v" v sol t s]
  by (auto simp: test_set_def test_set_modifier_def aba_get_def)

lemma cptr_set_alone:
  "\<exists>s'. cptr_set sol t x s = Some s' \<and> cptr_get s' = x
    \<and> cptr_get_counter sol s' = cptr_get_counter sol s + (if sol = DWCAS then 1 else 0)"
  using modifier_alone [of "set_modifier x" x sol t s]
  by (auto simp: cptr_set_def set_modifier_def cptr_get_def cptr_get_counter_def aba_get_def)

lemma one_stack_checked:
  assumes "block \<noteq> 0"
  shows "check_one_stack sol block links = Some [True, True, True, True]"
proof -
  have "chain (heap (stack_init sol links)) (word0 (stack_init sol links)) []"
    by (simp add: stack_init_def aba_init_def)
  from pop_correct [OF this, of sol 0] obtain s1
    where s1: "pop sol 0 (stack_init sol links) = Some (Some 0, s1)" "chain (heap s1) (word0 s1) []"
    by auto
  from push_correct [OF assms s1(2), of sol 0] obtain s2
    where s2: "push sol 0 block s1 = Inr (Some s2)" "chain (heap s2) (word0 s2) [block]" by auto
  from pop_correct [OF s2(2), of sol 0] obtain s3
    where s3: "pop sol 0 s2 = Some (Some block, s3)" "chain (heap s3) (word0 s3) []" by auto
  from pop_correct [OF s3(2), of sol 0] obtain s4 where "pop sol 0 s3 = Some (Some 0, s4)" by auto
  moreover have "throws (push sol 0 0 s1)" by (simp add: throws_def push_def push_entry_def)
  ultimately show ?thesis using s1(1) s2(1) s3(1) by (simp add: check_one_stack_def push_returns_def)
qed

lemma supported_cases:
  assumes "PLATFORM_ABA_SOLUTION p \<noteq> None"
  obtains "p = X86_64" | "p = I686" | "p = AARCH64" | "p = ARM32"
  using assms by (auto simp: PLATFORM_ABA_SOLUTION_def split: if_splits)

lemma aba_wrapper_checked:
  assumes "PLATFORM_ABA_SOLUTION p \<noteq> None"
  shows "check_aba_wrapper p = Some [True, True, True, True]"
proof -
  obtain sol where sol: "PLATFORM_ABA_SOLUTION p = Some sol" using assms by blast
  obtain s1 where s1: "test_set sol 0 (- 2000000000) (aba_init sol 1234567890 ()) = Some s1"
      "aba_get s1 = - 2000000000" and c1: "aba_get_counter sol s1
        = aba_get_counter sol (aba_init sol 1234567890 ()) + (if sol = DWCAS then 1 else 0)"
    using test_set_alone by blast
  obtain s2 where s2: "test_set sol 0 2000000000 s1 = Some s2" "aba_get s2 = 2000000000"
    and c2: "aba_get_counter sol s2 = aba_get_counter sol s1 + (if sol = DWCAS then 1 else 0)"
    using test_set_alone by blast
  show ?thesis
    using sol by (simp add: check_aba_wrapper_def s1 s2 c1 c2 ABA_IS_PLATFORM_DWCAS_def
        ABA_ATOMIC_ALIGNMENT_def ABA_ARRAY_SIZE_def)
qed

lemma concurrent_ptr_checked:
  fixes x1 :: "'w::len word"
  assumes "PLATFORM_ABA_SOLUTION p \<noteq> None" and "distinct [x1, x2, x3]"
  shows "check_concurrent_ptr p x1 x2 x3 mem0 = Some [True, True, True, True, True]"
proof -
  obtain sol where sol: "PLATFORM_ABA_SOLUTION p = Some sol" using assms by blast
  let ?k = "if sol = DWCAS then 1 else 0 :: 'w word"
  obtain s1 where s1: "cptr_set sol 0 x1 (cptr_init sol 0) = Some s1" "cptr_get s1 = x1"
    and c1: "cptr_get_counter sol s1 = cptr_get_counter sol (cptr_init sol (0 :: 'w word)) + ?k"
    using cptr_set_alone by blast
  obtain s2 where s2: "cptr_set sol 0 x2 s1 = Some s2" "cptr_get s2 = x2"
    and c2: "cptr_get_counter sol s2 = cptr_get_counter sol s1 + ?k"
    using cptr_set_alone by blast
  obtain s3 where s3: "cptr_set sol 0 x3 s2 = Some s3" "cptr_get s3 = x3"
    and c3: "cptr_get_counter sol s3 = cptr_get_counter sol s2 + ?k"
    using cptr_set_alone by blast
  have "ABA_ATOMIC_ALIGNMENT p (sizeof_ptr p) = (if ABA_IS_PLATFORM_DWCAS p then 2 else 1) * sizeof_ptr p"
    by (rule supported_cases [OF assms(1)])
      (simp_all add: ABA_ATOMIC_ALIGNMENT_def ABA_ARRAY_SIZE_def sizeof_ptr_def ABA_IS_PLATFORM_64_def
        PLATFORM_WIDTH_def)
  with assms(2) sol show ?thesis
    by (simp add: check_concurrent_ptr_def s1 s2 s3 c1 c2 c3 ABA_IS_PLATFORM_DWCAS_def)
qed

lemma dwcas64_checked: "check_dwcas64 r = Some [True, True]"
  using dw_store64_slow_eq [of "[]" 0]
  by (force simp: check_dwcas64_def dw_load64_fast_alone dw_load64_slow_eq dw_store64_fast_eq numeral_2_eq_2
      Let_def bind_eq_Some_conv)

lemma dwcas32_x64_checked: "check_dwcas32_x64 r = Some [True, True]"
  by (simp add: check_dwcas32_x64_def dw_load32_x64_eq dw_store32_x64_eq Let_def)

lemma dwcas32_i686_checked: "check_dwcas32_i686 q = Some [True, True]"
proof -
  have "\<exists>s'. dw_store32_i686 2 d [] s = Some s' \<and> mem s' = d" for d and s :: "(u32, u32) x86"
    using dw_store32_i686_eq [of "[]" 0 d s] by (simp add: numeral_2_eq_2)
  then obtain f where f: "dw_store32_i686 2 d [] s = Some (f d s) \<and> mem (f d s) = d"
    for d and s :: "(u32, u32) x86" by metis
  show ?thesis by (simp add: check_dwcas32_i686_def dw_load32_i686_eq f Let_def)
qed

lemmas dwcas_checked = dwcas64_checked dwcas32_x64_checked dwcas32_i686_checked

lemma wait_alone_at:
  "pc f t = Locked \<Longrightarrow> wait_alone K t rs f = Some (True, f)"
  "pc f t = Refused \<Longrightarrow> wait_alone K t rs f = Some (False, f)"
  "pc f t = Threw e \<Longrightarrow> wait_alone K t rs f = None"
  "pc f t = Xchg w \<Longrightarrow> wait_alone K t [] f = None"
  "pc f t = Xchg w \<Longrightarrow> wait_alone K t (r # rs) f = wait_alone K t rs (wait_turn K t r f)"
  by (simp_all add: wait_alone.simps [of K t _ f])

lemma wait_turn_outcome:
  assumes "futex_manual K" and "pc f t = Xchg (By_wait_timeout timeout)" and "atomic (value f) \<noteq> 0"
  shows "pc (wait_turn K t r f) t =
      (if retry r then Xchg (By_wait_timeout timeout)
       else case r of Failed e \<Rightarrow> if e = ETIMEDOUT then Refused else Threw e | Woken \<Rightarrow> Locked)"
    and "atomic (value (wait_turn K t r f)) = 2"
    and "queue (wait_turn K t r f) = filter (\<lambda>u. u \<noteq> t) (queue f)"
proof -
  let ?f1 = "wait_exchange (By_wait_timeout timeout) t f"
  have f1: "pc ?f1 t = Syscall (By_wait_timeout timeout)" "atomic (value ?f1) = 2" "queue ?f1 = queue f"
    using assms(3) by (simp_all add: wait_exchange_def access_def wait_loop_def exchange_def case_prod_beta)
  with assms(1) have "wait_turn K t r f = wait_return (By_wait_timeout timeout) t r
      (?f1\<lparr>pc := (pc ?f1)(t := Blocked (By_wait_timeout timeout)), queue := queue f @ [t]\<rparr>)"
    using assms(2) by (simp add: wait_turn_def Let_def wait_syscall_def futex_manual_def)
  then show "pc (wait_turn K t r f) t =
      (if retry r then Xchg (By_wait_timeout timeout)
       else case r of Failed e \<Rightarrow> if e = ETIMEDOUT then Refused else Threw e | Woken \<Rightarrow> Locked)"
    and "atomic (value (wait_turn K t r f)) = 2"
    and "queue (wait_turn K t r f) = filter (\<lambda>u. u \<noteq> t) (queue f)"
    using f1(2) by (auto simp: wait_return_def wait_continue_def retry_def split: wait_result.splits)
qed

text \<open>A thread that waits alone for a locked futex: the first answer that is not one to try
  again after decides.\<close>

lemma wait_alone_outcome:
  assumes "futex_manual K" and "pc f t = Xchg (By_wait_timeout timeout)" and "atomic (value f) \<noteq> 0"
    and "queue f = []"
  shows "if find (\<lambda>r. \<not> retry r) rs = Some (Failed ETIMEDOUT)
    then \<exists>f'. wait_alone K t rs f = Some (False, f') \<and> atomic (value f') = 2 \<and> queue f' = []
    else wait_alone K t rs f = None"
  using assms(2-)
proof (induction rs arbitrary: f)
  case Nil
  then show ?case by (simp add: wait_alone_at)
next
  case (Cons r rs)
  note turn = wait_turn_outcome [OF assms(1) Cons.prems(1,2), of r]
  show ?case
  proof (cases "retry r")
    case True
    with Cons.IH [of "wait_turn K t r f"] Cons.prems turn show ?thesis by (simp add: wait_alone_at)
  next
    case False
    then obtain e where "r = Failed e" by (cases r) (simp_all add: retry_def)
    with False Cons.prems turn show ?thesis by (cases "e = ETIMEDOUT") (simp_all add: wait_alone_at)
  qed
qed

lemma futex_timeouts_checked:
  assumes "futex_manual K"
  shows "if find (\<lambda>r. \<not> retry r) answers = Some (Failed ETIMEDOUT)
    then \<exists>f. check_futex_timeouts std K answers = Some ([True, True], f)
           \<and> atomic (value f) = UNLOCKED \<and> pc f 0 = Idle \<and> queue f = []
    else check_futex_timeouts std K answers = None"
proof -
  define f1 where "f1 = trylock_timeout (Some \<lparr>tv_sec = 0, tv_nsec = 1000\<rparr>) 0 (futex_init std None)"
  define f2 where "f2 = trylock_timeout (Some \<lparr>tv_sec = 0, tv_nsec = 1000\<rparr>) 0 f1"
  have f1: "pc f1 0 = Locked" "atomic (value f1) = 1" "queue f1 = []"
    by (simp_all add: f1_def futex_ops compare_exchange_strong_def futex_init_def Atomic_init_def case_prod_beta)
  then have f2: "pc f2 0 = Xchg (By_wait_timeout (Some \<lparr>tv_sec = 0, tv_nsec = 1000\<rparr>))" "atomic (value f2) \<noteq> 0" "queue f2 = []"
    by (simp_all add: f2_def futex_ops compare_exchange_strong_def wait_entry_def case_prod_beta)
  have unlocked: "pc (unlock 0 f) 0 = Wake_store \<and> atomic (value (wake_call K 0 (wake_store std 0 (unlock 0 f)))) = 0
      \<and> pc (wake_call K 0 (wake_store std 0 (unlock 0 f))) 0 = Idle
      \<and> queue (wake_call K 0 (wake_store std 0 (unlock 0 f))) = []"
    if "atomic (value f) = 2" "queue f = []" for f
    using that by (simp add: unlock_def wake_store_def wake_call_def access_def fetch_sub_def case_prod_beta Let_def)
  have "check_futex_timeouts std K answers = do {
       (locked2, g) \<leftarrow> wait_alone K 0 answers f2;
       let f3 = unlock 0 g;
       let f4 = (if pc f3 0 = Wake_store then wake_call K 0 (wake_store std 0 f3) else f3);
       Some ([True, locked2 = False], f4) }"
    using f1(1) by (simp add: check_futex_timeouts_def Let_def f1_def [symmetric] f2_def [symmetric] wait_alone_at)
  with wait_alone_outcome [OF assms f2, of answers] unlocked show ?thesis
    by (auto simp: Let_def split: if_splits)
qed

text \<open>It passes if and only if the system rejects the name -1, and reports a cache line of 64
  bytes and a page of 4096 when it is asked for each of them for the first time.\<close>

lemma sysconf_checked:
  fixes T :: "'t::len word itself" and S :: "('k, 'l::len) os_sysconf"
  shows "check_sysconf lc pg S T p = [True, True, True, True, True] \<longleftrightarrow>
     (case S (- 1) (p\<lparr>errno := 0\<rparr>) of (n, p1) \<Rightarrow>
        n = - 1 \<and> errno p1 \<noteq> 0
        \<and> (case S lc (p1\<lparr>errno := 0\<rparr>) of (line, p2) \<Rightarrow>
             \<not> (line = - 1 \<and> errno p2 \<noteq> 0) \<and> (scast line :: 't word) = 64
             \<and> (case S pg (p2\<lparr>errno := 0\<rparr>) of (page, p3) \<Rightarrow>
                  \<not> (page = - 1 \<and> errno p3 \<noteq> 0) \<and> (scast page :: 't word) = 4096)))"
  by (auto simp: check_sysconf_def sysconf_def cache_line_def page_size_def statics_init_def throws_def
      split: prod.splits if_splits)

text \<open>It passes for the version 0.0.6 only; in particular no other number passes modulo \<open>2 ^ 16\<close>.\<close>

lemma version_checked:
  "check_version major minor patch = Some [True, True, True]
     \<longleftrightarrow> major = 0 \<and> minor = 0 \<and> patch = 6"
proof
  assume "check_version major minor patch = Some [True, True, True]"
  then obtain v where "version_of major minor patch = Some v" "MAJOR v = 0" "MINOR v = 0" "PATCH v = 6"
    by (auto simp: check_version_def)
  with version_of_values [of major minor patch v] show "major = 0 \<and> minor = 0 \<and> patch = 6" by simp
qed (simp add: check_version_def version_of_def braced16_def)

section \<open>Properties\<close>

text \<open>C34. The single-threaded test cases pass: one stack, on either kind of platform, with any
  block and whatever the memory of the block holds; the wrapper and the pointer on every
  supported target; the double-word functions of x86 in every processor state; the version
  test for 0.0.6 and nothing else; the futex with a timeout, however often the system call is
  interrupted before it times out.\<close>

theorem unit_tests_pass:
  fixes block x1 :: "'w::len word"
  assumes "block \<noteq> 0" and "PLATFORM_ABA_SOLUTION p \<noteq> None" and "distinct [x1, x2, x3]"
    and "futex_manual K" and "find (\<lambda>r. \<not> retry r) answers = Some (Failed ETIMEDOUT)"
  shows "check_one_stack sol block links = Some [True, True, True, True]
    \<and> check_aba_wrapper p = Some [True, True, True, True]
    \<and> check_concurrent_ptr p x1 x2 x3 mem0 = Some [True, True, True, True, True]
    \<and> check_dwcas64 r = Some [True, True]
    \<and> check_dwcas32_x64 r' = Some [True, True] \<and> check_dwcas32_i686 q = Some [True, True]
    \<and> (check_version major minor patch = Some [True, True, True]
         \<longleftrightarrow> major = 0 \<and> minor = 0 \<and> patch = 6)
    \<and> (\<exists>f. check_futex_timeouts std K answers = Some ([True, True], f)
           \<and> atomic (value f) = UNLOCKED \<and> pc f 0 = Idle \<and> queue f = [])"
  using one_stack_checked [OF assms(1)] aba_wrapper_checked [OF assms(2)]
    concurrent_ptr_checked [OF assms(2,3)] dwcas_checked futex_timeouts_checked [OF assms(4), of answers std] version_checked [of major minor patch]
  by (simp add: assms(5))

theorem unit_tests_pass_witness:
  "check_one_stack DWCAS (16 :: u64) (\<lambda>_. 7) = Some [True, True, True, True]
   \<and> check_concurrent_ptr X86_64 (8 :: u64) 16 24 (\<lambda>_. 0) = Some [True, True, True, True, True]
   \<and> (\<exists>f. check_futex_timeouts CXX17 fifo_kernel [Failed EINTR, Woken, Failed ETIMEDOUT]
            = Some ([True, True], f) \<and> atomic (value f) = UNLOCKED)"
  using unit_tests_pass [of "16 :: u64" X86_64 8 16 24 fifo_kernel
      "[Failed EINTR, Woken, Failed ETIMEDOUT]" DWCAS "\<lambda>_. 7" "\<lambda>_. 0"]
  by (simp add: PLATFORM_ABA_SOLUTION_def retry_def; blast)

end
