(* ===== verification/Futex_Base.thy ===== *)
theory Futex_Base
  imports Prelude
begin

text \<open>
  The class \<open>FutexBase\<close> of \<open>futex.hpp\<close>: the wrappers that put the arguments of the futex
  system call together. The numbers of \<open>linux/futex.h\<close> are a parameter of the model; what
  the wrappers rely on is that the codes of a \<open>FUTEX_WAKE_OP\<close> fit their fields.
\<close>

section \<open>Constants of the system header\<close>

datatype Op = OP_SET | OP_ADD | OP_OR | OP_ANDN | OP_XOR

datatype OpArgShift = DIRECT | SHIFT

datatype Cmp = CMP_EQ | CMP_NE | CMP_LT | CMP_LE | CMP_GT | CMP_GE

record futex_header =
  WAIT_PRIVATE :: u32
  WAKE_PRIVATE :: u32
  CMP_REQUEUE_PRIVATE :: u32
  WAKE_OP_PRIVATE :: u32
  WAIT_BITSET_PRIVATE :: u32
  WAKE_BITSET_PRIVATE :: u32
  op_code :: "Op \<Rightarrow> u8"
  cmp_code :: "Cmp \<Rightarrow> u8"

text \<open>futex(2) gives the operation 3 bits (the fourth is the shift flag) and the comparison 4.\<close>

definition header_ok :: "futex_header \<Rightarrow> bool" where
  "header_ok H \<longleftrightarrow>
     inj (op_code H) \<and> (\<forall>x. unat (op_code H x) < 8) \<and> inj (cmp_code H) \<and> (\<forall>x. unat (cmp_code H x) < 16)"

fun shift_code :: "OpArgShift \<Rightarrow> u32" where
  "shift_code DIRECT = 0"
| "shift_code SHIFT = 1"

section \<open>The system call\<close>

text \<open>
  The six arguments of \<open>syscall(SYS_futex, ...)\<close>. The fourth is a pointer for some
  operations and a number for others; \<open>'p\<close> is the pointer width. An \<open>int\<close> has 32 bits.
\<close>

record ('p, 'i) futex_args =
  addr1 :: 'p
  futex_op :: 'i
  val1 :: 'i
  arg4 :: 'p
  addr2 :: 'p
  val3 :: 'i

type_synonym 'p args = "('p word, u32) futex_args"

definition syscall_futex_timeout ::
    "'p word \<Rightarrow> u32 \<Rightarrow> u32 \<Rightarrow> 'p word \<Rightarrow> 'p word \<Rightarrow> u32 \<Rightarrow> 'p::len args" where
  "syscall_futex_timeout a1 fop v1 timeout a2 v3 =
     \<lparr>addr1 = a1, futex_op = fop, val1 = v1, arg4 = timeout, addr2 = a2, val3 = v3\<rparr>"

definition syscall_futex_val2 ::
    "'p word \<Rightarrow> u32 \<Rightarrow> u32 \<Rightarrow> u32 \<Rightarrow> 'p word \<Rightarrow> u32 \<Rightarrow> 'p::len args" where
  "syscall_futex_val2 a1 fop v1 val2 a2 v3 =
     \<lparr>addr1 = a1, futex_op = fop, val1 = v1, arg4 = ucast val2, addr2 = a2, val3 = v3\<rparr>"

text \<open>The wrappers; the first argument is the address of \<open>value.atomic\<close>, \<open>nullptr\<close> is 0.\<close>

definition futex_wait :: "futex_header \<Rightarrow> 'p word \<Rightarrow> u32 \<Rightarrow> 'p word \<Rightarrow> 'p::len args" where
  "futex_wait H this expected timeout_relative =
     syscall_futex_timeout this (WAIT_PRIVATE H) expected timeout_relative 0 0"

definition futex_wake :: "futex_header \<Rightarrow> 'p word \<Rightarrow> u32 \<Rightarrow> 'p::len args" where
  "futex_wake H this wakeups = syscall_futex_timeout this (WAKE_PRIVATE H) wakeups 0 0 0"

definition futex_cmp_requeue ::
    "futex_header \<Rightarrow> 'p word \<Rightarrow> u32 \<Rightarrow> u32 \<Rightarrow> 'p word \<Rightarrow> u32 \<Rightarrow> 'p::len args" where
  "futex_cmp_requeue H this wakeups limit target expected =
     syscall_futex_val2 this (CMP_REQUEUE_PRIVATE H) wakeups limit target expected"

definition wake_op_val3 ::
    "futex_header \<Rightarrow> Cmp \<Rightarrow> 16 word \<Rightarrow> Op \<Rightarrow> 16 word \<Rightarrow> OpArgShift \<Rightarrow> u32" where
  "wake_op_val3 H cmp cmparg opn oparg oparg_shift =
     push_bit 31 (shift_code oparg_shift)
     OR push_bit 28 (ucast (op_code H opn))
     OR push_bit 24 (ucast (cmp_code H cmp))
     OR push_bit 12 (ucast (oparg AND 0xFFF))
     OR ucast (cmparg AND 0xFFF)"

definition futex_wake_op ::
    "futex_header \<Rightarrow> 'p word \<Rightarrow> u32 \<Rightarrow> u32 \<Rightarrow> 'p word \<Rightarrow> Cmp \<Rightarrow> 16 word \<Rightarrow> Op \<Rightarrow> 16 word \<Rightarrow>
     OpArgShift \<Rightarrow> 'p::len args" where
  "futex_wake_op H this wakeups1 wakeups2 address2 cmp cmparg opn oparg oparg_shift =
     syscall_futex_val2 this (WAKE_OP_PRIVATE H) wakeups1 wakeups2 address2
       (wake_op_val3 H cmp cmparg opn oparg oparg_shift)"

definition futex_wait_bitset ::
    "futex_header \<Rightarrow> 'p word \<Rightarrow> u32 \<Rightarrow> u32 \<Rightarrow> 'p word \<Rightarrow> 'p::len args" where
  "futex_wait_bitset H this bits expected timeout_absolute =
     syscall_futex_timeout this (WAIT_BITSET_PRIVATE H) expected timeout_absolute 0 bits"

definition futex_wake_bitset ::
    "futex_header \<Rightarrow> 'p word \<Rightarrow> u32 \<Rightarrow> u32 \<Rightarrow> 'p::len args" where
  "futex_wake_bitset H this bits wakeups =
     syscall_futex_timeout this (WAKE_BITSET_PRIVATE H) wakeups 0 0 bits"

section \<open>The fields of a wake operation\<close>

text \<open>How futex(2) documents the layout the kernel decodes.\<close>

definition field :: "nat \<Rightarrow> nat \<Rightarrow> u32 \<Rightarrow> u32" where
  "field lo n v = take_bit n (drop_bit lo v)"

lemma bit_field: "bit (field lo n v) i \<longleftrightarrow> i < n \<and> bit v (lo + i)"
  by (simp add: field_def bit_simps)

text \<open>Bits beyond the width of a field are zero.\<close>

lemma bit_small:
  assumes "unat w < 2 ^ n" and "bit w i"
  shows "i < n"
proof -
  have "take_bit n (unat w) = unat w"
    using assms(1) by (simp add: take_bit_nat_eq_self_iff)
  moreover have "bit (unat w) i"
    using assms(2) by (simp add: bit_unsigned_iff bit_imp_le_length)
  ultimately show ?thesis by (metis bit_take_bit_iff)
qed

lemma op_code_bits: "header_ok H \<Longrightarrow> bit (op_code H x) i \<Longrightarrow> i < 3"
  using bit_small [of "op_code H x" 3 i] by (simp add: header_ok_def)

lemma cmp_code_bits: "header_ok H \<Longrightarrow> bit (cmp_code H x) i \<Longrightarrow> i < 4"
  using bit_small [of "cmp_code H x" 4 i] by (simp add: header_ok_def)

text \<open>The bits that would run into the field above.\<close>

lemma code_overflow:
  assumes "header_ok H"
  shows "\<not> bit (op_code H x) 3" and "\<not> bit (cmp_code H c) 7"
  using op_code_bits [OF assms, of x 3] cmp_code_bits [OF assms, of c 7] by auto

lemma shift_code_bit: "bit (shift_code x) i \<longleftrightarrow> x = SHIFT \<and> i = 0"
  by (cases x) (simp_all add: bit_1_iff)

lemma mask_fff: "(0xFFF :: 'w::len word) = mask 12"
  by (simp add: mask_eq_exp_minus_1)

lemmas val3_bits =
  bit_field wake_op_val3_def bit_simps shift_code_bit mask_fff

lemma val3_fields:
  assumes "header_ok H"
  shows "field 31 1 (wake_op_val3 H c ca x xa sh) = shift_code sh"
    and "field 28 3 (wake_op_val3 H c ca x xa sh) = ucast (op_code H x)"
    and "field 24 4 (wake_op_val3 H c ca x xa sh) = ucast (cmp_code H c)"
    and "field 12 12 (wake_op_val3 H c ca x xa sh) = ucast (xa AND 0xFFF)"
    and "field 0 12 (wake_op_val3 H c ca x xa sh) = ucast (ca AND 0xFFF)"
  using assms
  by (auto intro!: bit_word_eqI simp: val3_bits code_overflow dest: op_code_bits cmp_code_bits)

lemma small_argument: "unat w < 4096 \<Longrightarrow> w AND 0xFFF = (w :: 16 word)"
  using bit_small [of w 12] by (intro bit_word_eqI) (auto simp: bit_simps mask_fff)

lemma ucast_inject:
  assumes "LENGTH('a::len) \<le> 32"
  shows "(ucast (a :: 'a word) :: u32) = ucast b \<longleftrightarrow> a = b"
proof -
  have "(ucast (ucast w :: u32) :: 'a word) = w" for w
    using assms by (intro bit_word_eqI) (auto simp: bit_simps)
  then show ?thesis by metis
qed

lemma shift_code_inject: "shift_code a = shift_code b \<longleftrightarrow> a = b"
  by (cases a; cases b) simp_all

text \<open>The operation word determines what it was made of, and the other way round.\<close>

lemma val3_inject:
  assumes "header_ok H"
  shows "wake_op_val3 H c ca x xa sh = wake_op_val3 H c' ca' x' xa' sh' \<longleftrightarrow>
    c = c' \<and> x = x' \<and> sh = sh' \<and> xa AND 0xFFF = xa' AND 0xFFF \<and> ca AND 0xFFF = ca' AND 0xFFF"
proof
  assume eq: "wake_op_val3 H c ca x xa sh = wake_op_val3 H c' ca' x' xa' sh'"
  note fields = val3_fields [OF assms, of c ca x xa sh, unfolded eq val3_fields [OF assms]]
  have "inj (op_code H)" "inj (cmp_code H)" using assms by (simp_all add: header_ok_def)
  with fields show "c = c' \<and> x = x' \<and> sh = sh' \<and> xa AND 0xFFF = xa' AND 0xFFF
      \<and> ca AND 0xFFF = ca' AND 0xFFF"
    by (simp add: ucast_inject shift_code_inject inj_eq)
qed (simp add: wake_op_val3_def)

section \<open>Properties\<close>

text \<open>C37. The operation word of \<open>futex_wake_op\<close> decodes, by the layout of futex(2), into the shift
  flag, the operation, the comparison and the low 12 bits of the two arguments, whatever
  their upper bits are; arguments below 4096 arrive unchanged. So two calls pass equal words
  exactly if they have the same comparison, operation and shift and their arguments agree in
  the low 12 bits.\<close>

theorem wake_op_roundtrip:
  assumes "header_ok H"
  shows "let v = val3 (futex_wake_op H this wakeups requeued addr c cmparg x oparg sh);
      v' = val3 (futex_wake_op H this' wakeups' requeued' addr' c' cmparg' x' oparg' sh') in
    field 31 1 v = shift_code sh \<and> field 28 3 v = ucast (op_code H x)
    \<and> field 24 4 v = ucast (cmp_code H c)
    \<and> field 12 12 v = ucast (oparg AND 0xFFF) \<and> field 0 12 v = ucast (cmparg AND 0xFFF)
    \<and> (unat oparg < 4096 \<longrightarrow> field 12 12 v = ucast oparg)
    \<and> (unat cmparg < 4096 \<longrightarrow> field 0 12 v = ucast cmparg)
    \<and> (v = v' \<longleftrightarrow> c = c' \<and> x = x' \<and> sh = sh' \<and> oparg AND 0xFFF = oparg' AND 0xFFF
         \<and> cmparg AND 0xFFF = cmparg' AND 0xFFF)"
  using val3_fields [OF assms, of c cmparg x oparg sh] small_argument [of oparg]
    small_argument [of cmparg] val3_inject [OF assms]
  by (simp add: futex_wake_op_def syscall_futex_val2_def)

definition linux_header :: futex_header where
  "linux_header =
     \<lparr>WAIT_PRIVATE = 128, WAKE_PRIVATE = 129, CMP_REQUEUE_PRIVATE = 132, WAKE_OP_PRIVATE = 133,
      WAIT_BITSET_PRIVATE = 137, WAKE_BITSET_PRIVATE = 138,
      op_code = (\<lambda>x. case x of OP_SET \<Rightarrow> 0 | OP_ADD \<Rightarrow> 1 | OP_OR \<Rightarrow> 2 | OP_ANDN \<Rightarrow> 3 | OP_XOR \<Rightarrow> 4),
      cmp_code = (\<lambda>c. case c of CMP_EQ \<Rightarrow> 0 | CMP_NE \<Rightarrow> 1 | CMP_LT \<Rightarrow> 2 | CMP_LE \<Rightarrow> 3
                             | CMP_GT \<Rightarrow> 4 | CMP_GE \<Rightarrow> 5)\<rparr>"

lemma linux_header_ok: "header_ok linux_header"
  by (auto simp: header_ok_def linux_header_def inj_on_def split: Op.splits Cmp.splits)

theorem wake_op_roundtrip_witness:
  "let v = (\<lambda>n. val3 (futex_wake_op linux_header (0x1000 :: u64) 1 1 0x2000 CMP_GT 7 OP_XOR n SHIFT))
   in field 28 3 (v 0xF123) = 4 \<and> field 12 12 (v 0xF123) = 0x123 \<and> v 0xF123 = v 0x0123
      \<and> v 0xF123 \<noteq> v 0xF124"
  using wake_op_roundtrip [OF linux_header_ok, where this = "0x1000 :: u64" and oparg = "0xF123" and
      cmparg = 7 and wakeups = 1 and requeued = 1 and addr = "0x2000" and c = CMP_GT and
      x = OP_XOR and sh = SHIFT and this' = "0x1000 :: u64" and oparg' = "0x0123" and
      cmparg' = 7 and wakeups' = 1 and requeued' = 1 and addr' = "0x2000" and c' = CMP_GT and
      x' = OP_XOR and sh' = SHIFT]
    wake_op_roundtrip [OF linux_header_ok, where this = "0x1000 :: u64" and oparg = "0xF123" and
      cmparg = 7 and wakeups = 1 and requeued = 1 and addr = "0x2000" and c = CMP_GT and
      x = OP_XOR and sh = SHIFT and this' = "0x1000 :: u64" and oparg' = "0xF124" and
      cmparg' = 7 and wakeups' = 1 and requeued' = 1 and addr' = "0x2000" and c' = CMP_GT and
      x' = OP_XOR and sh' = SHIFT]
  by (simp add: linux_header_def Let_def)

text \<open>The overload for numbers hands the count over unchanged: on a platform whose pointers
  have at least 32 bits the kernel, which reads the fourth argument back as a 32-bit number,
  gets the limit of \<open>futex_cmp_requeue\<close> and the second count of \<open>futex_wake_op\<close>, and the
  upper half of the argument is zero.\<close>

lemma requeue_limit_roundtrip:
  assumes "32 \<le> LENGTH('p::len)"
  shows "let r = futex_cmp_requeue H (this :: 'p word) n limit target expected;
      r' = futex_wake_op H this n limit target c ca x xa sh in
    (ucast (arg4 r) :: u32) = limit \<and> (ucast (arg4 r') :: u32) = limit
    \<and> unat (arg4 r) = unat limit \<and> unat (arg4 r') = unat limit"
proof -
  have "(ucast (ucast limit :: 'p word) :: u32) = limit"
    using assms(1) by (intro bit_word_eqI) (auto simp: bit_simps)
  moreover have "unat (ucast limit :: 'p word) = unat limit"
  proof -
    have "unat limit < 2 ^ LENGTH('p)"
    proof (rule less_le_trans [OF unsigned_less])
      show "(2 :: nat) ^ LENGTH(32) \<le> 2 ^ LENGTH('p)"
        using assms(1) by (intro power_increasing) simp_all
    qed
    then show ?thesis by (simp add: unsigned_ucast_eq take_bit_nat_eq_self_iff)
  qed
  ultimately show ?thesis
    by (simp add: Let_def futex_cmp_requeue_def futex_wake_op_def syscall_futex_val2_def)
qed

end
