(* ===== verification/Futex_Syscall.thy ===== *)
theory Futex_Syscall
  imports Futex_System Futex_Base
begin

text \<open>
  The class \<open>Futex\<close> over the system call: several futexes in one address space, whose waiting
  and waking goes through \<open>futex_wait\<close> and \<open>futex_wake\<close> of \<open>FutexBase\<close> to one kernel with a
  wait queue for each address. Seen at one address, every execution is one of the futex
  system of \<open>Futex\<close>, with a kernel that keeps the promise that system relies on.
\<close>

section \<open>The kernel\<close>

text \<open>
  The kernel is a parameter. It gets the six arguments of the call. \<open>wait_now\<close>: from the value
  at the first address, the result of a wait that returns at once, with \<open>errno\<close>, or \<open>None\<close>
  when the caller is suspended; \<open>wait_ends\<close>: which results a wait may have that nobody wakes;
  \<open>wake_now\<close>: from the queue at the first address the threads that are woken, and the result.
\<close>

record ('a, 'r) futex_os =
  wait_now :: "'a \<Rightarrow> u32 \<Rightarrow> ('r \<times> errno) option"
  wait_ends :: "'a \<Rightarrow> 'r \<Rightarrow> errno \<Rightarrow> bool"
  wake_now :: "'a \<Rightarrow> tid list \<Rightarrow> tid list \<times> 'r \<times> errno"

type_synonym ('p, 'l) os = "('p args, 'l word) futex_os"

text \<open>What futex(2) says of the two operations, by the arguments in the call: the expected value
  and the number of waiters to wake are \<open>val\<close>, a wait without a timeout never times out, an
  error is reported as -1, and a wake returns how many it has woken.\<close>

definition os_manual :: "futex_header \<Rightarrow> ('p::len, 'l::len) os \<Rightarrow> bool" where
  "os_manual H os \<longleftrightarrow>
     (\<forall>x v. futex_op x = WAIT_PRIVATE H \<longrightarrow>
        wait_now os x v = (if v = val1 x then None else Some (- 1, EAGAIN)))
     \<and> (\<forall>x r e. futex_op x = WAIT_PRIVATE H \<longrightarrow> wait_ends os x r e \<longrightarrow>
        r = 0 \<or> r = - 1 \<and> (e = ETIMEDOUT \<longrightarrow> arg4 x \<noteq> 0))
     \<and> (\<forall>x q picked r e. futex_op x = WAKE_PRIVATE H \<longrightarrow> distinct q \<longrightarrow>
        wake_now os x q = (picked, r, e) \<longrightarrow>
        set picked \<subseteq> set q \<and> distinct picked
        \<and> length picked = min (nat (sint (val1 x))) (length q) \<and> r = of_nat (length picked))"

section \<open>The futexes of a process\<close>

text \<open>The object at each address, whose own \<open>queue\<close> stays empty, and the queues of the kernel.\<close>

record 'p process_futexes =
  object_at :: "'p \<Rightarrow> futex_sys"
  waiters_at :: "'p \<Rightarrow> tid list"

definition futexes_init ::
    "cxx_std \<Rightarrow> ('p \<Rightarrow> tid option) \<Rightarrow> 'p process_futexes" where
  "futexes_init std own =
     \<lparr>object_at = (\<lambda>a. futex_init std (own a)), waiters_at = (\<lambda>_. [])\<rparr>"

definition set_pc :: "'p \<Rightarrow> tid \<Rightarrow> fpc \<Rightarrow> 'p process_futexes \<Rightarrow> 'p process_futexes" where
  "set_pc a t p m =
     (let s = object_at m a in m\<lparr>object_at := (object_at m)(a := s\<lparr>pc := (pc s)(t := p)\<rparr>)\<rparr>)"

text \<open>The wrappers cast the \<open>long\<close> of \<open>syscall\<close> to \<open>int\<close>; \<open>wait\<close> and \<open>wait_timeout\<close> test it
  against 0, \<open>wake\<close> for a negative value.\<close>

definition wait_returned :: "'l::len word \<Rightarrow> errno \<Rightarrow> wait_result" where
  "wait_returned r e = (if (ucast r :: u32) \<noteq> 0 then Failed e else Woken)"

definition wake_returned :: "'l::len word \<Rightarrow> errno \<Rightarrow> fpc" where
  "wake_returned r e = (if sint (ucast r :: u32) < 0 then Threw e else Idle)"

text \<open>The call of a thread that waits; \<open>tmo t\<close> gives the address at which thread \<open>t\<close> has the
  \<open>timespec\<close> it gives to \<open>trylock_timeout\<close>.\<close>

definition wait_args ::
    "futex_header \<Rightarrow> (tid \<Rightarrow> timespec \<Rightarrow> 'p word) \<Rightarrow> 'p word \<Rightarrow> tid \<Rightarrow> waiter \<Rightarrow> 'p::len args"
    where
  "wait_args H tmo a t w =
     futex_wait H a LOCKED_WAITERS
       (case wait_timeout_arg w of None \<Rightarrow> 0 | Some timeout \<Rightarrow> tmo t timeout)"

definition enter_wait ::
    "('p::len, 'l::len) os \<Rightarrow> 'p args \<Rightarrow> 'p word \<Rightarrow> tid \<Rightarrow> waiter \<Rightarrow> 'p word process_futexes \<Rightarrow>
     'p word process_futexes" where
  "enter_wait os x a t w m =
     (case wait_now os x (atomic (value (object_at m (addr1 x)))) of
        None \<Rightarrow>
          (set_pc a t (Blocked w) m)\<lparr>waiters_at :=
             (waiters_at m)(addr1 x := waiters_at m (addr1 x) @ [t])\<rparr>
      | Some (r, e) \<Rightarrow> set_pc a t (wait_continue w (wait_returned r e)) m)"

definition leave_wait ::
    "'p args \<Rightarrow> 'p word \<Rightarrow> tid \<Rightarrow> waiter \<Rightarrow> 'l::len word \<Rightarrow> errno \<Rightarrow> 'p::len word process_futexes \<Rightarrow>
     'p word process_futexes" where
  "leave_wait x a t w r e m =
     (set_pc a t (wait_continue w (wait_returned r e)) m)\<lparr>waiters_at :=
        (waiters_at m)(addr1 x := filter (\<lambda>u. u \<noteq> t) (waiters_at m (addr1 x)))\<rparr>"

definition enter_wake ::
    "('p::len, 'l::len) os \<Rightarrow> 'p args \<Rightarrow> 'p word \<Rightarrow> tid \<Rightarrow> 'p word process_futexes \<Rightarrow>
     'p word process_futexes" where
  "enter_wake os x a t m =
     (case wake_now os x (waiters_at m (addr1 x)) of
        (picked, r, e) \<Rightarrow>
          (let b = addr1 x; s = object_at m b in
           set_pc a t (wake_returned r e)
             (m\<lparr>object_at := (object_at m)(b :=
                  s\<lparr>pc := (\<lambda>u. if u \<in> set picked then woken (pc s u) else pc s u)\<rparr>),
                waiters_at := (waiters_at m)(b :=
                  filter (\<lambda>u. u \<notin> set picked) (waiters_at m b))\<rparr>)))"

text \<open>The steps of the code that are no system calls; any kernel gives the same.\<close>

definition no_call :: "action \<Rightarrow> futex_sys \<Rightarrow> bool" where
  "no_call a s \<longleftrightarrow>
     (case a of
        Run t \<Rightarrow> (case pc s t of Xchg w \<Rightarrow> True | Wake_store \<Rightarrow> True | _ \<Rightarrow> False)
      | Wait_returns t r \<Rightarrow> False
      | Wake_fails t e \<Rightarrow> False
      | _ \<Rightarrow> True)"

text \<open>A step at one address: code without a system call, a system call, and the return of a call
  that nobody has woken or that has failed.\<close>

datatype 'r sys_action =
    Code action
  | Enter tid
  | Wait_ends tid 'r errno
  | Wake_ends tid 'r errno

fun sys_act ::
    "futex_header \<Rightarrow> cxx_std \<Rightarrow> ('p::len, 'l::len) os \<Rightarrow> (tid \<Rightarrow> timespec \<Rightarrow> 'p word) \<Rightarrow> 'p word \<Rightarrow>
     'l word sys_action \<Rightarrow> 'p word process_futexes \<Rightarrow> 'p word process_futexes option" where
  "sys_act H std os tmo a (Code c) m =
     (if no_call c (object_at m a)
      then map_option (\<lambda>s. m\<lparr>object_at := (object_at m)(a := s)\<rparr>) (fact std fifo_kernel c (object_at m a))
      else None)"
| "sys_act H std os tmo a (Enter t) m =
     (case pc (object_at m a) t of
        Syscall w \<Rightarrow> Some (enter_wait os (wait_args H tmo a t w) a t w m)
      | Wake_call \<Rightarrow> Some (enter_wake os (futex_wake H a 1) a t m)
      | _ \<Rightarrow> None)"
| "sys_act H std os tmo a (Wait_ends t r e) m =
     (case pc (object_at m a) t of
        Syscall w \<Rightarrow>
          if wait_ends os (wait_args H tmo a t w) r e
          then Some (leave_wait (wait_args H tmo a t w) a t w r e m) else None
      | Blocked w \<Rightarrow>
          if wait_ends os (wait_args H tmo a t w) r e
          then Some (leave_wait (wait_args H tmo a t w) a t w r e m) else None
      | _ \<Rightarrow> None)"
| "sys_act H std os tmo a (Wake_ends t r e) m =
     (if pc (object_at m a) t = Wake_call \<and> wake_returned r e = Threw e
      then (let m' = set_pc a t (Threw e) m in
            Some (m'\<lparr>object_at := (object_at m')(a := (object_at m' a)\<lparr>wake_failed := True\<rparr>)\<rparr>))
      else None)"

inductive sys_reach ::
    "futex_header \<Rightarrow> cxx_std \<Rightarrow> ('p::len, 'l::len) os \<Rightarrow> (tid \<Rightarrow> timespec \<Rightarrow> 'p word) \<Rightarrow> ('p word \<Rightarrow> tid option) \<Rightarrow>
     'p word process_futexes \<Rightarrow> bool" for H std os tmo own where
  init: "sys_reach H std os tmo own (futexes_init std own)"
| step: "sys_reach H std os tmo own m \<Longrightarrow> sys_act H std os tmo a c m = Some m' \<Longrightarrow>
     sys_reach H std os tmo own m'"

fun_cases sys_codeE: "sys_act H std os tmo a (Code c) m = Some m'"
fun_cases sys_enterE: "sys_act H std os tmo a (Enter t) m = Some m'"
fun_cases sys_wait_endsE: "sys_act H std os tmo a (Wait_ends t r e) m = Some m'"
fun_cases sys_wake_endsE: "sys_act H std os tmo a (Wake_ends t r e) m = Some m'"

fun sys_run ::
    "futex_header \<Rightarrow> cxx_std \<Rightarrow> ('p::len, 'l::len) os \<Rightarrow> (tid \<Rightarrow> timespec \<Rightarrow> 'p word) \<Rightarrow>
     ('p word \<times> 'l word sys_action) list \<Rightarrow> 'p word process_futexes \<Rightarrow> 'p word process_futexes option"
    where
  "sys_run H std os tmo [] m = Some m"
| "sys_run H std os tmo ((a, c) # cs) m =
     (case sys_act H std os tmo a c m of None \<Rightarrow> None | Some m' \<Rightarrow> sys_run H std os tmo cs m')"

section \<open>One address\<close>

text \<open>The futex at an address with its queue, and the kernel as it looks from there.\<close>

definition futex_at :: "'p \<Rightarrow> 'p process_futexes \<Rightarrow> futex_sys" where
  "futex_at a m = (object_at m a)\<lparr>queue := waiters_at m a\<rparr>"

definition kernel_at :: "futex_header \<Rightarrow> ('p::len, 'l::len) os \<Rightarrow> 'p word \<Rightarrow> futex_kernel" where
  "kernel_at H os a =
     \<lparr>wait_blocks = (\<lambda>v expected timeout. wait_now os (futex_wait H a expected 0) v = None),
      wake_picks = (\<lambda>n q. if n = 1 then fst (wake_now os (futex_wake H a 1) q) else take n q)\<rparr>"

lemma os_manualD:
  assumes "os_manual H os"
  shows "futex_op x = WAIT_PRIVATE H \<Longrightarrow>
      wait_now os x v = (if v = val1 x then None else Some (- 1, EAGAIN))"
    and "futex_op x = WAIT_PRIVATE H \<Longrightarrow> wait_ends os x r e \<Longrightarrow>
      r = 0 \<or> r = - 1 \<and> (e = ETIMEDOUT \<longrightarrow> arg4 x \<noteq> 0)"
    and "futex_op x = WAKE_PRIVATE H \<Longrightarrow> distinct q \<Longrightarrow> wake_now os x q = (picked, r, e) \<Longrightarrow>
      set picked \<subseteq> set q \<and> distinct picked
      \<and> length picked = min (nat (sint (val1 x))) (length q) \<and> r = of_nat (length picked)"
  using assms unfolding os_manual_def by blast+

text \<open>What the wrappers hand to the kernel.\<close>

lemma wrapper_args [simp]:
  "addr1 (futex_wait H a v tmo) = a" "futex_op (futex_wait H a v tmo) = WAIT_PRIVATE H"
  "val1 (futex_wait H a v tmo) = v" "arg4 (futex_wait H a v tmo) = tmo"
  "addr1 (futex_wake H a n) = a" "futex_op (futex_wake H a n) = WAKE_PRIVATE H"
  "val1 (futex_wake H a n) = n"
  by (simp_all add: futex_wait_def futex_wake_def syscall_futex_timeout_def)

lemma wait_args_simps [simp]:
  "addr1 (wait_args H tmo a t w) = a" "futex_op (wait_args H tmo a t w) = WAIT_PRIVATE H"
  "val1 (wait_args H tmo a t w) = LOCKED_WAITERS"
  "arg4 (wait_args H tmo a t w) =
     (case wait_timeout_arg w of None \<Rightarrow> 0 | Some timeout \<Rightarrow> tmo t timeout)"
  by (simp_all add: wait_args_def)

lemma kernel_at_manual:
  assumes "os_manual H os"
  shows "futex_manual (kernel_at H os a)"
proof -
  have "set (fst (wake_now os (futex_wake H a 1) q)) \<subseteq> set q
      \<and> distinct (fst (wake_now os (futex_wake H a 1) q))
      \<and> length (fst (wake_now os (futex_wake H a 1) q)) = min 1 (length q)" if "distinct q" for q
    using os_manualD(3) [OF assms _ that, of "futex_wake H a 1"]
    by (cases "wake_now os (futex_wake H a 1) q") simp
  then show ?thesis
    using os_manualD(1) [OF assms]
    by (auto simp: futex_manual_def kernel_at_def dest: in_set_takeD)
qed

text \<open>The results of the calls, decoded.\<close>

lemma minus_one_cast: "(ucast (- 1 :: 'l::len word) :: u32) \<noteq> 0"
proof
  assume "(ucast (- 1 :: 'l word) :: u32) = 0"
  then have "\<not> bit (ucast (- 1 :: 'l word) :: u32) 0" by simp
  then show False by (simp add: bit_simps)
qed

lemma wait_returned_simps [simp]:
  "wait_returned 0 e = Woken" "wait_returned (- 1) e = Failed e"
  by (simp_all add: wait_returned_def minus_one_cast)

lemma wake_returned_count [simp]:
  "wake_returned (0 :: 'l::len word) e = Idle" "wake_returned (1 :: 'l::len word) e = Idle"
proof -
  have "(ucast (1 :: 'l word) :: u32) = 1" by (rule bit_word_eqI) (auto simp: bit_simps bit_1_iff)
  then show "wake_returned (1 :: 'l word) e = Idle" by (simp add: wake_returned_def)
qed (simp add: wake_returned_def)

section \<open>The projection\<close>

lemma fact_no_call:
  assumes "no_call c s"
  shows "fact std K c (s\<lparr>queue := q\<rparr>) = map_option (\<lambda>s'. s'\<lparr>queue := q\<rparr>) (fact std fifo_kernel c s)"
  using assms
  by (cases c) (auto simp: no_call_def futex_ops split: fpc.splits prod.splits)

lemma no_call_queue [simp]: "no_call c (s\<lparr>queue := q\<rparr>) = no_call c s"
  by (cases c) (simp_all add: no_call_def)

lemma set_pc_at:
  "futex_at b (set_pc a t p m) =
     (if b = a then (futex_at a m)\<lparr>pc := (pc (futex_at a m))(t := p)\<rparr> else futex_at b m)"
  by (simp add: futex_at_def set_pc_def Let_def)

text \<open>A step at another address does not show.\<close>

lemma sys_act_elsewhere:
  assumes "sys_act H std os tmo a c m = Some m'" and "b \<noteq> a"
  shows "futex_at b m' = futex_at b m"
  using assms
  by (cases c)
    (auto simp: futex_at_def set_pc_def enter_wait_def leave_wait_def enter_wake_def Let_def
      split: if_splits fpc.splits option.splits prod.splits)

text \<open>Suspension and refusal of a wait, its return, and a wake are those of the futex system.\<close>

lemma enter_wait_at:
  assumes "os_manual H os"
  shows "futex_at a (enter_wait os (wait_args H tmo a t w) a t w m)
    = wait_syscall (kernel_at H os a) w t (futex_at a m)"
  using os_manualD(1) [OF assms]
  by (simp add: enter_wait_def wait_syscall_def kernel_at_def futex_at_def set_pc_def Let_def)

lemma leave_wait_at:
  "futex_at a (leave_wait (wait_args H tmo a t w) a t w r e m)
    = wait_return w t (wait_returned r e) (futex_at a m)"
  by (simp add: leave_wait_def wait_return_def futex_at_def set_pc_def Let_def)

lemma enter_wake_at:
  assumes "os_manual H os" and "distinct (waiters_at m a)"
    and "pc (object_at m a) t = Wake_call" and "t \<notin> set (waiters_at m a)"
  shows "futex_at a (enter_wake os (futex_wake H a 1) a t m)
    = wake_call (kernel_at H os a) t (futex_at a m)"
proof -
  obtain picked and r :: "'b word" and e where w: "wake_now os (futex_wake H a 1) (waiters_at m a) = (picked, r, e)"
    by (metis prod_cases3)
  from os_manualD(3) [OF assms(1) _ assms(2) w] have p: "set picked \<subseteq> set (waiters_at m a)"
    and l: "length picked = min 1 (length (waiters_at m a))" and r: "r = of_nat (length picked)"
    by simp_all
  have "r = 0 \<or> r = 1" using l r by (cases "waiters_at m a") simp_all
  then have "wake_returned r e = Idle" by auto
  moreover have "t \<notin> set picked" using p assms(4) by blast
  ultimately show ?thesis
    using w by (auto simp: enter_wake_def wake_call_def kernel_at_def futex_at_def set_pc_def Let_def
        fun_eq_iff)
qed

lemma sys_act_at:
  assumes os: "os_manual H os" and q: "queue_inv (futex_at a m)"
    and act: "sys_act H std os tmo a c m = Some m'"
  shows "\<exists>c'. fact std (kernel_at H os a) c' (futex_at a m) = Some (futex_at a m')"
proof (cases c)
  case (Code k)
  with act obtain s where nc: "no_call k (object_at m a)" and k: "fact std fifo_kernel k (object_at m a) = Some s"
    and m': "m' = m\<lparr>object_at := (object_at m)(a := s)\<rparr>"
    by (auto elim!: sys_codeE split: if_splits)
  have "fact std (kernel_at H os a) k (futex_at a m) = Some (s\<lparr>queue := waiters_at m a\<rparr>)"
    using fact_no_call [OF nc, of std "kernel_at H os a" "waiters_at m a"] k
    by (simp add: futex_at_def)
  then show ?thesis by (auto simp: m' futex_at_def)
next
  case (Enter t)
  then consider (wait) w where "pc (object_at m a) t = Syscall w"
      "m' = enter_wait os (wait_args H tmo a t w) a t w m"
    | (wake) "pc (object_at m a) t = Wake_call" "m' = enter_wake os (futex_wake H a 1) a t m"
    using act by (auto elim!: sys_enterE split: fpc.splits)
  then have "fact std (kernel_at H os a) (Run t) (futex_at a m) = Some (futex_at a m')"
  proof cases
    case wait
    then show ?thesis using enter_wait_at [OF os] by (simp add: futex_at_def)
  next
    case wake
    have "distinct (waiters_at m a)" "t \<notin> set (waiters_at m a)"
      using q wake(1) by (auto simp: queue_inv_def futex_at_def)
    with enter_wake_at [OF os _ wake(1)] wake show ?thesis by (simp add: futex_at_def)
  qed
  then show ?thesis ..
next
  case (Wait_ends t r e)
  with act obtain w where "pc (object_at m a) t = Syscall w \<or> pc (object_at m a) t = Blocked w"
    and "m' = leave_wait (wait_args H tmo a t w) a t w r e m"
    by (auto elim!: sys_wait_endsE split: fpc.splits if_splits)
  then have "fact std (kernel_at H os a) (Wait_returns t (wait_returned r e)) (futex_at a m)
      = Some (futex_at a m')"
    using leave_wait_at [of a H tmo t w r e m] by (auto simp: futex_at_def)
  then show ?thesis ..
next
  case (Wake_ends t r e)
  with act have "fact std (kernel_at H os a) (Wake_fails t e) (futex_at a m) = Some (futex_at a m')"
    by (auto elim!: sys_wake_endsE simp: futex_at_def set_pc_def Let_def split: if_splits)
  then show ?thesis ..
qed

lemma sys_reach_at:
  assumes "sys_reach H std os tmo own m" and "os_manual H os"
  shows "freach std (kernel_at H os a) (own a) (futex_at a m)"
  using assms(1)
proof (induction rule: sys_reach.induct)
  case init
  have "futex_at a (futexes_init std own) = futex_init std (own a)"
    by (simp add: futex_at_def futexes_init_def futex_init_def)
  then show ?case by (simp add: freach.init)
next
  case (step m b c m')
  show ?case
  proof (cases "b = a")
    case True
    with sys_act_at [OF assms(2) freach_queue_inv [OF step.IH]] step.hyps(2)
    obtain c' where "fact std (kernel_at H os a) c' (futex_at a m) = Some (futex_at a m')" by blast
    with step.IH show ?thesis by (rule freach.step)
  next
    case False
    with sys_act_elsewhere [OF step.hyps(2)] step.IH show ?thesis by simp
  qed
qed

text \<open>A wait without a timeout does not throw for one.\<close>

lemma lock_never_times_out:
  assumes "os_manual H os" and "wait_ends os (wait_args H tmo a t By_wait) r e"
  shows "wait_continue By_wait (wait_returned r e) \<noteq> Threw ETIMEDOUT"
  using os_manualD(2) [OF assms(1) _ assms(2)]
  by (auto simp: wait_continue_def wait_timeout_arg_def split: if_splits)

section \<open>Properties\<close>

text \<open>C12. The futexes of a process. Whatever the interleaving of threads, calls and answers of
  the kernel, the object at each address behaves as one of the futex system of its own, with
  a kernel that keeps the promise of that system: the arguments \<open>futex_wait\<close> and
  \<open>futex_wake\<close> pass make the kernel wait for and wake at this address only, compare with the
  value the code means and wake one thread, and the casts of the results lose nothing the code
  tests. At most one thread owns each; and a call of \<open>lock\<close> that waits never times out.\<close>

theorem futexes_of_a_process:
  assumes "os_manual H os" and "sys_reach H std os tmo own m"
  shows "futex_manual (kernel_at H os a)
    \<and> freach std (kernel_at H os a) (own a) (futex_at a m)
    \<and> (pc (object_at m a) t = Locked \<longrightarrow> pc (object_at m a) u = Locked \<longrightarrow> t = u)
    \<and> (wait_ends os (wait_args H tmo a t By_wait) r e \<longrightarrow>
         wait_continue By_wait (wait_returned r e) \<noteq> Threw ETIMEDOUT)"
proof -
  note f = sys_reach_at [OF assms(2,1), of a]
  have "pc (futex_at a m) t = Locked \<longrightarrow> pc (futex_at a m) u = Locked \<longrightarrow> t = u"
    using mutex_invD(4) [OF freach_mutex_inv [OF f], of t u] by auto
  with f kernel_at_manual [OF assms(1)] lock_never_times_out [OF assms(1)] show ?thesis
    by (simp add: futex_at_def)
qed

text \<open>A kernel that keeps its promise, and an execution with two futexes: thread 1 waits for the
  first one until thread 0 wakes it, while thread 2 holds the second one.\<close>

definition linux_os :: "(64, 64) os" where
  "linux_os =
     \<lparr>wait_now = (\<lambda>x v. if v = val1 x then None else Some (- 1, EAGAIN)),
      wait_ends = (\<lambda>x r e. r = - 1 \<and> (e = EINTR \<or> e = ETIMEDOUT \<and> arg4 x \<noteq> 0)),
      wake_now = (\<lambda>x q. let picked = take (nat (sint (val1 x))) q in
        (picked, of_nat (length picked), EAGAIN))\<rparr>"

lemma linux_os_manual: "os_manual linux_header linux_os"
  by (auto simp: os_manual_def linux_os_def linux_header_def Let_def dest: in_set_takeD)

definition two_futexes :: "(u64 \<times> u64 sys_action) list" where
  "two_futexes =
     [(4096, Code (Call_lock 0)), (8192, Code (Call_lock 2)), (4096, Code (Call_lock 1)),
      (4096, Code (Run 1)), (4096, Enter 1), (4096, Code (Call_unlock 0)),
      (4096, Code (Run 0)), (4096, Enter 0), (4096, Code (Run 1))]"

lemma sys_run_reach:
  "sys_run H std os tmo cs m = Some m' \<Longrightarrow> sys_reach H std os tmo own m \<Longrightarrow>
   sys_reach H std os tmo own m'"
proof (induction cs arbitrary: m)
  case (Cons c cs)
  obtain a k where c: "c = (a, k)" by fastforce
  with Cons.prems(1) obtain m1 where "sys_act H std os tmo a k m = Some m1"
    and "sys_run H std os tmo cs m1 = Some m'" by (auto split: option.splits)
  with Cons.IH Cons.prems(2) show ?case by (blast intro: sys_reach.step)
qed simp

lemma two_futexes_run:
  "\<exists>m. sys_run linux_header CXX17 linux_os (\<lambda>_ _. 0) two_futexes (futexes_init CXX17 (\<lambda>_. None)) = Some m
     \<and> pc (object_at m 4096) 1 = Locked \<and> pc (object_at m 8192) 2 = Locked
     \<and> pc (object_at m 4096) 0 = Idle \<and> waiters_at m 4096 = []"
  by (simp add: two_futexes_def futexes_init_def no_call_def enter_wait_def enter_wake_def set_pc_def
      linux_os_def Let_def op_simps futex_init_def Atomic_init_def wait_entry_def wait_loop_def
      wait_continue_def wake_returned_def)

theorem futexes_of_a_process_witness:
  "\<exists>m :: u64 process_futexes. freach CXX17 (kernel_at linux_header linux_os 4096) None (futex_at 4096 m)
     \<and> pc (futex_at 4096 m) 1 = Locked \<and> pc (futex_at 8192 m) 2 = Locked"
proof -
  obtain m where run: "sys_run linux_header CXX17 linux_os (\<lambda>_ _. 0) two_futexes
      (futexes_init CXX17 (\<lambda>_. None)) = Some m"
    and pcs: "pc (object_at m 4096) 1 = Locked" "pc (object_at m 8192) 2 = Locked"
    using two_futexes_run by blast
  have "sys_reach linux_header CXX17 linux_os (\<lambda>_ _. 0) (\<lambda>_. None) m"
    by (rule sys_run_reach [OF run sys_reach.init])
  from futexes_of_a_process [OF linux_os_manual this, of 4096] pcs show ?thesis
    by (intro exI [of _ m]) (simp add: futex_at_def)
qed

end
