(* ===== verification/Sysconf_System.thy ===== *)
theory Sysconf_System
  imports Sysconf
begin

text \<open>
  Concurrent calls of \<open>cache_line\<close> and \<open>page_size\<close>. Their static variables are initialised
  under the guard the language prescribes: the first thread that finds the variable
  uninitialised runs the initialiser, the others wait for it; an exception opens the guard
  again. Every concurrent execution is shown to be one of the sequential functions.
\<close>

section \<open>The guarded statics\<close>

datatype 'v guard = Unset | Busy tid | Set 'v

datatype call_pos = Outside | Wanting query | Initialising query

text \<open>\<open>errno\<close> is thread-local; \<open>answers\<close> are the results of the calls in the order they
  return.\<close>

record ('k, 'v) guarded =
  guard :: "query \<Rightarrow> 'v guard"
  call_pos :: "tid \<Rightarrow> call_pos"
  proc :: "tid \<Rightarrow> 'k process"
  answers :: "(query \<times> (sysconf_error + 'v)) list"

definition guarded_init :: "(tid \<Rightarrow> 'k process) \<Rightarrow> ('k, 'v) guarded" where
  "guarded_init ps =
     \<lparr>guard = (\<lambda>_. Unset), call_pos = (\<lambda>_. Outside), proc = ps, answers = []\<rparr>"

datatype 's static_action =
    Call_static tid query
  | Test_guard tid
  | Run_initialiser tid 's

definition name_of :: "int \<Rightarrow> int \<Rightarrow> query \<Rightarrow> int" where
  "name_of lc pg q = (case q of Cache_line \<Rightarrow> lc | Page_size \<Rightarrow> pg)"

text \<open>A thread that finds another one initialising waits: its test is not enabled.\<close>

fun static_act ::
    "int \<Rightarrow> int \<Rightarrow> ('k, 'l::len) os_sysconf static_action \<Rightarrow> ('k, 't::len word) guarded \<Rightarrow>
     ('k, 't word) guarded option" where
  "static_act lc pg (Call_static t q) s =
     (if call_pos s t = Outside then Some (s\<lparr>call_pos := (call_pos s)(t := Wanting q)\<rparr>) else None)"
| "static_act lc pg (Test_guard t) s =
     (case call_pos s t of
        Wanting q \<Rightarrow>
          (case guard s q of
             Set v \<Rightarrow> Some (s\<lparr>call_pos := (call_pos s)(t := Outside), answers := answers s @ [(q, Inr v)]\<rparr>)
           | Unset \<Rightarrow> Some (s\<lparr>guard := (guard s)(q := Busy t),
                            call_pos := (call_pos s)(t := Initialising q)\<rparr>)
           | Busy u \<Rightarrow> None)
      | _ \<Rightarrow> None)"
| "static_act lc pg (Run_initialiser t S) s =
     (case call_pos s t of
        Initialising q \<Rightarrow>
          (case sysconf S (name_of lc pg q) (proc s t) of
             (r, p') \<Rightarrow>
               Some (s\<lparr>guard := (guard s)(q := case r of Inl e \<Rightarrow> Unset | Inr v \<Rightarrow> Set v),
                       call_pos := (call_pos s)(t := Outside), proc := (proc s)(t := p'),
                       answers := answers s @ [(q, r)]\<rparr>))
      | _ \<Rightarrow> None)"

inductive static_reach ::
    "int \<Rightarrow> int \<Rightarrow> (tid \<Rightarrow> 'k process) \<Rightarrow> 'l::len itself \<Rightarrow> ('k, 't::len word) guarded \<Rightarrow> bool"
  for lc pg ps long where
  init: "static_reach lc pg ps long (guarded_init ps)"
| step: "static_reach lc pg ps long s \<Longrightarrow>
     static_act lc pg (a :: ('k, 'l) os_sysconf static_action) s = Some s' \<Longrightarrow> static_reach lc pg ps long s'"

fun static_run ::
    "int \<Rightarrow> int \<Rightarrow> ('k, 'l::len) os_sysconf static_action list \<Rightarrow> ('k, 't::len word) guarded \<Rightarrow>
     ('k, 't word) guarded option" where
  "static_run lc pg [] s = Some s"
| "static_run lc pg (a # as) s =
     (case static_act lc pg a s of None \<Rightarrow> None | Some s' \<Rightarrow> static_run lc pg as s')"

lemma static_run_reach:
  "static_run lc pg (as :: ('k, 'l::len) os_sysconf static_action list) s = Some s' \<Longrightarrow>
   static_reach lc pg ps (long :: 'l itself) s \<Longrightarrow> static_reach lc pg ps long s'"
  by (induction "as" arbitrary: s) (auto split: option.splits intro: static_reach.step)

section \<open>Refinement of the sequential functions\<close>

fun set_value :: "'v guard \<Rightarrow> 'v option" where
  "set_value (Set v) = Some v"
| "set_value g = None"

definition statics_of :: "('k, 'v) guarded \<Rightarrow> 'v statics" where
  "statics_of s = \<lparr>cache_line_value = set_value (guard s Cache_line),
                  page_size_value = set_value (guard s Page_size)\<rparr>"

lemma static_of_statics_of [simp]: "static_of q (statics_of s) = set_value (guard s q)"
  by (cases q) (simp_all add: static_of_def statics_of_def)

text \<open>One call of the sequential function, from its static and the answer of the system.\<close>

definition static_put :: "query \<Rightarrow> 'v option \<Rightarrow> 'v statics \<Rightarrow> 'v statics" where
  "static_put q x st =
     (case q of Cache_line \<Rightarrow> st\<lparr>cache_line_value := x\<rparr> | Page_size \<Rightarrow> st\<lparr>page_size_value := x\<rparr>)"

lemma ask_unset:
  assumes "static_of q st = None" and "sysconf S (name_of lc pg q) p = (r, p')"
  shows "ask lc pg q S (st, p) = (r, static_put q (case r of Inl e \<Rightarrow> None | Inr v \<Rightarrow> Some v) st, p')"
  using assms by (cases q; cases r; cases st) (auto simp: query_defs name_of_def static_put_def)

lemma asks_snoc:
  "asks lc pg (qs @ [(q, S)]) sp =
     (case asks lc pg qs sp of (rs, sp') \<Rightarrow>
       case ask lc pg q S sp' of (r, sp'') \<Rightarrow> (rs @ [(q, r)], sp''))"
  by (induction qs arbitrary: sp) (auto split: prod.splits)

text \<open>An answer of the system can be replayed from any state of the process.\<close>

lemma sysconf_replay:
  "sysconf (\<lambda>_ _. S n (p\<lparr>errno := 0\<rparr>)) n q = sysconf S n p"
  by (simp add: sysconf_def)

definition replayed ::
    "int \<Rightarrow> int \<Rightarrow> 'k process \<Rightarrow> 'l::len itself \<Rightarrow> ('k, 't::len word) guarded \<Rightarrow> bool" where
  "replayed lc pg p0 long s \<longleftrightarrow>
     (\<exists>(qs :: (query \<times> ('k, 'l) os_sysconf) list) p'.
        asks lc pg qs (statics_init, p0) = (answers s, statics_of s, p'))"

lemma replayed_answer:
  fixes p0 :: "'k process"
  assumes "replayed lc pg p0 (long :: 'l::len itself) s"
    and "\<And>p. \<exists>(S :: ('k, 'l) os_sysconf) p'. ask lc pg q S (statics_of s, p) = (r, statics_of s', p')"
    and "answers s' = answers s @ [(q, r)]"
  shows "replayed lc pg p0 long s'"
proof -
  from assms(1) obtain qs :: "(query \<times> ('k, 'l) os_sysconf) list" and p'
    where a: "asks lc pg qs (statics_init, p0) = (answers s, statics_of s, p')"
    by (auto simp: replayed_def)
  from assms(2) [of p'] obtain S :: "('k, 'l) os_sysconf" and p''
    where "ask lc pg q S (statics_of s, p') = (r, statics_of s', p'')" by blast
  with a assms(3) have "asks lc pg (qs @ [(q, S)]) (statics_init, p0)
      = (answers s', statics_of s', p'')"
    by (simp add: asks_snoc)
  then show ?thesis unfolding replayed_def by blast
qed

definition guarded_inv ::
    "int \<Rightarrow> int \<Rightarrow> 'k process \<Rightarrow> 'l::len itself \<Rightarrow> ('k, 't::len word) guarded \<Rightarrow> bool" where
  "guarded_inv lc pg p0 long s \<longleftrightarrow>
     (\<forall>q t. guard s q = Busy t \<longleftrightarrow> call_pos s t = Initialising q) \<and> replayed lc pg p0 long s"

lemma guarded_inv_init: "guarded_inv lc pg p0 long (guarded_init ps)"
  unfolding guarded_inv_def replayed_def
  by (auto simp: guarded_init_def statics_of_def statics_init_def intro!: exI [of _ "[]"])

lemma static_invD:
  "guarded_inv lc pg p0 long s \<Longrightarrow> guard s q = Busy t \<longleftrightarrow> call_pos s t = Initialising q"
  "guarded_inv lc pg p0 long s \<Longrightarrow> replayed lc pg p0 long s"
  by (simp_all add: guarded_inv_def)

lemma guarded_inv_test:
  assumes inv: "guarded_inv lc pg p0 long s" and act: "static_act lc pg (Test_guard t) s = Some s'"
  shows "guarded_inv lc pg p0 long s'"
proof -
  note busy = static_invD(1) [OF inv] and rep = static_invD(2) [OF inv]
  from act obtain q where q: "call_pos s t = Wanting q" by (auto split: call_pos.splits)
  have none: "guard s q' \<noteq> Busy t" for q' using busy [of q' t] q by simp
  show ?thesis
  proof (cases "guard s q")
    case Unset
    with act q have s': "s' = s\<lparr>guard := (guard s)(q := Busy t),
        call_pos := (call_pos s)(t := Initialising q)\<rparr>" by simp
    have "statics_of s' = statics_of s"
      using Unset by (cases q) (auto simp: s' statics_of_def)
    with rep Unset none show ?thesis
      by (auto simp: guarded_inv_def replayed_def s' simp flip: busy split: if_splits)
  next
    case (Set v)
    with act q have s': "s' = s\<lparr>call_pos := (call_pos s)(t := Outside),
        answers := answers s @ [(q, Inr v)]\<rparr>" by simp
    have "replayed lc pg p0 long s'"
      by (rule replayed_answer [OF rep, where q = q and r = "Inr v"])
        (use Set in \<open>auto simp: s' statics_of_def [of "s\<lparr>call_pos := x, answers := y\<rparr>" for x y]
          ask_static simp flip: statics_of_def\<close>)
    with none show ?thesis by (auto simp: guarded_inv_def s' simp flip: busy split: if_splits)
  next
    case (Busy u)
    with act q show ?thesis by simp
  qed
qed

lemma guarded_inv_initialise:
  fixes S :: "('k, 'l::len) os_sysconf" and s :: "('k, 't::len word) guarded"
  assumes inv: "guarded_inv lc pg p0 (long :: 'l itself) s"
    and act: "static_act lc pg (Run_initialiser t S) s = Some s'"
  shows "guarded_inv lc pg p0 long s'"
proof -
  note busy = static_invD(1) [OF inv] and rep = static_invD(2) [OF inv]
  from act obtain q where q: "call_pos s t = Initialising q" by (auto split: call_pos.splits)
  obtain r :: "sysconf_error + 't word" and p' where c: "sysconf S (name_of lc pg q) (proc s t) = (r, p')" by fastforce
  let ?g = "case r of Inl e \<Rightarrow> Unset | Inr v \<Rightarrow> Set v"
  from act q c have s': "s' = s\<lparr>guard := (guard s)(q := ?g),
      call_pos := (call_pos s)(t := Outside), proc := (proc s)(t := p'),
      answers := answers s @ [(q, r)]\<rparr>" by simp
  have g: "guard s q = Busy t" using busy q by simp
  have other: "guard s q' \<noteq> Busy t" if "q' \<noteq> q" for q' using busy [of q' t] q that by simp
  have "statics_of s' = static_put q (case r of Inl e \<Rightarrow> None | Inr v \<Rightarrow> Some v) (statics_of s)"
    by (cases q; cases r) (auto simp: s' statics_of_def static_put_def)
  moreover have "static_of q (statics_of s) = None" using g by simp
  ultimately have "ask lc pg q (\<lambda>_ _. S (name_of lc pg q) ((proc s t)\<lparr>errno := 0\<rparr>)) (statics_of s, p)
      = (r, statics_of s', p')" for p
    using ask_unset [of q "statics_of s" _ lc pg p r p'] c sysconf_replay by metis
  then have "replayed lc pg p0 long s'"
    by (intro replayed_answer [OF rep, where q = q and r = r]) (auto simp: s')
  moreover have "?g \<noteq> Busy u" for u by (cases r) simp_all
  ultimately show ?thesis
    using g other by (auto simp: guarded_inv_def s' simp flip: busy split: if_splits)
qed

lemma guarded_inv_act:
  fixes a :: "('k, 'l::len) os_sysconf static_action" and s :: "('k, 't::len word) guarded"
  assumes inv: "guarded_inv lc pg p0 (long :: 'l itself) s" and act: "static_act lc pg a s = Some s'"
  shows "guarded_inv lc pg p0 long s'"
proof (cases a)
  case (Call_static t q)
  with act have "s' = s\<lparr>call_pos := (call_pos s)(t := Wanting q)\<rparr>" "call_pos s t = Outside"
    by (auto split: if_splits)
  with inv show ?thesis
    by (auto simp: guarded_inv_def replayed_def statics_of_def split: if_splits)
qed (use guarded_inv_test [OF inv] guarded_inv_initialise [OF inv] act in blast)+

lemma static_reach_inv: "static_reach lc pg ps long s \<Longrightarrow> guarded_inv lc pg p0 long s"
  by (induction rule: static_reach.induct) (auto intro: guarded_inv_init guarded_inv_act)

lemma replayed_agree:
  assumes "replayed lc pg p0 long s" and "(q, Inr v) \<in> set (answers s)"
    and "(q, Inr w) \<in> set (answers s)"
  shows "v = w"
  using assms asks_agree by (auto simp: replayed_def)

section \<open>Properties\<close>

text \<open>C23. Concurrent first calls. Whatever the interleaving of calls of \<open>cache_line\<close> and
  \<open>page_size\<close> and whatever the system answers, at most one thread at a time runs an
  initialiser; the results, in the order in which they are returned, are those of the
  sequential functions called in that order; all calls of one function that return a value
  return the same one; and a thread that waits waits for an initialiser that is running.\<close>

theorem statics_concurrent:
  fixes long :: "'l::len itself"
  assumes "static_reach lc pg ps long s"
  shows "(\<exists>(qs :: (query \<times> ('k, 'l) os_sysconf) list) p'.
            asks lc pg qs (statics_init, p0) = (answers s, statics_of s, p'))
    \<and> (\<forall>q t u. call_pos s t = Initialising q \<and> call_pos s u = Initialising q \<longrightarrow> t = u)
    \<and> (\<forall>q v w. (q, Inr v) \<in> set (answers s) \<and> (q, Inr w) \<in> set (answers s) \<longrightarrow> v = w)
    \<and> (\<forall>q t (S :: ('k, 'l) os_sysconf). call_pos s t = Wanting q \<longrightarrow>
         static_act lc pg (Test_guard t :: ('k, 'l) os_sysconf static_action) s \<noteq> None
         \<or> (\<exists>u. static_act lc pg (Run_initialiser u S) s \<noteq> None))"
proof (intro conjI)
  note inv = static_reach_inv [OF assms, of p0]
  then have rep: "replayed lc pg p0 long s"
    and busy: "\<And>q t. guard s q = Busy t \<longleftrightarrow> call_pos s t = Initialising q"
    by (auto simp: guarded_inv_def)
  from rep show "\<exists>(qs :: (query \<times> ('k, 'l) os_sysconf) list) p'.
      asks lc pg qs (statics_init, p0) = (answers s, statics_of s, p')"
    by (simp add: replayed_def)
  show "\<forall>q t u. call_pos s t = Initialising q \<and> call_pos s u = Initialising q \<longrightarrow> t = u"
    using busy by (metis guard.inject(1))
  show "\<forall>q v w. (q, Inr v) \<in> set (answers s) \<and> (q, Inr w) \<in> set (answers s) \<longrightarrow> v = w"
    using replayed_agree [OF rep] by blast
  show "\<forall>q t (S :: ('k, 'l) os_sysconf). call_pos s t = Wanting q \<longrightarrow>
      static_act lc pg (Test_guard t :: ('k, 'l) os_sysconf static_action) s \<noteq> None
      \<or> (\<exists>u. static_act lc pg (Run_initialiser u S) s \<noteq> None)"
  proof (intro allI impI)
    fix q t and S :: "('k, 'l) os_sysconf"
    assume q: "call_pos s t = Wanting q"
    show "static_act lc pg (Test_guard t :: ('k, 'l) os_sysconf static_action) s \<noteq> None
        \<or> (\<exists>u. static_act lc pg (Run_initialiser u S) s \<noteq> None)"
    proof (cases "guard s q")
      case (Busy u)
      with busy have "call_pos s u = Initialising q" by simp
      then have "static_act lc pg (Run_initialiser u S) s \<noteq> None" by (simp split: prod.splits)
      then show ?thesis by blast
    qed (use q in simp_all)
  qed
qed

text \<open>Both threads want the page size; thread 1's initialiser throws, thread 2's succeeds, and
  thread 3 gets the cached value.\<close>

definition guarded_demo :: "(unit, 64) os_sysconf static_action list" where
  "guarded_demo =
     [Call_static 1 Page_size, Call_static 2 Page_size, Test_guard 1,
      Run_initialiser 1 (\<lambda>n p. (- 1, p\<lparr>errno := 22\<rparr>)), Test_guard 2, Call_static 3 Page_size,
      Run_initialiser 2 (\<lambda>n p. (4096, p)), Test_guard 3]"

lemma guarded_demo_run:
  "\<exists>s :: (unit, 64 word) guarded.
     static_run 190 30 guarded_demo (guarded_init (\<lambda>_. \<lparr>errno = 0, kernel = ()\<rparr>)) = Some s
     \<and> answers s = [(Page_size, Inl (System_error 22)), (Page_size, Inr 4096), (Page_size, Inr 4096)]"
  by (simp add: guarded_demo_def guarded_init_def sysconf_def name_of_def)

theorem statics_concurrent_witness:
  "\<exists>s :: (unit, 64 word) guarded.
     static_reach 190 30 (\<lambda>_. \<lparr>errno = 0, kernel = ()\<rparr>) TYPE(64) s
     \<and> answers s = [(Page_size, Inl (System_error 22)), (Page_size, Inr 4096), (Page_size, Inr 4096)]
     \<and> (\<exists>(qs :: (query \<times> (unit, 64) os_sysconf) list) p'.
          asks 190 30 qs (statics_init, \<lparr>errno = 0, kernel = ()\<rparr>) = (answers s, statics_of s, p'))"
proof -
  obtain s :: "(unit, 64 word) guarded"
    where run: "static_run 190 30 guarded_demo (guarded_init (\<lambda>_. \<lparr>errno = 0, kernel = ()\<rparr>)) = Some s"
    and a: "answers s = [(Page_size, Inl (System_error 22)), (Page_size, Inr 4096), (Page_size, Inr 4096)]"
    using guarded_demo_run by blast
  have r: "static_reach 190 30 (\<lambda>_. \<lparr>errno = 0, kernel = ()\<rparr>) TYPE(64) s"
    by (rule static_run_reach [OF run static_reach.init])
  from statics_concurrent [OF r, of "\<lparr>errno = 0, kernel = ()\<rparr>"] r a show ?thesis by blast
qed

end
