(* ===== verification/Spec2Isabelle.thy ===== *)
theory Spec2Isabelle
  imports Aba_Linear Stack_Views Stack_Turn Stack_Pool Ptr_Views Aba_Asm Build Futex_Liveness Test_Futex Test_Stack
    Test_Timeout Test_Trylock Test_Units
    Futex_Syscall Sysconf_System
begin

text \<open>
  \<^bold>\<open>A verification development for the library ConcurrentFW.\<close>

  The library (\<open>src/src/concurrentfw/*.hpp\<close>, \<open>src/src/*.cpp\<close>) offers low-level building
  blocks for concurrent C++ programs on Linux: an atomic type, inline assembler for
  double-word compare-and-swap (x86) and exclusive loads and stores (ARM), a wrapper that
  protects a word against the ABA problem on either kind of processor, a lock-free stack and
  an atomic pointer on top of it, and a futex-based mutex.

  \<^bold>\<open>How the parts fit together.\<close> \<open>helper.hpp\<close> and \<open>atomic_asm_dwcas_llsc.hpp\<close> choose the
  word width and the ABA solution of the target. \<open>aba_wrapper.hpp\<close> implements \<open>modify\<close>, a
  loop around a user function, with the assembler functions of the target:
  \<open>atomic_asm_x86.hpp\<close> with a counter in the second word, \<open>atomic_asm_arm.hpp\<close> without.
  \<open>stack.cpp\<close> and \<open>concurrent_ptr.hpp\<close> are two clients of \<open>modify\<close>. \<open>futex.hpp\<close> and
  \<open>futex.cpp\<close> use \<open>atomic.hpp\<close> and the futex system call only. \<open>sysconf.hpp\<close> and
  \<open>sysconf.cpp\<close> stand alone.

  \<^bold>\<open>The theories.\<close>

  \<^item> \<open>Prelude\<close>: thread identifiers, widths, rule collections, the arithmetic of wrapping
    counters.
  \<^item> \<open>Platform\<close>: \<open>PLATFORM_WIDTH\<close> and \<open>PLATFORM_ABA_SOLUTION\<close> as functions of the target.
  \<^item> \<open>Atomic\<close>: every operation of \<open>Atomic<T>\<close>, on the pair of the thread's views and the
    object. The views record which plain writes happen before the thread's next action, so
    that the memory-order arguments matter; the language version decides whether a plain
    store continues a release sequence. Lemmas: message passing, fences, the
    concept on compare-exchange orders. The locale
    \<open>atomic_object\<close> states what a user relies on as far as values go.
  \<^item> \<open>Asm_X86\<close>, \<open>Asm_Arm\<close>: the assembler blocks instruction by instruction, on the registers
    they name and the memory words they access, with other threads' writes between the
    instructions. The SSE load is two accesses unless the processor promises one
    (\<open>sse_load\<close>). The locales \<open>dwcas\<close> and \<open>llsc\<close> are the contracts of the two families;
    each variant in the headers is an interpretation.
  \<^item> \<open>Aba_Wrapper\<close>: sizes and static assertions, constructor, \<open>get\<close>, \<open>get_counter\<close>, and
    \<open>modify\<close> as a machine with one step per access to shared memory. A load of the double
    word may be torn into its halves, as \<open>CMakeLists.txt\<close> warns for SSE without AVX, and a
    store-exclusive may fail spuriously.
  \<^item> \<open>Aba_Asm\<close>: the loop of \<open>modify\<close> over the assembler functions refines that machine, under
    the contracts \<open>shared_dwcas\<close> and \<open>word_llsc\<close>, hence for every variant of the headers;
    a torn SSE load is the torn load of the machine.
  \<^item> \<open>Aba_Views\<close>: which plain writes the assembler functions order between threads, for each
    variant (SSE load with a fence, \<open>lock cmpxchg\<close>, acquiring and releasing exclusives, \<open>dmb\<close>),
    under the contract \<open>synchronised\<close>: a modification that succeeds has acquired what all
    modifications before it published, and publishes its own.
  \<^item> \<open>Build\<close>: what the preprocessor makes of the headers for a configuration; every accepted
    one has the functions \<open>ABA_Wrapper\<close> needs, of one variant. The version constants.
  \<^item> \<open>Aba_System\<close>: all executions (\<open>areach\<close>) of any number of threads that call \<open>modify\<close> with
    any modifier functions, while the client writes to its memory: a successful attempt
    replaces the state it was computed from; lock freedom, as a bound on the steps of a call
    by the modifications of the other threads; the exact worth of the counter.
  \<^item> \<open>Aba_Linear\<close>: the wrapper as an object of its own: \<open>modify\<close> with any functions of the
    cached data, \<open>get\<close> and \<open>get_counter\<close> are linearizable to an atomic update object,
    without an assumption on the counter.
  \<^item> \<open>Stack\<close>, \<open>Stack_System\<close>: \<open>push\<close> and \<open>pop\<close> as modifier functions, alone and run by any
    number of threads; linearizability to a list of blocks, conservation and exclusive
    ownership of blocks.
  \<^item> \<open>Stack_Views\<close>: the plain writes to a block happen before its next owner's actions.
  \<^item> \<open>Stack_Pool\<close>: several stacks in one memory, as \<open>test_stack.cpp\<close> uses them; each one's
    projection is an execution of \<open>Stack_System\<close>. \<open>Test_Stack\<close>: the whole program of
    \<open>test_stack.cpp\<close> as a client of the pool; its check cannot fail.
  \<^item> \<open>Stack_Turn\<close>: for every width, an execution in which the counter makes a whole turn and
    the stack breaks.
  \<^item> \<open>Concurrent_Ptr\<close>: \<open>set\<close>, \<open>get\<close>, \<open>get_counter\<close>; linearizability to a register that counts
    its writes. \<open>Ptr_Views\<close>: what its setter did happens before what its getter does.
  \<^item> \<open>Futex_Base\<close>: how the wrappers of \<open>FutexBase\<close> put the arguments of the system call
    together.
  \<^item> \<open>Futex_Syscall\<close>: several futexes of a process over the wrappers of \<open>FutexBase\<close> and one
    kernel with a queue for each address; at each address a \<open>Futex\<close> system of its own.
  \<^item> \<open>Futex\<close>, \<open>Futex_System\<close>: \<open>lock\<close>, \<open>trylock\<close>, \<open>trylock_timeout\<close>, \<open>unlock\<close>, \<open>wait\<close>,
    \<open>wait_timeout\<close>, \<open>wake\<close> with one step per access to \<open>value\<close> or system call; mutual
    exclusion, no lost wake-up, progress, publication of the protected data under the rules
    of C++17 and its failure under those of C++20; the calls of \<open>futex_wait\<close> with their
    timeouts; what an \<open>unlock\<close> of a free futex does as long as no further misuse follows.
    \<open>Futex_Liveness\<close>: under every schedule the number of steps without an acquisition is
    bounded by the number of threads on their way and of waits that end of themselves.
    \<open>Lock\<close> is the contract \<open>mutual_exclusion\<close> between the futex and its clients.
  \<^item> \<open>Test_Futex\<close>: the counting workers of \<open>test_futex.cpp\<close> as a client of an array of
    futexes; the check of the counters at the end of \<open>run_for\<close> cannot fail, but its division
    can be by zero. \<open>Test_Trylock\<close>: the trylock
    tests with their main thread; every pass is counted once, and the count can be zero, by
    which \<open>run_for\<close> then divides. \<open>Test_Timeout\<close>: the test with short timeouts.
  \<^item> \<open>Test_Units\<close>: the single-threaded test cases, as lists of checks that all hold; the one of
    \<open>test_sysconf.cpp\<close> with the exact condition on the system. In the one with a timeout a
    thread waits for a futex it holds, which the client discipline of \<open>Futex\<close> excludes, so
    that it is run on the operations themselves.
  \<^item> \<open>Sysconf\<close>, \<open>Sysconf_System\<close>: the error convention of sysconf(3) and the cached values,
    in sequence and under concurrent first calls.

  \<^bold>\<open>Parameters.\<close> Code that is not in the repository is an argument of the definitions: the
  kernel's treatment of a futex wait and wake (\<open>futex_kernel\<close>, with the promise of futex(2)
  as \<open>futex_manual\<close>; by the arguments of the calls \<open>futex_os\<close> with \<open>os_manual\<close>), the numbers
  of \<open>linux/futex.h\<close> (\<open>futex_header\<close>), and sysconf(3) (\<open>os_sysconf\<close>). Errors, signals, timeouts and spurious returns of system calls are labels
  of the transition system, so every order of them is covered.

  \<^bold>\<open>Assumptions.\<close> On the DWCAS platforms the stack assumes that the counter does not make a
  whole turn during one attempt (\<open>fresh\<close>); \<open>modify_commit_iff\<close> shows that this is exactly
  what is needed, executions of at most \<open>2 ^ w\<close> actions need no assumption, and
  \<open>stack_breaks_after_turn\<close> breaks the stack with about five times as many. The LL/SC
  platforms, \<open>Concurrent_Ptr\<close> and every function of the cached data alone need none. A
  16-byte SSE store is taken as one access; only the constructor of \<open>ABA_Wrapper\<close> makes one,
  before other threads know the object. The
  clients of the stack push, write to and hand over only blocks they hold, and block memory
  stays readable; those of the futex unlock
  only what they have locked. Shared-memory accesses are interleaved one at a time; the
  weaker orders of the C++ memory model enter through the views of \<open>Atomic\<close> only.

  \<^bold>\<open>Bounds.\<close> \<open>modify_run\<close> takes a number of steps: six are enough from any point when there is
  no interruption, neither a step of another thread nor a spurious failure of a
  store-exclusive. The slow double-word stores loop until they succeed: the number of
  foreign writes plus two iterations is enough. \<open>dw_loop\<close>, \<open>ex_loop\<close>, \<open>modify_under\<close> and
  \<open>modify_under_ex\<close> count attempts or steps and agree for every number of them, running out
  included. Everything else is structurally recursive or a relation.

  \<^bold>\<open>Not modelled.\<close> The compiler barriers and branch hints of \<open>helper.hpp\<close>, which have no effect
  at this level; declarations without a body (deleted and defaulted members, include guards);
  of the tests the comparison of run times with glibc, sleeps and output, and the
  number of hardware threads.

  \<^bold>\<open>Order of the work.\<close> The stack and the wrapper came first, since everything lock-free rests
  on \<open>modify\<close>; then the futex, the pointer, the assembler with its link to \<open>modify\<close>, and the
  small parts; then the memory orders of the lock-free part, the compositions (several
  stacks, arrays of futexes, concurrent static initialisation, build configurations), the
  liveness of the futex and the limit of the counter; then the test programs as clients.
\<close>

end
